(* ===== verification/Prelude.thy ===== *)
theory Prelude
  imports Main "HOL-Library.Word"
begin

text \<open>
  Shared vocabulary of the development: the widths of the C integer types, byte buffers
  and the operations of the C library that the sources apply to them (\<^verbatim>\<open>os_memcpy\<close>,
  \<^verbatim>\<open>os_memmove\<close>, \<^verbatim>\<open>os_bzero\<close>, \<^verbatim>\<open>os_strlen\<close>, \<^verbatim>\<open>os_strncmp\<close>, \<^verbatim>\<open>os_strstr\<close>,
  \<^verbatim>\<open>index\<close>), little-endian values of byte lists, and the list and word lemmas that
  several components use. A buffer is the list of its bytes, so its length is the
  \<^verbatim>\<open>sizeof\<close> of the array it stands for.
\<close>

unbundle bit_operations_syntax

type_synonym u8 = "8 word"
type_synonym u16 = "16 word"
type_synonym u32 = "32 word"
type_synonym u64 = "64 word"

named_theorems buf_simps \<open>length, nth, take and drop of patched buffers\<close>

section \<open>Bytes and strings\<close>

text \<open>The bytes of a C string literal, without the terminating NUL.\<close>

definition ascii :: "string \<Rightarrow> u8 list" where
  "ascii s = map of_char s"

text \<open>
  \<open>patch xs i ys\<close> is the buffer \<open>xs\<close> after \<^verbatim>\<open>os_memcpy(xs + i, ys, length ys)\<close>; it is
  only used with \<open>i + length ys \<le> length xs\<close>.
\<close>

definition patch :: "'a list \<Rightarrow> nat \<Rightarrow> 'a list \<Rightarrow> 'a list" where
  "patch xs i ys = take i xs @ ys @ drop (i + length ys) xs"

text \<open>The bytes before the first NUL: what \<^verbatim>\<open>os_strlen\<close> and its kin see of a buffer.\<close>

definition cstr :: "u8 list \<Rightarrow> u8 list" where
  "cstr xs = takeWhile (\<lambda>b. b \<noteq> 0) xs"

definition c_strlen :: "u8 list \<Rightarrow> nat" where
  "c_strlen xs = length (cstr xs)"

text \<open>
  \<^verbatim>\<open>strncmp(a, b, n) == 0\<close>: the comparison stops at the first difference, after
  \<open>n\<close> bytes, or at a NUL that both strings have at the same place.
\<close>

fun strncmp_eq :: "u8 list \<Rightarrow> u8 list \<Rightarrow> nat \<Rightarrow> bool" where
  "strncmp_eq a b 0 = True"
| "strncmp_eq (x # a) (y # b) (Suc n) =
     (if x \<noteq> y then False else if x = 0 then True else strncmp_eq a b n)"
| "strncmp_eq [] [] (Suc n) = True"
| "strncmp_eq (x # a) [] (Suc n) = (x = 0)"
| "strncmp_eq [] (y # b) (Suc n) = (y = 0)"

text \<open>The index of the first occurrence of a text in another, as \<^verbatim>\<open>strstr\<close> and \<^verbatim>\<open>index\<close> find it.\<close>

fun c_strstr :: "u8 list \<Rightarrow> u8 list \<Rightarrow> nat option" where
  "c_strstr hay needle =
     (if take (length needle) hay = needle then Some 0
      else case hay of [] \<Rightarrow> None | c # cs \<Rightarrow> map_option Suc (c_strstr cs needle))"

declare c_strstr.simps [simp del]

text \<open>The conversion \<^verbatim>\<open>%u\<close> of \<^verbatim>\<open>os_printf\<close> and \<^verbatim>\<open>os_snprintf\<close>.\<close>

fun fmt_u :: "nat \<Rightarrow> u8 list" where
  "fmt_u n = (if n < 10 then [48 + of_nat n] else fmt_u (n div 10) @ [48 + of_nat (n mod 10)])"

declare fmt_u.simps [simp del]

text \<open>\<^verbatim>\<open>%0wu\<close>: at least \<open>w\<close> digits, filled up with zeros; \<^verbatim>\<open>%wu\<close>: filled up with blanks.\<close>

definition fmt_0u :: "nat \<Rightarrow> nat \<Rightarrow> u8 list" where
  "fmt_0u w n = replicate (w - length (fmt_u n)) 48 @ fmt_u n"

definition fmt_pu :: "nat \<Rightarrow> nat \<Rightarrow> u8 list" where
  "fmt_pu w n = replicate (w - length (fmt_u n)) 32 @ fmt_u n"

text \<open>The conversion \<^verbatim>\<open>%02x\<close> of a byte.\<close>

definition hexdigit :: "nat \<Rightarrow> u8" where
  "hexdigit n = ascii ''0123456789abcdef'' ! n"

definition fmt_02x :: "u8 \<Rightarrow> u8 list" where
  "fmt_02x b = [hexdigit (unat b div 16), hexdigit (unat b mod 16)]"

text \<open>The conversion \<^verbatim>\<open>%01x\<close> of a byte.\<close>

definition fmt_x :: "u8 \<Rightarrow> u8 list" where
  "fmt_x b = (if unat b < 16 then [hexdigit (unat b)] else fmt_02x b)"

text \<open>
  \<^verbatim>\<open>snprintf(buf, sizeof(buf), ...)\<close> once the text is formatted: as much of it as fits is stored and
  terminated, the rest of the buffer is left alone. The returned length is that of the whole text.
\<close>

definition c_snprintf :: "u8 list \<Rightarrow> u8 list \<Rightarrow> u8 list" where
  "c_snprintf buf txt = (if buf = [] then [] else patch buf 0 (take (length buf - 1) txt @ [0]))"

text \<open>\<^verbatim>\<open>atoi\<close>: blanks, a sign, digits; values out of range are cut to the nearest \<^verbatim>\<open>int\<close>.\<close>

definition c_atoi :: "u8 list \<Rightarrow> int" where
  "c_atoi s =
     (let t = dropWhile (\<lambda>c. c = 32 \<or> (9 \<le> c \<and> c \<le> 13)) s;
          neg = (t \<noteq> [] \<and> hd t = 45);
          d = (if t \<noteq> [] \<and> (hd t = 45 \<or> hd t = 43) then tl t else t);
          v = foldl (\<lambda>a c. 10 * a + (int (unat c) - 48)) 0 (takeWhile (\<lambda>c. 48 \<le> c \<and> c \<le> 57) d)
      in if neg then max (- (2 ^ 31)) (- v) else min (2 ^ 31 - 1) v)"

section \<open>Little-endian values\<close>

primrec le_val :: "u8 list \<Rightarrow> nat" where
  "le_val [] = 0"
| "le_val (b # bs) = unat b + 256 * le_val bs"

section \<open>Blocks\<close>

text \<open>The whole blocks of \<open>n\<close> bytes of a list, and what is left after them.\<close>

fun blocks :: "nat \<Rightarrow> 'a list \<Rightarrow> 'a list list" where
  "blocks n xs = (if n = 0 \<or> length xs < n then [] else take n xs # blocks n (drop n xs))"

declare blocks.simps [simp del]

section \<open>Lemmas\<close>

lemma length_patch [simp, buf_simps]:
  "i + length ys \<le> length xs \<Longrightarrow> length (patch xs i ys) = length xs"
  by (simp add: patch_def)

lemma nth_patch [buf_simps]:
  assumes "i + length ys \<le> length xs" "k < length xs"
  shows "patch xs i ys ! k = (if i \<le> k \<and> k < i + length ys then ys ! (k - i) else xs ! k)"
  using assms by (auto simp: patch_def nth_append min_def)

lemma take_patch_end [buf_simps]:
  assumes "i \<le> length xs"
  shows "take (i + length ys) (patch xs i ys) = take i xs @ ys"
  using assms by (simp add: patch_def)

lemma take_patch_before [buf_simps]:
  assumes "k \<le> i" "i \<le> length xs"
  shows "take k (patch xs i ys) = take k xs"
  using assms by (simp add: patch_def min_def)

lemma drop_patch_after [buf_simps]:
  assumes "i + length ys \<le> k" "i \<le> length xs"
  shows "drop k (patch xs i ys) = drop k xs"
  using assms by (simp add: patch_def)

lemma patch_Nil [simp]: "patch xs i [] = xs"
  by (simp add: patch_def)

lemma patch_whole [simp]: "length ys = length xs \<Longrightarrow> patch xs 0 ys = ys"
  by (simp add: patch_def)

lemma blocks_short [simp]: "length xs < n \<Longrightarrow> blocks n xs = []"
  by (simp add: blocks.simps)

lemma blocks_step:
  "0 < n \<Longrightarrow> length b = n \<Longrightarrow> blocks n (b @ xs) = b # blocks n xs"
  by (subst blocks.simps) simp

lemma blocks_append:
  assumes "0 < n" "length xs = n * k"
  shows "blocks n (xs @ ys) = blocks n xs @ blocks n ys"
  using assms(2)
proof (induction k arbitrary: xs)
  case 0
  with assms(1) show ?case by simp
next
  case (Suc k)
  define b r where "b = take n xs" and "r = drop n xs"
  have x: "xs = b @ r" and b: "length b = n" and r: "length r = n * k"
    using Suc.prems by (auto simp: b_def r_def)
  have "blocks n (xs @ ys) = b # blocks n (r @ ys)"
    using x b assms(1) by (simp add: blocks_step)
  also have "\<dots> = b # blocks n r @ blocks n ys" by (simp add: Suc.IH [OF r])
  also have "\<dots> = blocks n xs @ blocks n ys"
    using x b assms(1) by (simp add: blocks_step)
  finally show ?case .
qed

lemma blocks_single [simp]: "0 < n \<Longrightarrow> length b = n \<Longrightarrow> blocks n b = [b]"
  using blocks_step [of n b "[]"] by simp

text \<open>The bytes after the last whole block.\<close>

definition rest :: "nat \<Rightarrow> 'a list \<Rightarrow> 'a list" where
  "rest n xs = drop (n * (length xs div n)) xs"

lemma length_rest [simp]: "length (rest n xs) = length xs mod n"
  by (simp add: rest_def minus_mult_div_eq_mod)

lemma blocks_whole:
  assumes "0 < n"
  obtains w where "xs = w @ rest n xs" "length w = n * (length xs div n)" "blocks n xs = blocks n w"
proof -
  define w where "w = take (n * (length xs div n)) xs"
  have w: "xs = w @ rest n xs" "length w = n * (length xs div n)"
    by (simp_all add: w_def rest_def)
  have "blocks n (w @ rest n xs) = blocks n w @ blocks n (rest n xs)"
    using blocks_append [OF assms w(2)] .
  moreover have "blocks n (rest n xs) = []" using assms by simp
  ultimately have "blocks n xs = blocks n w" using w(1) by simp
  with w show ?thesis using that by blast
qed

lemma blocks_rest_less:
  assumes "0 < n" "length xs mod n + length d < n"
  shows "blocks n (xs @ d) = blocks n xs" and "rest n (xs @ d) = rest n xs @ d"
    and "length (xs @ d) div n = length xs div n"
    and "length (xs @ d) mod n = length xs mod n + length d"
proof -
  obtain w where w: "xs = w @ rest n xs" "length w = n * (length xs div n)" "blocks n xs = blocks n w"
    using blocks_whole [OF assms(1)] .
  have x: "xs @ d = w @ (rest n xs @ d)" using w(1) by (metis append.assoc)
  have "blocks n (w @ (rest n xs @ d)) = blocks n w @ blocks n (rest n xs @ d)"
    using blocks_append [OF assms(1) w(2)] .
  moreover have "blocks n (rest n xs @ d) = []" using assms(2) by simp
  ultimately show "blocks n (xs @ d) = blocks n xs" by (simp only: x w(3) append_Nil2)
  have "length (xs @ d) = n * (length xs div n) + (length xs mod n + length d)" by simp
  then show div: "length (xs @ d) div n = length xs div n"
    using assms by (metis div_mult_self4 add_0_right div_less div_mult_self2 not_gr_zero add.commute)
  show "length (xs @ d) mod n = length xs mod n + length d"
    using assms by (metis length_append mod_add_left_eq mod_less)
  show "rest n (xs @ d) = rest n xs @ d"
    unfolding rest_def [of n "xs @ d"] div by (subst x) (simp add: w(2))
qed

lemma blocks_rest_full:
  assumes "0 < n" "length xs mod n + length d = n"
  shows "blocks n (xs @ d) = blocks n xs @ [rest n xs @ d]" and "rest n (xs @ d) = []"
    and "length (xs @ d) div n = length xs div n + 1"
    and "length (xs @ d) mod n = 0"
proof -
  obtain w where w: "xs = w @ rest n xs" "length w = n * (length xs div n)" "blocks n xs = blocks n w"
    using blocks_whole [OF assms(1)] .
  have x: "xs @ d = w @ (rest n xs @ d)" using w(1) by (metis append.assoc)
  have "blocks n (w @ (rest n xs @ d)) = blocks n w @ blocks n (rest n xs @ d)"
    using blocks_append [OF assms(1) w(2)] .
  moreover have "blocks n (rest n xs @ d) = [rest n xs @ d]" using assms by simp
  ultimately show "blocks n (xs @ d) = blocks n xs @ [rest n xs @ d]" by (simp only: x w(3))
  have l: "length (xs @ d) = n * (length xs div n + 1)"
  proof -
    have "length xs = n * (length xs div n) + length xs mod n"
      and "n * (length xs div n + 1) = n * (length xs div n) + n" by simp_all
    with assms(2) show ?thesis unfolding length_append by linarith
  qed
  show "length (xs @ d) div n = length xs div n + 1" "length (xs @ d) mod n = 0"
    unfolding l using assms(1) by simp_all
  then show "rest n (xs @ d) = []" using l by (simp add: rest_def)
qed

lemma le_val_append: "le_val (xs @ ys) = le_val xs + 256 ^ length xs * le_val ys"
  by (induction xs) (auto simp: algebra_simps)

lemma le_val_less: "le_val xs < 256 ^ length xs"
proof (induction xs)
  case Nil
  then show ?case by simp
next
  case (Cons b bs)
  have "unat b < 256" using unsigned_less [of b, where ?'a = nat] by simp
  then show ?case using Cons by simp
qed

lemma le_val_replicate_zero [simp]: "le_val (replicate n 0) = 0"
  by (induction n) auto

lemma bit_le_val:
  "bit (le_val xs) n \<longleftrightarrow> n div 8 < length xs \<and> bit (xs ! (n div 8)) (n mod 8)"
proof (induction xs arbitrary: n)
  case Nil
  then show ?case by simp
next
  case (Cons b bs)
  have ub: "unat b < 2 ^ 8" using unsigned_less [of b, where ?'a = nat] by simp
  have split: "unat b + 256 * le_val bs = unat b OR push_bit 8 (le_val bs)"
  proof -
    have "take_bit 8 (unat b) = unat b" using ub by (simp add: take_bit_nat_eq_self_iff)
    then have "\<not> bit (unat b) k" if "8 \<le> k" for k
      using that by (metis bit_take_bit_iff not_le)
    then have "disjunctive_add": "unat b + push_bit 8 (le_val bs) = unat b OR push_bit 8 (le_val bs)"
      by (intro disjunctive_add) (auto simp: bit_push_bit_iff)
    then show ?thesis by (simp add: push_bit_eq_mult)
  qed
  show ?case
  proof (cases "n < 8")
    case True
    then show ?thesis by (simp add: split bit_or_iff bit_push_bit_iff bit_unsigned_iff)
  next
    case False
    then have "n div 8 = Suc ((n - 8) div 8)" and "n mod 8 = (n - 8) mod 8"
      by (simp_all add: div_if mod_if)
    moreover have "\<not> bit (unat b) n"
      using False ub by (metis bit_take_bit_iff take_bit_nat_eq_self_iff)
    ultimately show ?thesis
      using False Cons.IH [of "n - 8"] by (simp add: split bit_or_iff bit_push_bit_iff)
  qed
qed

lemma strncmp_eq_prefix:
  assumes "\<forall>k < n. k < length a \<and> k < length b"
    and "\<forall>k < n. a ! k \<noteq> 0"
  shows "strncmp_eq a b n \<longleftrightarrow> take n a = take n b"
  using assms
proof (induction a b n rule: strncmp_eq.induct)
  case (2 x a y b n)
  have "x \<noteq> 0" using 2 by fastforce
  moreover have "\<forall>k < n. k < length a \<and> k < length b" "\<forall>k < n. a ! k \<noteq> 0"
    using 2 by fastforce+
  ultimately show ?case using 2 by simp
qed fastforce+

lemma patch_Cons:
  assumes "j < length xs"
  shows "patch xs j (y # ys) = patch (xs[j := y]) (Suc j) ys"
  using assms by (simp add: patch_def take_Suc_conv_app_nth take_update_cancel)

lemma patch_patch:
  assumes "j + length ys + length zs \<le> length xs"
  shows "patch (patch xs j ys) (j + length ys) zs = patch xs j (ys @ zs)"
  using assms by (simp add: patch_def ac_simps)

lemma shift_add_or: "y < 2 ^ k \<Longrightarrow> x * 2 ^ k + y = push_bit k x OR (y :: nat)"
proof -
  assume y: "y < 2 ^ k"
  have "\<not> bit y i" if "k \<le> i" for i
    using y that by (metis bit_take_bit_iff not_le take_bit_nat_eq_self_iff)
  then have "push_bit k x + y = push_bit k x OR y"
    by (intro disjunctive_add) (auto simp: bit_push_bit_iff)
  then show ?thesis by (simp add: push_bit_eq_mult)
qed

lemma push_bit_of_nat_word: "push_bit k (of_nat x :: 'a::len word) = of_nat (x * 2 ^ k)"
  by (simp add: push_bit_eq_mult)

lemma push_or_of_nat:
  "y < 2 ^ k \<Longrightarrow> push_bit k (of_nat x :: 'a::len word) OR of_nat y = of_nat (x * 2 ^ k + y)"
  by (simp add: shift_add_or of_nat_or_eq flip: push_bit_of_nat)

lemma bit_word_of_nat_iff:
  "bit (of_nat n :: 'a::len word) i \<longleftrightarrow> i < LENGTH('a) \<and> bit n i"
  by transfer (simp add: bit_take_bit_iff bit_of_nat_iff_bit)

lemma field_of_nat:
  assumes "w \<le> 8" and "n < 2 ^ 32"
  shows "ucast (drop_bit k ((of_nat n :: u32) AND push_bit k (mask w))) =
         (of_nat (n div 2 ^ k mod 2 ^ w) :: u8)"
proof (rule bit_word_eqI)
  fix i assume "i < LENGTH(8)"
  then have i: "i < 8" by simp
  have n: "bit n j \<Longrightarrow> j < 32" for j
    using assms(2) by (metis bit_take_bit_iff take_bit_nat_eq_self_iff)
  have "bit (of_nat (n div 2 ^ k mod 2 ^ w) :: u8) i \<longleftrightarrow> i < w \<and> bit n (k + i)"
    using i by (simp add: bit_word_of_nat_iff flip: take_bit_eq_mod drop_bit_eq_div)
      (auto simp: bit_simps)
  moreover have "bit (ucast (drop_bit k ((of_nat n :: u32) AND push_bit k (mask w))) :: u8) i \<longleftrightarrow>
      i < w \<and> bit n (k + i)"
    using i n [of "k + i"] by (auto simp: bit_simps bit_word_of_nat_iff)
  ultimately show "bit (ucast (drop_bit k ((of_nat n :: u32) AND push_bit k (mask w))) :: u8) i =
      bit (of_nat (n div 2 ^ k mod 2 ^ w) :: u8) i" by simp
qed

lemma unat_u8_less: "unat (b :: u8) < 256"
  using unsigned_less [of b, where ?'a = nat] by simp

lemma unat_of_nat_small: "n < 2 ^ LENGTH('a) \<Longrightarrow> unat (of_nat n :: 'a::len word) = n"
  by (simp add: unat_of_nat)

lemma ucast_drop_bit_byte:
  "ucast (drop_bit k w) = (of_nat (unat w div 2 ^ k) :: u8)" for w :: "'a::len word"
proof -
  have "unat (drop_bit k w) = unat w div 2 ^ k" by (simp only: unat_drop_bit_eq drop_bit_nat_def)
  then show ?thesis by (metis of_nat_unat)
qed

lemma blocks_lengths: "b \<in> set (blocks n xs) \<Longrightarrow> length b = n"
proof (induction n xs rule: blocks.induct)
  case (1 n xs)
  then show ?case by (subst (asm) (2) blocks.simps) (auto split: if_splits)
qed

lemma foldl_cong_inv:
  assumes "P a" "\<And>a x. x \<in> set xs \<Longrightarrow> P a \<Longrightarrow> f a x = g a x \<and> P (g a x)"
  shows "foldl f a xs = foldl g a xs"
  using assms by (induction xs arbitrary: a) auto

lemma fmt_u_digits: "set (fmt_u n) \<subseteq> {48..57}"
proof (induction n rule: fmt_u.induct)
  case (1 n)
  have d: "(48 :: u8) + of_nat k \<in> {48..57}" if "k < 10" for k
  proof -
    have "k \<in> {0, 1, 2, 3, 4, 5, 6, 7, 8, 9}" using that by auto
    then show ?thesis by auto
  qed
  show ?case using 1 d [of n] d [of "n mod 10"] by (subst fmt_u.simps) auto
qed

lemma fmt_u_nonempty: "0 < length (fmt_u n)"
  by (subst fmt_u.simps) simp

lemma length_fmt_u: "n < 10 ^ k \<Longrightarrow> 0 < k \<Longrightarrow> length (fmt_u n) \<le> k"
proof (induction k arbitrary: n)
  case (Suc k)
  show ?case
  proof (cases "n < 10")
    case False
    then have "0 < k" using Suc.prems by (cases k) auto
    moreover have "n div 10 < 10 ^ k" using Suc.prems by (simp add: less_mult_imp_div_less mult.commute)
    ultimately show ?thesis using Suc.IH [of "n div 10"] False by (subst fmt_u.simps) simp
  qed (subst fmt_u.simps, simp)
qed simp

lemma length_fmt_pu: "n < 10 ^ k \<Longrightarrow> 0 < k \<Longrightarrow> length (fmt_pu k n) = k"
  using length_fmt_u [of n k] by (simp add: fmt_pu_def)

lemma length_fmt_0u: "n < 10 ^ k \<Longrightarrow> 0 < k \<Longrightarrow> length (fmt_0u k n) = k"
  using length_fmt_u [of n k] by (simp add: fmt_0u_def)

lemma length_snprintf [simp]: "length (c_snprintf buf txt) = length buf"
  by (cases buf) (simp_all add: c_snprintf_def)

lemma cstr_append: "0 \<notin> set xs \<Longrightarrow> cstr (xs @ 0 # ys) = xs"
  by (induction xs) (auto simp: cstr_def)

lemma cstr_append_nz: "0 \<notin> set xs \<Longrightarrow> cstr (xs @ ys) = xs @ cstr ys"
  by (induction xs) (auto simp: cstr_def)

lemma cstr_snprintf:
  assumes "0 \<notin> set txt" "buf \<noteq> []"
  shows "cstr (c_snprintf buf txt) = take (length buf - 1) txt"
proof -
  have "0 \<notin> set (take (length buf - 1) txt)" using assms(1) by (meson in_set_takeD)
  then show ?thesis using assms(2) cstr_append by (simp add: c_snprintf_def patch_def)
qed

lemma c_strstr_Some:
  "c_strstr hay needle = Some i \<Longrightarrow> i + length needle \<le> length hay \<and> take (length needle) (drop i hay) = needle"
proof (induction hay arbitrary: i)
  case Nil
  then show ?case by (auto simp: c_strstr.simps [of "[]"] split: if_splits)
next
  case (Cons c cs)
  show ?case
  proof (cases "take (length needle) (c # cs) = needle")
    case True
    then have "length needle \<le> length (c # cs)" by (metis length_take min.cobounded1)
    then show ?thesis using Cons.prems True by (simp add: c_strstr.simps [of "c # cs"])
  next
    case False
    then obtain j where "c_strstr cs needle = Some j" "i = Suc j"
      using Cons.prems by (auto simp: c_strstr.simps [of "c # cs"])
    then show ?thesis using Cons.IH [of j] by simp
  qed
qed

lemma c_strstr_append:
  "c_strstr hay needle = Some i \<Longrightarrow> c_strstr (hay @ ys) needle = Some i"
proof (induction hay arbitrary: i)
  case Nil
  then show ?case by (simp add: c_strstr.simps split: if_splits)
next
  case (Cons c cs)
  show ?case
  proof (cases "take (length needle) (c # cs) = needle")
    case True
    then have "length needle \<le> length (c # cs)" by (metis length_take min.cobounded1)
    then have "take (length needle) ((c # cs) @ ys) = needle"
      using True by (metis take_append diff_is_0_eq' take0 append_Nil2)
    then show ?thesis using Cons.prems True by (simp add: c_strstr.simps [of "c # cs"] c_strstr.simps [of "c # cs @ ys"])
  next
    case False
    then obtain j where j: "c_strstr cs needle = Some j" "i = Suc j"
      using Cons.prems by (auto simp: c_strstr.simps [of "c # cs"])
    have l: "length needle \<le> length (c # cs)" using c_strstr_Some [OF j(1)] by simp
    then have "take (length needle) (c # cs @ ys) = take (length needle) (c # cs)"
      by (metis append_Cons take_append diff_is_0_eq' take0 append_Nil2)
    then show ?thesis using Cons.IH [OF j(1)] False j(2) by (simp add: c_strstr.simps [of "c # cs @ ys"])
  qed
qed

lemma c_strstr_exists: "take (length needle) (drop i hay) = needle \<Longrightarrow> i \<le> length hay \<Longrightarrow> \<exists>j \<le> i. c_strstr hay needle = Some j"
proof (induction hay arbitrary: i)
  case Nil
  then show ?case by (simp add: c_strstr.simps)
next
  case (Cons c cs)
  show ?case
  proof (cases "take (length needle) (c # cs) = needle")
    case False
    then obtain k where k: "i = Suc k" using Cons.prems by (cases i) auto
    then obtain j where "j \<le> k" "c_strstr cs needle = Some j" using Cons.IH [of k] Cons.prems by auto
    then show ?thesis using False k by (auto simp: c_strstr.simps [of "c # cs"])
  qed (simp add: c_strstr.simps)
qed

lemma in_set_cstr: "0 \<notin> set (cstr xs)"
  by (auto simp: cstr_def dest: set_takeWhileD)

end
