(* ===== verification/Base64.thy ===== *)
theory Base64
  imports Prelude
begin

text \<open>
  The Base64 codec of \<^verbatim>\<open>src/crypto/base64.c\<close>, which the SMTP client uses for the CRAM-MD5
  challenge and response. The input array is the list of its bytes (its length is the
  \<^verbatim>\<open>elen\<close> or \<^verbatim>\<open>dlen\<close> argument) and the output array is a buffer that is returned updated,
  beside the \<^verbatim>\<open>int\<close> result (\<open>-1\<close>: no room, \<open>-2\<close>: malformed input). The reference
  \<open>b64_text\<close> writes RFC 4648 down by arithmetic on 24-bit groups and a table lookup.
\<close>

section \<open>The code\<close>

definition decmap :: "u8 \<Rightarrow> u8" where
  "decmap c =
     (if 65 \<le> c \<and> c \<le> 90 then c - 65
      else if 97 \<le> c \<and> c \<le> 122 then (c - 97) + 26
      else if 48 \<le> c \<and> c \<le> 57 then (c - 48) + 52
      else if c = 43 then 62
      else if c = 47 then 63
      else 0)"

definition encmap :: "u8 \<Rightarrow> u8" where
  "encmap b =
     (if b \<le> 25 then 65 + b
      else if 26 \<le> b \<and> b \<le> 51 then 97 + (b - 26)
      else if 52 \<le> b \<and> b \<le> 61 then 48 + (b - 52)
      else if b = 62 then 43
      else 47)"

text \<open>\<^verbatim>\<open>(v & m) >> k\<close>, converted to \<^verbatim>\<open>uint8_t\<close>.\<close>

definition fld :: "nat \<Rightarrow> u32 \<Rightarrow> u32 \<Rightarrow> u8" where
  "fld k m v = ucast (drop_bit k (v AND m))"

text \<open>The input check of \<^verbatim>\<open>b64_decode\<close>, for one byte.\<close>

definition b64_char :: "u8 \<Rightarrow> bool" where
  "b64_char c \<longleftrightarrow>
     (65 \<le> c \<and> c \<le> 90) \<or> (97 \<le> c \<and> c \<le> 122) \<or> (48 \<le> c \<and> c \<le> 57) \<or>
     c = 43 \<or> c = 47 \<or> c = 61"

function b64_decode_loop :: "u8 list \<Rightarrow> nat \<Rightarrow> nat \<Rightarrow> u8 list \<Rightarrow> nat \<times> u8 list" where
  "b64_decode_loop enc i j dec =
     (if i < length enc then
        let last = (i + 4 \<ge> length enc) in
        if last \<and> enc ! (i+2) = 61 \<and> enc ! (i+3) = 61 then
          let v = push_bit 18 (ucast (decmap (enc ! i)) :: u32) OR
                  push_bit 12 (ucast (decmap (enc ! (i+1))))
          in b64_decode_loop enc (i+4) (j+1)
               (dec[j := fld 16 0x00ff0000 v])
        else if last \<and> enc ! (i+3) = 61 then
          let v = push_bit 18 (ucast (decmap (enc ! i)) :: u32) OR
                  push_bit 12 (ucast (decmap (enc ! (i+1)))) OR
                  push_bit 6 (ucast (decmap (enc ! (i+2))))
          in b64_decode_loop enc (i+4) (j+2)
               (dec[j := fld 16 0x00ff0000 v,
                    j+1 := fld 8 0x0000ff00 v])
        else
          let v = push_bit 18 (ucast (decmap (enc ! i)) :: u32) OR
                  push_bit 12 (ucast (decmap (enc ! (i+1)))) OR
                  push_bit 6 (ucast (decmap (enc ! (i+2)))) OR
                  ucast (decmap (enc ! (i+3)))
          in b64_decode_loop enc (i+4) (j+3)
               (dec[j := fld 16 0x00ff0000 v,
                    j+1 := fld 8 0x0000ff00 v,
                    j+2 := fld 0 0x000000ff v])
      else (j, dec))"
  by pat_completeness auto
termination
  by (relation "measure (\<lambda>(enc, i, j, dec). length enc - i)") auto

declare b64_decode_loop.simps [simp del]

definition b64_decode :: "u8 list \<Rightarrow> u8 list \<Rightarrow> int \<times> u8 list" where
  "b64_decode enc dec =
     (if length enc mod 4 \<noteq> 0 then (-2, dec)
      else if \<not> list_all b64_char enc then (-2, dec)
      else if length enc div 4 * 3 > length dec then (-1, dec)
      else let (j, dec') = b64_decode_loop enc 0 0 dec in (int j, dec'))"

function b64_encode_loop :: "u8 list \<Rightarrow> nat \<Rightarrow> nat \<Rightarrow> u8 list \<Rightarrow> nat \<times> u8 list" where
  "b64_encode_loop dec i j enc =
     (if i < length dec then
        if i + 2 < length dec then
          let v = push_bit 16 (ucast (dec ! i) :: u32) OR
                  push_bit 8 (ucast (dec ! (i+1))) OR ucast (dec ! (i+2))
          in b64_encode_loop dec (i+3) (j+4)
               (enc[j := encmap (fld 18 0x00fc0000 v),
                    j+1 := encmap (fld 12 0x0003f000 v),
                    j+2 := encmap (fld 6 0x00000fc0 v),
                    j+3 := encmap (fld 0 0x0000003f v)])
        else if i + 2 = length dec then
          let v = push_bit 16 (ucast (dec ! i) :: u32) OR push_bit 8 (ucast (dec ! (i+1)))
          in b64_encode_loop dec (i+3) (j+4)
               (enc[j := encmap (fld 18 0x00fc0000 v),
                    j+1 := encmap (fld 12 0x0003f000 v),
                    j+2 := encmap (fld 6 0x00000fc0 v),
                    j+3 := 61])
        else if i + 1 = length dec then
          let v = push_bit 16 (ucast (dec ! i) :: u32)
          in b64_encode_loop dec (i+3) (j+4)
               (enc[j := encmap (fld 18 0x00fc0000 v),
                    j+1 := encmap (fld 12 0x0003f000 v),
                    j+2 := 61, j+3 := 61])
        else b64_encode_loop dec (i+3) j enc
      else (j, enc))"
  by pat_completeness auto
termination
  by (relation "measure (\<lambda>(dec, i, j, enc). length dec - i)") auto

declare b64_encode_loop.simps [simp del]

definition b64_encode :: "u8 list \<Rightarrow> u8 list \<Rightarrow> int \<times> u8 list" where
  "b64_encode dec enc =
     (if length enc < (length dec div 3 + (if length dec mod 3 > 0 then 1 else 0)) * 4
      then (-1, enc)
      else let (j, enc') = b64_encode_loop dec 0 0 enc in (int j, enc'))"

section \<open>Reference: RFC 4648\<close>

definition b64_alphabet :: "u8 list" where
  "b64_alphabet = ascii ''ABCDEFGHIJKLMNOPQRSTUVWXYZabcdefghijklmnopqrstuvwxyz0123456789+/''"

text \<open>The \<open>k\<close>-th sextet, from the left, of a 24-bit group.\<close>

definition sextet :: "nat \<Rightarrow> nat \<Rightarrow> u8" where
  "sextet k n = b64_alphabet ! (n div 64 ^ (3 - k) mod 64)"

fun b64_text :: "u8 list \<Rightarrow> u8 list" where
  "b64_text [] = []"
| "b64_text [a] = (let n = unat a * 65536 in [sextet 0 n, sextet 1 n, 61, 61])"
| "b64_text [a, b] =
     (let n = unat a * 65536 + unat b * 256 in [sextet 0 n, sextet 1 n, sextet 2 n, 61])"
| "b64_text (a # b # c # bs) =
     (let n = unat a * 65536 + unat b * 256 + unat c
      in [sextet 0 n, sextet 1 n, sextet 2 n, sextet 3 n] @ b64_text bs)"

section \<open>Lemmas\<close>

lemma length_b64_alphabet [simp]: "length b64_alphabet = 64"
  by (simp add: b64_alphabet_def ascii_def)

lemma encmap_alphabet:
  assumes "n < 64"
  shows "encmap (of_nat n) = b64_alphabet ! n"
proof -
  have "map (\<lambda>n. encmap (of_nat n)) [0..<64] = b64_alphabet"
    by (simp add: upt_conv_Cons encmap_def b64_alphabet_def ascii_def)
  from arg_cong [OF this, of "\<lambda>xs. xs ! n"] assms show ?thesis by simp
qed

lemma decmap_alphabet:
  assumes "n < 64"
  shows "decmap (b64_alphabet ! n) = of_nat n"
proof -
  have "map decmap b64_alphabet = map of_nat [0..<64]"
    by (simp add: upt_conv_Cons decmap_def b64_alphabet_def ascii_def)
  from arg_cong [OF this, of "\<lambda>xs. xs ! n"] assms show ?thesis by simp
qed

lemma alphabet_b64_char:
  assumes "n < 64"
  shows "b64_char (b64_alphabet ! n)" and "b64_alphabet ! n \<noteq> 61"
proof -
  have "list_all (\<lambda>c. b64_char c \<and> c \<noteq> 61) b64_alphabet"
    by (simp add: b64_char_def b64_alphabet_def ascii_def)
  then show "b64_char (b64_alphabet ! n)" and "b64_alphabet ! n \<noteq> 61"
    using assms by (auto simp: list_all_length)
qed

lemma fld_of_nat:
  assumes "w \<le> 8"
  shows "fld k (push_bit k (mask w)) v = of_nat (unat v div 2 ^ k mod 2 ^ w)"
  using field_of_nat [of w "unat v" k] assms unsigned_less [of v, where ?'a = nat]
  by (simp add: fld_def)

text \<open>The masks of the code are six- and eight-bit fields at the shift that follows.\<close>

lemma b64_masks:
  "(0xfc0000 :: u32) = push_bit 18 (mask 6)" "(0x3f000 :: u32) = push_bit 12 (mask 6)"
  "(0xfc0 :: u32) = push_bit 6 (mask 6)" "(0x3f :: u32) = push_bit 0 (mask 6)"
  "(0xff0000 :: u32) = push_bit 16 (mask 8)" "(0xff00 :: u32) = push_bit 8 (mask 8)"
  "(0xff :: u32) = push_bit 0 (mask 8)"
  by (simp_all add: mask_eq_exp_minus_1 push_bit_eq_mult)

lemma group3:
  "unat (push_bit 16 (ucast a :: u32) OR push_bit 8 (ucast b) OR ucast c) =
     unat (a :: u8) * 65536 + unat (b :: u8) * 256 + unat (c :: u8)"
proof -
  have "push_bit 8 (ucast b :: u32) OR ucast c = of_nat (unat b * 256 + unat c)"
    using push_or_of_nat [of "unat c" 8 "unat b", where ?'a = 32] unat_u8_less [of c] by simp
  moreover have "unat b * 256 + unat c < 2 ^ 16"
    using unat_u8_less [of b] unat_u8_less [of c] by simp
  from push_or_of_nat [OF this, of "unat a", where ?'a = 32]
  have "push_bit 16 (ucast a :: u32) OR of_nat (unat b * 256 + unat c) =
      of_nat (unat a * 65536 + (unat b * 256 + unat c))" by simp
  ultimately have "push_bit 16 (ucast a :: u32) OR push_bit 8 (ucast b) OR ucast c =
      of_nat (unat a * 65536 + (unat b * 256 + unat c))" by (simp only:)
  moreover have "unat a * 65536 + (unat b * 256 + unat c) < 2 ^ LENGTH(32)"
    using unat_u8_less [of a] unat_u8_less [of b] unat_u8_less [of c] by simp
  ultimately show ?thesis by (simp only: unat_of_nat_small add.assoc)
qed

lemma group2:
  "unat (push_bit 16 (ucast a :: u32) OR push_bit 8 (ucast b)) =
     unat (a :: u8) * 65536 + unat (b :: u8) * 256"
  using group3 [of a b 0] by simp

lemma group1: "unat (push_bit 16 (ucast a :: u32)) = unat (a :: u8) * 65536"
  using group3 [of a 0 0] by simp

lemma encmap_sextets:
  assumes "unat v = n"
  shows "encmap (fld 18 0x00fc0000 v) = sextet 0 n" and "encmap (fld 12 0x0003f000 v) = sextet 1 n"
    and "encmap (fld 6 0x00000fc0 v) = sextet 2 n" and "encmap (fld 0 0x0000003f v) = sextet 3 n"
  using fld_of_nat [of 6 18 v] fld_of_nat [of 6 12 v] fld_of_nat [of 6 6 v] fld_of_nat [of 6 0 v]
  by (simp_all only: b64_masks) (simp_all add: encmap_alphabet sextet_def assms)

lemma updates_patch:
  assumes "j + 4 \<le> length xs"
  shows "xs[j := a, j + 1 := b, j + 2 := c, j + 3 := d] = patch xs j [a, b, c, d]"
  using assms by (simp add: patch_Cons numeral_2_eq_2 numeral_3_eq_3)

lemma updates_patch_short:
  "j + 3 \<le> length xs \<Longrightarrow> xs[j := a, j + 1 := b, j + 2 := c] = patch xs j [a, b, c]"
  "j + 2 \<le> length xs \<Longrightarrow> xs[j := a, j + 1 := b] = patch xs j [a, b]"
  "j + 1 \<le> length xs \<Longrightarrow> xs[j := a] = patch xs j [a]"
  by (simp_all add: patch_Cons numeral_2_eq_2)

lemma b64_text_length: "length (b64_text bs) = (length bs + 2) div 3 * 4"
proof (induction bs rule: b64_text.induct)
  case (4 a b c bs)
  have "(length (a # b # c # bs) + 2) div 3 = (length bs + 2) div 3 + 1" by simp
  with 4 show ?case by (simp add: Let_def)
qed (auto simp: Let_def)

lemma b64_encode_step:
  assumes "j + 4 \<le> length enc"
  shows "b64_encode_loop (pre @ a # b # c # bs) (length pre) j enc =
      b64_encode_loop (pre @ a # b # c # bs) (length pre + 3) (j + 4) (patch enc j (b64_text [a, b, c]))"
    and "b64_encode_loop (pre @ [a, b]) (length pre) j enc =
      (j + 4, patch enc j (b64_text [a, b]))"
    and "b64_encode_loop (pre @ [a]) (length pre) j enc =
      (j + 4, patch enc j (b64_text [a]))"
proof -
  note s = encmap_sextets [OF group3] encmap_sextets [OF group2] encmap_sextets [OF group1]
  show "b64_encode_loop (pre @ a # b # c # bs) (length pre) j enc =
      b64_encode_loop (pre @ a # b # c # bs) (length pre + 3) (j + 4) (patch enc j (b64_text [a, b, c]))"
    by (subst b64_encode_loop.simps)
      (simp add: Let_def nth_append s updates_patch [OF assms, simplified] add_ac)
  show "b64_encode_loop (pre @ [a, b]) (length pre) j enc =
      (j + 4, patch enc j (b64_text [a, b]))"
    by (subst b64_encode_loop.simps, subst b64_encode_loop.simps)
      (simp add: Let_def nth_append s updates_patch [OF assms, simplified] add_ac)
  show "b64_encode_loop (pre @ [a]) (length pre) j enc =
      (j + 4, patch enc j (b64_text [a]))"
    by (subst b64_encode_loop.simps, subst b64_encode_loop.simps)
      (simp add: Let_def nth_append s updates_patch [OF assms, simplified] add_ac)
qed

lemma b64_text_3: "b64_text (a # b # c # bs) = b64_text [a, b, c] @ b64_text bs"
  by (simp add: Let_def)

lemma b64_encode_loop_text:
  assumes "j + length (b64_text bs) \<le> length enc"
  shows "b64_encode_loop (pre @ bs) (length pre) j enc =
     (j + length (b64_text bs), patch enc j (b64_text bs))"
  using assms
proof (induction bs arbitrary: pre j enc rule: b64_text.induct)
  case 1
  then show ?case by (simp add: b64_encode_loop.simps)
next
  case (2 a)
  then show ?case using b64_encode_step(3) [of j enc pre a] by (simp add: Let_def)
next
  case (3 a b)
  then show ?case using b64_encode_step(2) [of j enc pre a b] by (simp add: Let_def)
next
  case (4 a b c bs)
  define w where "w = b64_text [a, b, c]"
  have lw: "length w = 4" by (simp add: w_def Let_def)
  have len: "j + 4 + length (b64_text bs) \<le> length enc" using 4 by (simp add: Let_def)
  have step: "b64_encode_loop (pre @ a # b # c # bs) (length pre) j enc =
      b64_encode_loop ((pre @ [a, b, c]) @ bs) (length (pre @ [a, b, c])) (j + 4) (patch enc j w)"
    using b64_encode_step(1) [of j enc pre a b c bs] len by (simp add: w_def numeral_3_eq_3)
  also have "\<dots> = (j + 4 + length (b64_text bs), patch (patch enc j w) (j + 4) (b64_text bs))"
    using "4.IH" [of _ "j + 4" "patch enc j w" "pre @ [a, b, c]"] len lw by simp
  also have "\<dots> = (j + length (b64_text (a # b # c # bs)), patch enc j (b64_text (a # b # c # bs)))"
    using patch_patch [of j w "b64_text bs" enc] len lw
    by (simp only: b64_text_3 [of a b c bs] w_def [symmetric]) simp
  finally show ?case .
qed

text \<open>The decoder's side: four alphabet characters give back the 24-bit group.\<close>

lemma quad:
  assumes "p < 64" "q < 64" "r < 64" "s < 64"
  shows "unat (push_bit 18 (ucast (decmap (b64_alphabet ! p)) :: u32) OR
               push_bit 12 (ucast (decmap (b64_alphabet ! q))) OR
               push_bit 6 (ucast (decmap (b64_alphabet ! r))) OR
               ucast (decmap (b64_alphabet ! s))) =
         p * 2 ^ 18 + q * 2 ^ 12 + r * 2 ^ 6 + s"
proof -
  have d: "(ucast (decmap (b64_alphabet ! x)) :: u32) = of_nat x" if "x < 64" for x
    using that by (simp add: decmap_alphabet unsigned_of_nat take_bit_nat_eq_self)
  have 1: "push_bit 6 (of_nat r :: u32) OR of_nat s = of_nat (r * 2 ^ 6 + s)"
    by (rule push_or_of_nat) (use assms in simp)
  have 2: "push_bit 12 (of_nat q :: u32) OR of_nat (r * 2 ^ 6 + s) = of_nat (q * 2 ^ 12 + (r * 2 ^ 6 + s))"
    by (rule push_or_of_nat) (use assms in simp)
  have 3: "push_bit 18 (of_nat p :: u32) OR of_nat (q * 2 ^ 12 + (r * 2 ^ 6 + s)) =
      of_nat (p * 2 ^ 18 + (q * 2 ^ 12 + (r * 2 ^ 6 + s)))"
    by (rule push_or_of_nat) (use assms in simp)
  have "p * 2 ^ 18 + (q * 2 ^ 12 + (r * 2 ^ 6 + s)) < 2 ^ LENGTH(32)" using assms by simp
  then show ?thesis
    by (simp only: d assms 1 2 3 unat_of_nat_small add.assoc)
qed

lemma sextet_index: "\<exists>x < 64. sextet k n = b64_alphabet ! x \<and> x = n div 64 ^ (3 - k) mod 64"
  by (auto simp: sextet_def)

lemma sextets_group:
  assumes "n < 2 ^ 24"
  shows "unat (push_bit 18 (ucast (decmap (sextet 0 n)) :: u32) OR
               push_bit 12 (ucast (decmap (sextet 1 n))) OR
               push_bit 6 (ucast (decmap (sextet 2 n))) OR
               ucast (decmap (sextet 3 n))) = n"
proof -
  have "n div 64 = 64 * (n div 4096) + n div 64 mod 64"
    and "n div 4096 = 64 * (n div 262144) + n div 4096 mod 64"
    and "n div 262144 mod 64 = n div 262144"
    using mult_div_mod_eq [of 64 "n div 64"] mult_div_mod_eq [of 64 "n div 4096"] assms
    by (simp_all add: div_mult2_eq [symmetric])
  moreover have "n = 64 * (n div 64) + n mod 64" by simp
  ultimately have "n div 262144 * 262144 + n div 4096 mod 64 * 4096 + n div 64 mod 64 * 64 +
      n mod 64 = n"
    by linarith
  then show ?thesis
    unfolding sextet_def using assms by (subst quad) simp_all
qed

lemma decode_fields:
  "fld 16 0x00ff0000 v = of_nat (unat v div 65536 mod 256)"
  "fld 8 0x0000ff00 v = of_nat (unat v div 256 mod 256)"
  "fld 0 0x000000ff v = of_nat (unat v mod 256)"
  using fld_of_nat [of 8 16 v] fld_of_nat [of 8 8 v] fld_of_nat [of 8 0 v]
  by (simp_all only: b64_masks) simp_all

lemma sextet_neq_pad [simp]: "sextet k n \<noteq> 61"
  by (simp add: sextet_def alphabet_b64_char)

lemma sextet_b64_char [simp]: "b64_char (sextet k n)"
  by (simp add: sextet_def alphabet_b64_char)

lemma decmap_zero_sextet: "decmap (sextet k n) = 0" if "n div 64 ^ (3 - k) mod 64 = 0"
  using that by (simp add: sextet_def decmap_alphabet)

lemma padded_group2:
  assumes n: "n = unat (a :: u8) * 65536 + unat (b :: u8) * 256"
  shows "unat (push_bit 18 (ucast (decmap (sextet 0 n)) :: u32) OR
         push_bit 12 (ucast (decmap (sextet 1 n))) OR
         push_bit 6 (ucast (decmap (sextet 2 n)))) = n"
proof -
  have "n < 2 ^ 24" using n unat_u8_less [of a] unat_u8_less [of b] by simp
  moreover have "n = 64 * (unat a * 1024 + unat b * 4)" using n by simp
  then have "n mod 64 = 0" by simp
  then have "decmap (sextet 3 n) = 0" by (intro decmap_zero_sextet) simp
  ultimately show ?thesis using sextets_group [of n] by simp
qed

lemma padded_group1:
  assumes n: "n = unat (a :: u8) * 65536"
  shows "unat (push_bit 18 (ucast (decmap (sextet 0 n)) :: u32) OR
         push_bit 12 (ucast (decmap (sextet 1 n)))) = n"
proof -
  have "n = 4096 * (unat a * 16)" using n by simp
  then have "n div 64 mod 64 = 0" by (simp add: div_mult2_eq [symmetric])
  then have "decmap (sextet 2 n) = 0" by (intro decmap_zero_sextet) simp
  then show ?thesis using padded_group2 [of n a 0] n by simp
qed

lemma byte_of_group:
  fixes a b c :: u8
  defines "n \<equiv> unat a * 65536 + unat b * 256 + unat c"
  shows "of_nat (n div 65536 mod 256) = a" "of_nat (n div 256 mod 256) = b" "of_nat (n mod 256) = c"
proof -
  have n: "n = (unat a * 256 + unat b) * 256 + unat c" by (simp add: n_def)
  have "n div 256 = unat a * 256 + unat b" "n mod 256 = unat c"
    unfolding n using unat_u8_less [of c] by (simp, simp only: mod_mult_self3 mod_less)
  moreover have "n div 65536 = n div 256 div 256" by (simp add: div_mult2_eq [symmetric])
  ultimately have "n div 65536 = unat a" "n div 256 mod 256 = unat b" "n mod 256 = unat c"
    using unat_u8_less [of b] by simp_all
  then show "of_nat (n div 65536 mod 256) = a" "of_nat (n div 256 mod 256) = b" "of_nat (n mod 256) = c"
    using unat_u8_less [of a] by simp_all
qed

lemma b64_decode_step:
  fixes a b c :: u8
  assumes t: "length t mod 4 = 0" "length pre mod 4 = 0"
  shows "j + 3 \<le> length dec \<Longrightarrow>
      b64_decode_loop (pre @ b64_text [a, b, c] @ t) (length pre) j dec =
      b64_decode_loop (pre @ b64_text [a, b, c] @ t) (length pre + 4) (j + 3) (patch dec j [a, b, c])"
    and "j + 2 \<le> length dec \<Longrightarrow>
      b64_decode_loop (pre @ b64_text [a, b]) (length pre) j dec = (j + 2, patch dec j [a, b])"
    and "j + 1 \<le> length dec \<Longrightarrow>
      b64_decode_loop (pre @ b64_text [a]) (length pre) j dec = (j + 1, patch dec j [a])"
proof -
  note s3 = sextets_group [of "unat a * 65536 + unat b * 256 + unat c"]
  note s2 = padded_group2 [of "unat a * 65536 + unat b * 256" a b, OF refl]
  note s1 = padded_group1 [of "unat a * 65536" a, OF refl]
  have n: "unat a * 65536 + unat b * 256 + unat c < 2 ^ 24"
    using unat_u8_less [of a] unat_u8_less [of b] unat_u8_less [of c] by simp
  show "b64_decode_loop (pre @ b64_text [a, b, c] @ t) (length pre) j dec =
      b64_decode_loop (pre @ b64_text [a, b, c] @ t) (length pre + 4) (j + 3) (patch dec j [a, b, c])"
    if "j + 3 \<le> length dec"
    using that n byte_of_group [of a b c]
    by (subst b64_decode_loop.simps)
      (simp add: Let_def nth_append decode_fields s3 [OF n, simplified]
        updates_patch_short(1) [OF that, simplified])
  show "b64_decode_loop (pre @ b64_text [a, b]) (length pre) j dec = (j + 2, patch dec j [a, b])"
    if "j + 2 \<le> length dec"
    using that byte_of_group [of a b 0]
    by (subst b64_decode_loop.simps, subst b64_decode_loop.simps)
      (simp add: Let_def nth_append decode_fields s2 [simplified]
        updates_patch_short(2) [OF that, simplified])
  show "b64_decode_loop (pre @ b64_text [a]) (length pre) j dec = (j + 1, patch dec j [a])"
    if "j + 1 \<le> length dec"
    using that byte_of_group [of a 0 0]
    by (subst b64_decode_loop.simps, subst b64_decode_loop.simps)
      (simp add: Let_def nth_append decode_fields s1 [simplified]
        updates_patch_short(3) [OF that, simplified])
qed

lemma b64_text_mod4 [simp]: "length (b64_text bs) mod 4 = 0"
  by (simp add: b64_text_length)

lemma b64_text_chars: "list_all b64_char (b64_text bs)"
  by (induction bs rule: b64_text.induct) (auto simp: Let_def b64_char_def [of 61])

lemma b64_decode_loop_text:
  assumes "j + length bs \<le> length dec" "length pre mod 4 = 0"
  shows "b64_decode_loop (pre @ b64_text bs) (length pre) j dec = (j + length bs, patch dec j bs)"
  using assms
proof (induction bs arbitrary: pre j dec rule: b64_text.induct)
  case 1
  then show ?case by (simp add: b64_decode_loop.simps)
next
  case (2 a)
  then show ?case using b64_decode_step(3) [of "[]" pre j dec a] by simp
next
  case (3 a b)
  then show ?case using b64_decode_step(2) [of "[]" pre j dec a b] by simp
next
  case (4 a b c bs)
  define w where "w = b64_text [a, b, c]"
  have lw: "length w = 4" by (simp add: w_def Let_def)
  have "b64_decode_loop (pre @ b64_text (a # b # c # bs)) (length pre) j dec =
      b64_decode_loop ((pre @ w) @ b64_text bs) (length (pre @ w)) (j + 3) (patch dec j [a, b, c])"
    using b64_decode_step(1) [of "b64_text bs" pre j dec a b c] "4.prems" lw
    by (simp only: b64_text_3 [of a b c bs] w_def [symmetric]) (simp add: add_ac)
  also have "\<dots> = (j + 3 + length bs, patch (patch dec j [a, b, c]) (j + 3) bs)"
    using "4.IH" [of _ "j + 3" "patch dec j [a, b, c]" "pre @ w"] "4.prems" lw by simp
  also have "\<dots> = (j + length (a # b # c # bs), patch dec j (a # b # c # bs))"
    using patch_patch [of j "[a, b, c]" bs dec] "4.prems" by (simp add: numeral_3_eq_3)
  finally show ?case .
qed

lemma ceil_div3: "n div 3 + (if n mod 3 > 0 then 1 else 0) = (n + 2) div (3 :: nat)"
  by presburger

lemma b64_text_room: "length bs \<le> length (b64_text bs) div 4 * 3"
proof -
  have "n \<le> (n + 2) div 3 * 3" for n :: nat by presburger
  then show ?thesis by (simp add: b64_text_length)
qed

text \<open>Every write of the decoder is inside the output buffer.\<close>

lemma b64_decode_loop_once:
  assumes "i < length enc"
  shows "\<exists>j' dec'. b64_decode_loop enc i j dec = b64_decode_loop enc (i + 4) j' dec' \<and>
    j' \<le> j + 3 \<and> length dec' = length dec \<and> drop (j + 3) dec' = drop (j + 3) dec"
proof (cases "i + 4 \<ge> length enc \<and> enc ! (i+2) = 61 \<and> enc ! (i+3) = 61")
  case True
  show ?thesis
    unfolding b64_decode_loop.simps [of enc i j dec] Let_def if_P [OF assms] if_P [OF True]
    by (intro exI conjI, (rule refl), simp_all)
next
  case False
  show ?thesis
    unfolding b64_decode_loop.simps [of enc i j dec] Let_def if_P [OF assms] if_not_P [OF False]
    by (cases "i + 4 \<ge> length enc \<and> enc ! (i+3) = 61"; simp only: if_True if_False simp_thms)
      (intro exI conjI, (rule refl), simp_all)+
qed

lemma b64_decode_loop_bounds:
  assumes "length enc mod 4 = 0" "i mod 4 = 0" "j \<le> i div 4 * 3" "i \<le> length enc"
    and "b64_decode_loop enc i j dec = (k, dec')"
  shows "k \<le> length enc div 4 * 3 \<and> length dec' = length dec
    \<and> drop (length enc div 4 * 3) dec' = drop (length enc div 4 * 3) dec"
  using assms
proof (induction "length enc - i" arbitrary: i j dec rule: less_induct)
  case less
  show ?case
  proof (cases "i < length enc")
    case False
    with less.prems show ?thesis by (simp add: b64_decode_loop.simps)
  next
    case True
    with less.prems have 4: "i + 4 \<le> length enc" by presburger
    obtain j' dec1 where step: "b64_decode_loop enc i j dec = b64_decode_loop enc (i + 4) j' dec1"
      and j': "j' \<le> j + 3" and d: "length dec1 = length dec" "drop (j + 3) dec1 = drop (j + 3) dec"
      using b64_decode_loop_once [OF True, of j dec] by metis
    have "i div 4 + 1 \<le> length enc div 4" using div_le_mono [OF 4, of 4] by simp
    then have "j + 3 \<le> length enc div 4 * 3" using less.prems(3) by linarith
    then have "drop (length enc div 4 * 3) dec1 = drop (length enc div 4 * 3) dec"
      using d(2) by (metis drop_drop le_add_diff_inverse2)
    moreover have "k \<le> length enc div 4 * 3 \<and> length dec' = length dec1
        \<and> drop (length enc div 4 * 3) dec' = drop (length enc div 4 * 3) dec1"
      by (rule less.hyps [of "i + 4" j' dec1]) (use less.prems True 4 j' step in auto)
    ultimately show ?thesis using d by simp
  qed
qed

lemma b64_encode_text:
  "b64_encode dec enc =
     (if length (b64_text dec) \<le> length enc
      then (int (length (b64_text dec)), patch enc 0 (b64_text dec)) else (-1, enc))"
  using b64_encode_loop_text [of 0 dec enc "[]"]
  by (simp add: b64_encode_def ceil_div3 b64_text_length)

lemma b64_decode_text:
  assumes "length (b64_text bs) div 4 * 3 \<le> length dec"
  shows "b64_decode (b64_text bs) dec = (int (length bs), patch dec 0 bs)"
proof -
  have "length bs \<le> length dec" using assms b64_text_room [of bs] by simp
  then show ?thesis
    using b64_decode_loop_text [of 0 bs dec "[]"] b64_text_chars [of bs] assms
    by (simp add: b64_decode_def)
qed

lemma b64_decode_short:
  assumes "b64_decode enc dec = (n, dec')" "\<not> n < 0"
  shows "nat n \<le> length enc div 4 * 3 \<and> length enc div 4 * 3 \<le> length dec \<and> length dec' = length dec"
proof -
  obtain k d where l: "b64_decode_loop enc 0 0 dec = (k, d)" by fastforce
  have "length enc mod 4 = 0 \<Longrightarrow> k \<le> length enc div 4 * 3 \<and> length d = length dec"
    using b64_decode_loop_bounds [OF _ _ _ _ l] by simp
  with assms l show ?thesis by (auto simp: b64_decode_def split: if_splits)
qed

section \<open>Properties\<close>

text \<open>
  C23: \<^verbatim>\<open>b64_encode\<close> writes exactly the RFC 4648 text of its input at the start of the output
  buffer, leaves the rest of the buffer alone and returns the length of the text, whenever
  the buffer has room for it; otherwise it returns \<open>-1\<close> and writes nothing.
\<close>

theorem b64_encode_rfc4648:
  "b64_encode dec enc =
     (if length (b64_text dec) \<le> length enc
      then (int (length (b64_text dec)), patch enc 0 (b64_text dec)) else (-1, enc))"
  by (rule b64_encode_text)

text \<open>
  C24: decoding inverts encoding. \<^verbatim>\<open>b64_decode\<close> applied to the text that \<^verbatim>\<open>b64_encode\<close> produced
  returns the original length and bytes, for every input and every output buffer with room
  for the whole groups of the text.
\<close>

theorem b64_roundtrip:
  assumes "b64_encode bs enc = (n, enc')" "0 \<le> n" "length (b64_text bs) div 4 * 3 \<le> length dec"
  shows "b64_decode (take (nat n) enc') dec = (int (length bs), patch dec 0 bs)"
proof -
  have "take (nat n) enc' = b64_text bs"
    using assms(1,2) by (auto simp: b64_encode_text patch_def split: if_splits)
  then show ?thesis using b64_decode_text [OF assms(3)] by simp
qed

lemma b64_roundtrip_witness:
  "b64_decode (take (nat 8) (ascii ''SVNBQg=='')) (replicate 6 0) =
     (int (length (ascii ''ISAB'')), patch (replicate 6 0) 0 (ascii ''ISAB''))"
proof (rule b64_roundtrip)
  show "b64_encode (ascii ''ISAB'') (replicate 8 0) = (8, ascii ''SVNBQg=='')" by code_simp
qed (simp_all add: b64_text_length ascii_def)

text \<open>
  C25: \<^verbatim>\<open>b64_decode\<close> on arbitrary bytes. The result is \<open>-2\<close> exactly for malformed input and \<open>-1\<close>
  exactly when the whole groups do not fit, and then nothing is written; otherwise it is a
  count of at most three bytes per group, and the output buffer keeps its length and every
  byte behind the room that was checked.
\<close>

theorem b64_decode_bounds:
  assumes "b64_decode enc dec = (n, dec')"
  shows "(n = -2 \<longleftrightarrow> length enc mod 4 \<noteq> 0 \<or> \<not> list_all b64_char enc) \<and>
    (n = -1 \<longleftrightarrow> length enc mod 4 = 0 \<and> list_all b64_char enc \<and> length dec < length enc div 4 * 3) \<and>
    (if n < 0 then dec' = dec
     else n \<le> int (length enc div 4 * 3) \<and> length enc div 4 * 3 \<le> length dec \<and>
       length dec' = length dec \<and>
       drop (length enc div 4 * 3) dec' = drop (length enc div 4 * 3) dec)"
proof -
  obtain k d where l: "b64_decode_loop enc 0 0 dec = (k, d)" by fastforce
  have "length enc mod 4 = 0 \<Longrightarrow> k \<le> length enc div 4 * 3 \<and> length d = length dec
      \<and> drop (length enc div 4 * 3) d = drop (length enc div 4 * 3) dec"
    using b64_decode_loop_bounds [OF _ _ _ _ l] by simp
  with assms l show ?thesis by (auto simp: b64_decode_def split: if_splits)
qed

lemma b64_decode_bounds_witness:
  "(4 :: int) \<le> int (length (ascii ''SVNBQg=='') div 4 * 3) \<and>
   drop (length (ascii ''SVNBQg=='') div 4 * 3) (ascii ''ISABxxxx'') =
   drop (length (ascii ''SVNBQg=='') div 4 * 3) (replicate 8 120)"
proof -
  have "b64_decode (ascii ''SVNBQg=='') (replicate 8 120) = (4, ascii ''ISABxxxx'')" by code_simp
  from b64_decode_bounds [OF this] show ?thesis by simp
qed

end
