(* ===== verification/Md_Hash.thy ===== *)
theory Md_Hash
  imports Prelude
begin

text \<open>
  What \<^verbatim>\<open>src/crypto/sha256.c\<close> and \<^verbatim>\<open>src/crypto/md5.c\<close> have in common: a 64-byte buffer that
  collects the message, a compression function applied to every full buffer, and a final
  padding. The locale \<open>md_buffer\<close> states what one turn of the \<^verbatim>\<open>_proc\<close> loop does to the
  state, \<open>md_digest\<close> adds what the \<^verbatim>\<open>_done\<close> function computes; the lemmas of the locales
  show once, for both hash functions, that a state stands for the whole message fed so
  far however it was cut into calls, and that the digest is the iterated compression of
  the padded message. The theories \<open>Sha256\<close> and \<open>Md5\<close> interpret both locales.
\<close>

text \<open>
  The padded message: a one bit, zeros up to 56 bytes of the last block, and the eight
  bytes of the message length in bits, in the hash's byte order.
\<close>

definition md_pad :: "(nat \<Rightarrow> u8 list) \<Rightarrow> u8 list \<Rightarrow> u8 list" where
  "md_pad len_bytes m = m @ [0x80] @ replicate ((119 - length m mod 64) mod 64) 0 @ len_bytes (8 * length m)"

section \<open>Padding the buffer in place\<close>

lemma pad_buf_full:
  assumes "n + 1 + length zs = length b"
  shows "patch (patch b n [x]) (Suc n) zs = take n b @ [x] @ zs"
  using assms patch_patch [of n "[x]" zs b] by (simp add: patch_def)

lemma pad_buf_short:
  assumes "length b = 64" "n < 56" "length l = 8"
  shows "patch (patch (patch b n [x]) (Suc n) (replicate (55 - n) 0)) 56 l =
    take n b @ [x] @ replicate (55 - n) 0 @ l"
proof -
  have "patch (patch b n [x]) (Suc n) (replicate (55 - n) 0) = patch b n (x # replicate (55 - n) 0)"
    using assms patch_patch [of n "[x]" "replicate (55 - n) 0" b] by simp
  moreover have "patch (patch b n (x # replicate (55 - n) 0)) 56 l =
      patch b n ((x # replicate (55 - n) 0) @ l)"
    using assms patch_patch [of n "x # replicate (55 - n) 0" l b] by simp
  ultimately show ?thesis using assms by (simp add: patch_def)
qed

lemma pad_buf_last:
  assumes "length b = 64" "length l = 8"
  shows "patch (patch b 0 (replicate 56 x)) 56 l = replicate 56 x @ l"
  using assms patch_patch [of 0 "replicate 56 x" l b] by simp

section \<open>Words and the length counter\<close>

lemma be_word:
  "push_bit 24 (ucast a) OR push_bit 16 (ucast b) OR push_bit 8 (ucast c) OR ucast d =
     (word_of_nat (le_val [d, c, b, a]) :: u32)" for a b c d :: u8
proof -
  note l = unat_u8_less [of a] unat_u8_less [of b] unat_u8_less [of c] unat_u8_less [of d]
  have 1: "push_bit 8 (of_nat (unat c) :: u32) OR of_nat (unat d) = of_nat (unat c * 2 ^ 8 + unat d)"
    by (rule push_or_of_nat) (use l in simp)
  have 2: "push_bit 16 (of_nat (unat b) :: u32) OR of_nat (unat c * 2 ^ 8 + unat d) =
      of_nat (unat b * 2 ^ 16 + (unat c * 2 ^ 8 + unat d))"
    by (rule push_or_of_nat) (use l in simp)
  have 3: "push_bit 24 (of_nat (unat a) :: u32) OR of_nat (unat b * 2 ^ 16 + (unat c * 2 ^ 8 + unat d)) =
      of_nat (unat a * 2 ^ 24 + (unat b * 2 ^ 16 + (unat c * 2 ^ 8 + unat d)))"
    by (rule push_or_of_nat) (use l in simp)
  show ?thesis using 1 2 3 by (simp add: algebra_simps)
qed

lemma take4_drop:
  assumes "i * 4 + 4 \<le> length xs"
  shows "take 4 (drop (4 * i) xs) = [xs ! (i*4), xs ! (i*4+1), xs ! (i*4+2), xs ! (i*4+3)]"
  using assms
  by (intro nth_equalityI) (auto simp: less_Suc_eq numeral_eq_Suc mult.commute nth_Cons')

lemma buflen_add:
  assumes "unat (b :: u8) + n \<le> 64"
  shows "unat (b + of_nat n) = unat b + n"
  using assms by (simp add: unat_word_ariths unat_of_nat)

lemma eq_64_unat: "(b :: u8) = 64 \<longleftrightarrow> unat b = 64"
  by (simp add: word_unat_eq_iff)

lemma md_pad_cong: "f (8 * length m) = g (8 * length m) \<Longrightarrow> md_pad f m = md_pad g m"
  by (simp add: md_pad_def)

section \<open>The buffer loop\<close>

locale md_buffer =
  fixes buf :: "'s \<Rightarrow> u8 list"
    and buflen :: "'s \<Rightarrow> u8"
    and total :: "'s \<Rightarrow> u32"
    and hash :: "'s \<Rightarrow> u32 list"
    and compress :: "u32 list \<Rightarrow> u8 list \<Rightarrow> u32 list"
    and loop :: "u8 list \<Rightarrow> nat \<Rightarrow> 's \<Rightarrow> 's option"
  assumes loop_stop: "length bs \<le> used \<Longrightarrow> loop bs used s = Some s"
    and loop_turn: "\<lbrakk>used < length bs; unat (buflen s) < 64; length (buf s) = 64;
        n = min (64 - unat (buflen s)) (length bs - used)\<rbrakk> \<Longrightarrow>
      \<exists>s'. loop bs used s = loop bs (used + n) s' \<and>
        buf s' = patch (buf s) (unat (buflen s)) (take n (drop used bs)) \<and>
        (if unat (buflen s) + n = 64
         then unat (buflen s') = 0 \<and> hash s' = compress (hash s) (buf s') \<and> total s' = total s + 64
         else unat (buflen s') = unat (buflen s) + n \<and> hash s' = hash s \<and> total s' = total s)"
begin

text \<open>The state \<open>s\<close> stands for the message \<open>m\<close>, started from the chaining value \<open>iv\<close>.\<close>

definition stands_for :: "u32 list \<Rightarrow> 's \<Rightarrow> u8 list \<Rightarrow> bool" where
  "stands_for iv s m \<longleftrightarrow>
     length (buf s) = 64 \<and> unat (buflen s) = length m mod 64 \<and>
     take (length m mod 64) (buf s) = rest 64 m \<and>
     total s = of_nat (64 * (length m div 64)) \<and> hash s = foldl compress iv (blocks 64 m)"

lemma stands_for_start:
  assumes "length (buf s) = 64" "buflen s = 0" "total s = 0" "hash s = iv"
  shows "stands_for iv s []"
  using assms by (simp add: stands_for_def rest_def)

lemma stands_for_buflen:
  assumes "stands_for iv s m"
  shows "unat (buflen s) = length m mod 64" "unat (buflen s) < 64" "length (buf s) = 64"
  using assms by (auto simp: stands_for_def)

text \<open>Absorbing bytes that stay below, or exactly reach, the end of the buffer.\<close>

lemma stands_for_absorb:
  assumes s: "stands_for iv s m"
    and d: "unat (buflen s) + length d \<le> 64" "d \<noteq> []"
    and b: "buf s' = patch (buf s) (unat (buflen s)) d"
    and t: "if unat (buflen s) + length d = 64
      then unat (buflen s') = 0 \<and> hash s' = compress (hash s) (buf s') \<and> total s' = total s + 64
      else unat (buflen s') = unat (buflen s) + length d \<and> hash s' = hash s \<and> total s' = total s"
  shows "stands_for iv s' (m @ d)"
proof -
  have bl: "unat (buflen s) = length m mod 64" and lb: "length (buf s) = 64"
    and tk: "take (length m mod 64) (buf s) = rest 64 m"
    and tot: "total s = of_nat (64 * (length m div 64))"
    and h: "hash s = foldl compress iv (blocks 64 m)"
    using s by (simp_all add: stands_for_def)
  have lb': "length (buf s') = 64" using b d lb by simp
  have front: "take (length m mod 64 + length d) (buf s') = rest 64 m @ d"
    using b bl lb tk take_patch_end [of "length m mod 64" "buf s" d] by simp
  show ?thesis
  proof (cases "length m mod 64 + length d = 64")
    case True
    note f = blocks_rest_full [OF _ True]
    have "buf s' = rest 64 m @ d" using front lb' True by simp
    then show ?thesis
      unfolding stands_for_def f [OF zero_less_numeral] using t bl True lb' tot h
      by (simp add: f algebra_simps)
  next
    case False
    then have l: "length m mod 64 + length d < 64" using d(1) bl by simp
    note f = blocks_rest_less [OF _ l]
    show ?thesis
      unfolding stands_for_def f [OF zero_less_numeral] using t bl False lb' tot h front by simp
  qed
qed

text \<open>The loop returns, and the new state stands for the longer message.\<close>

lemma loop_absorbs:
  assumes "stands_for iv s m"
  shows "\<exists>s'. loop bs used s = Some s' \<and> stands_for iv s' (m @ drop used bs)"
  using assms
proof (induction "length bs - used" arbitrary: used s m rule: less_induct)
  case less
  show ?case
  proof (cases "used < length bs")
    case False
    then show ?thesis using less.prems by (simp add: loop_stop)
  next
    case True
    note bl = stands_for_buflen [OF less.prems]
    define n where "n = min (64 - unat (buflen s)) (length bs - used)"
    define d where "d = take n (drop used bs)"
    have n: "0 < n" "n \<le> length bs - used" "unat (buflen s) + n \<le> 64"
      using True bl by (auto simp: n_def min_def)
    then have ld: "length d = n" by (simp add: d_def)
    obtain s' where s': "loop bs used s = loop bs (used + n) s'"
      "buf s' = patch (buf s) (unat (buflen s)) d"
      "if unat (buflen s) + n = 64
       then unat (buflen s') = 0 \<and> hash s' = compress (hash s) (buf s') \<and> total s' = total s + 64
       else unat (buflen s') = unat (buflen s) + n \<and> hash s' = hash s \<and> total s' = total s"
      using loop_turn [OF True bl(2) bl(3) n_def] unfolding d_def by blast
    have "d \<noteq> []" using n ld by auto
    then have "stands_for iv s' (m @ d)"
      using stands_for_absorb [OF less.prems] n ld s' by simp
    moreover have "length bs - (used + n) < length bs - used" using True n by simp
    ultimately obtain s'' where "loop bs (used + n) s' = Some s''"
      and "stands_for iv s'' ((m @ d) @ drop (used + n) bs)"
      using less.hyps by blast
    moreover have "d @ drop (used + n) bs = drop used bs"
      unfolding d_def by (metis append_take_drop_id drop_drop add.commute)
    ultimately show ?thesis using s' by simp
  qed
qed

end

section \<open>Padding and the digest\<close>

locale md_digest = md_buffer buf buflen total hash compress loop
  for buf :: "'s \<Rightarrow> u8 list" and buflen total hash compress loop +
  fixes finish :: "'s \<Rightarrow> u8 list"
    and len_bytes :: "nat \<Rightarrow> u8 list"
    and emit :: "u32 list \<Rightarrow> u8 list"
  assumes length_len_bytes: "length (len_bytes n) = 8"
    and finish_short: "\<lbrakk>unat (buflen s) < 56; length (buf s) = 64\<rbrakk> \<Longrightarrow>
      finish s = emit (compress (hash s)
        (take (unat (buflen s)) (buf s) @ [0x80] @ replicate (55 - unat (buflen s)) 0 @
         len_bytes (unat ((total s + ucast (buflen s)) * 8))))"
    and finish_long: "\<lbrakk>56 \<le> unat (buflen s); unat (buflen s) < 64; length (buf s) = 64\<rbrakk> \<Longrightarrow>
      finish s = emit (compress (compress (hash s)
        (take (unat (buflen s)) (buf s) @ [0x80] @ replicate (63 - unat (buflen s)) 0))
        (replicate 56 0 @ len_bytes (unat ((total s + ucast (buflen s)) * 8))))"
begin

lemma total_bits:
  assumes "stands_for iv s m"
  shows "unat ((total s + ucast (buflen s)) * 8) = 8 * length m mod 2 ^ 32"
proof -
  have "total s = of_nat (64 * (length m div 64))" "unat (buflen s) = length m mod 64"
    using assms by (simp_all add: stands_for_def)
  moreover have "ucast (buflen s) = (of_nat (unat (buflen s)) :: u32)" by simp
  ultimately have "total s + ucast (buflen s) = of_nat (64 * (length m div 64) + length m mod 64)"
    by (simp only: of_nat_add)
  then have "total s + ucast (buflen s) = of_nat (length m)" by (simp only: mult_div_mod_eq)
  then have "(total s + ucast (buflen s)) * 8 = of_nat (8 * length m)" by (simp add: mult.commute)
  then show ?thesis by (simp only: unat_of_nat) simp
qed

text \<open>
  The digest of a state that stands for \<open>m\<close> is the iterated compression of the padded
  message, with the length field reduced modulo \<open>2 ^ 32\<close> bits: the counter of the code is a
  \<^verbatim>\<open>uint32_t\<close> that is multiplied by 8 before it is widened.
\<close>

lemma finish_digest:
  assumes s: "stands_for iv s m"
  shows "finish s = emit (foldl compress iv
    (blocks 64 (md_pad (\<lambda>n. len_bytes (n mod 2 ^ 32)) m)))"
proof -
  define l where "l = len_bytes (8 * length m mod 2 ^ 32)"
  have ll: "length l = 8" by (simp add: l_def length_len_bytes)
  have bl: "unat (buflen s) = length m mod 64" and lb: "length (buf s) = 64"
    and tk: "take (length m mod 64) (buf s) = rest 64 m"
    and h: "hash s = foldl compress iv (blocks 64 m)"
    using s by (simp_all add: stands_for_def)
  note tb = total_bits [OF s]
  show ?thesis
  proof (cases "length m mod 64 < 56")
    case True
    define d where "d = [0x80] @ replicate (55 - length m mod 64) 0 @ l"
    have pad: "md_pad (\<lambda>n. len_bytes (n mod 2 ^ 32)) m = m @ d"
    proof -
      have "119 - length m mod 64 = 64 + (55 - length m mod 64)" using True by simp
      then have "(119 - length m mod 64) mod 64 = (55 - length m mod 64) mod 64"
        by (simp only: mod_add_self1)
      also have "\<dots> = 55 - length m mod 64" by (rule mod_less) simp
      finally have "(119 - length m mod 64) mod 64 = 55 - length m mod 64" .
      then show ?thesis by (simp add: md_pad_def d_def l_def)
    qed
    have "length m mod 64 + length d = 64" using True ll by (simp add: d_def)
    from blocks_rest_full(1) [OF zero_less_numeral this]
    have "blocks 64 (m @ d) = blocks 64 m @ [rest 64 m @ d]" .
    moreover have "finish s = emit (compress (hash s) (rest 64 m @ d))"
      using finish_short [of s] True bl lb tk tb by (simp add: d_def l_def)
    ultimately show ?thesis unfolding pad by (simp add: h)
  next
    case False
    define d where "d = [0x80] @ replicate (63 - length m mod 64) (0 :: u8)"
    define e where "e = replicate 56 0 @ l"
    have less: "length m mod 64 < 64" by simp
    have pad: "md_pad (\<lambda>n. len_bytes (n mod 2 ^ 32)) m = (m @ d) @ e"
    proof -
      have "119 - length m mod 64 = (63 - length m mod 64) + 56" using less by simp
      moreover have "63 - length m mod 64 + 56 < 64" using False by simp
      ultimately have "(119 - length m mod 64) mod 64 = (63 - length m mod 64) + 56"
        by (simp only: mod_less)
      then show ?thesis unfolding md_pad_def d_def e_def l_def by (simp only: replicate_add append_assoc)
    qed
    have "length m mod 64 + length d = 64" using less by (simp add: d_def)
    note f = blocks_rest_full [OF zero_less_numeral this]
    have "length (m @ d) mod 64 + length e = 64" using f(4) ll by (simp add: e_def)
    from blocks_rest_full(1) [OF zero_less_numeral this] f(1,2)
    have "blocks 64 ((m @ d) @ e) = blocks 64 m @ [rest 64 m @ d, e]" by simp
    moreover have "finish s = emit (compress (compress (hash s) (rest 64 m @ d)) e)"
      using finish_long [of s] False less bl lb tk tb by (simp add: d_def e_def l_def)
    ultimately show ?thesis unfolding pad by (simp add: h)
  qed
qed

end

end
