(* ===== verification/Sha256.thy ===== *)
theory Sha256
  imports Md_Hash
begin

text \<open>
  The SHA-256 implementation of \<^verbatim>\<open>src/crypto/sha256.c\<close>, which authenticates firmware
  updates. \<open>sha256_state\<close> is the C struct, \<open>sha256_init\<close>, \<open>sha256_proc\<close> and
  \<open>sha256_done\<close> the three entry points and \<open>sha256_consume\<close> the compression function
  on its working arrays. The \<^verbatim>\<open>while\<close> loop of \<^verbatim>\<open>sha256_proc\<close> is a partial function: \<open>None\<close>
  is a loop that never ends (a full buffer on entry) or a write past the buffer. The
  reference \<open>sha256_spec\<close> follows FIPS 180-4: the message schedule as a recurrence, the
  rounds on eight variables, rotations as rotations.
\<close>

section \<open>The code\<close>

record sha256_state =
  sha_buf :: "u8 list"
  sha_buflen :: u8
  sha_totallen :: u32
  sha_h :: "u32 list"

definition sha256_k :: "u32 list" where
  "sha256_k =
     [0x428a2f98, 0x71374491, 0xb5c0fbcf, 0xe9b5dba5, 0x3956c25b] @
     [0x59f111f1, 0x923f82a4, 0xab1c5ed5, 0xd807aa98, 0x12835b01] @
     [0x243185be, 0x550c7dc3, 0x72be5d74, 0x80deb1fe, 0x9bdc06a7] @
     [0xc19bf174, 0xe49b69c1, 0xefbe4786, 0x0fc19dc6, 0x240ca1cc] @
     [0x2de92c6f, 0x4a7484aa, 0x5cb0a9dc, 0x76f988da, 0x983e5152] @
     [0xa831c66d, 0xb00327c8, 0xbf597fc7, 0xc6e00bf3, 0xd5a79147] @
     [0x06ca6351, 0x14292967, 0x27b70a85, 0x2e1b2138, 0x4d2c6dfc] @
     [0x53380d13, 0x650a7354, 0x766a0abb, 0x81c2c92e, 0x92722c85] @
     [0xa2bfe8a1, 0xa81a664b, 0xc24b8b70, 0xc76c51a3, 0xd192e819] @
     [0xd6990624, 0xf40e3585, 0x106aa070, 0x19a4c116, 0x1e376c08] @
     [0x2748774c, 0x34b0bcb5, 0x391c0cb3, 0x4ed8aa4a, 0x5b9cca4f] @
     [0x682e6ff3, 0x748f82ee, 0x78a5636f, 0x84c87814, 0x8cc70208] @
     [0x90befffa, 0xa4506ceb, 0xbef9a3f7, 0xc67178f2]"

definition sha256_init :: "sha256_state \<Rightarrow> sha256_state" where
  "sha256_init s = s\<lparr>
     sha_h := [0x6a09e667, 0xbb67ae85, 0x3c6ef372, 0xa54ff53a,
               0x510e527f, 0x9b05688c, 0x1f83d9ab, 0x5be0cd19],
     sha_buflen := 0,
     sha_totallen := 0\<rparr>"

definition rrotate :: "u32 \<Rightarrow> nat \<Rightarrow> u32" where
  "rrotate x n =
     (let left = drop_bit n x;
          right = x AND (push_bit (n + 1) 1 - 1)
      in push_bit (32 - n) right OR left)"

text \<open>The two loops that fill the array \<^verbatim>\<open>w\<close>.\<close>

definition sha256_schedule :: "u8 list \<Rightarrow> u32 list" where
  "sha256_schedule chunk =
     (let w = fold (\<lambda>i w. w[i :=
                push_bit 24 (ucast (chunk ! (i*4))) OR push_bit 16 (ucast (chunk ! (i*4+1))) OR
                push_bit 8 (ucast (chunk ! (i*4+2))) OR ucast (chunk ! (i*4+3))])
              [0..<16] (replicate 64 0)
      in fold (\<lambda>i w.
           let s0 = rrotate (w ! (i-15)) 7 XOR rrotate (w ! (i-15)) 18 XOR drop_bit 3 (w ! (i-15));
               s1 = rrotate (w ! (i-2)) 17 XOR rrotate (w ! (i-2)) 19 XOR drop_bit 10 (w ! (i-2))
           in w[i := w ! (i-16) + s0 + w ! (i-7) + s1])
         [16..<64] w)"

text \<open>One round on the array \<^verbatim>\<open>g\<close>. Every element is read before the code overwrites it.\<close>

definition sha256_round :: "u32 list \<Rightarrow> nat \<Rightarrow> u32 list \<Rightarrow> u32 list" where
  "sha256_round w i g =
     (let S1 = rrotate (g ! 4) 6 XOR rrotate (g ! 4) 11 XOR rrotate (g ! 4) 25;
          ch = (g ! 4 AND g ! 5) XOR (NOT (g ! 4) AND g ! 6);
          temp1 = g ! 7 + S1 + ch + sha256_k ! i + w ! i;
          S0 = rrotate (g ! 0) 2 XOR rrotate (g ! 0) 13 XOR rrotate (g ! 0) 22;
          maj = (g ! 0 AND g ! 1) XOR (g ! 0 AND g ! 2) XOR (g ! 1 AND g ! 2);
          temp2 = S0 + maj
      in g[7 := g ! 6, 6 := g ! 5, 5 := g ! 4, 4 := g ! 3 + temp1,
           3 := g ! 2, 2 := g ! 1, 1 := g ! 0, 0 := temp1 + temp2])"

definition sha256_consume :: "u32 list \<Rightarrow> u8 list \<Rightarrow> u32 list" where
  "sha256_consume h chunk =
     (let w = sha256_schedule chunk;
          g = fold (\<lambda>i g. sha256_round w i g) [0..<64] h
      in fold (\<lambda>i h. h[i := h ! i + g ! i]) [0..<8] h)"

partial_function (option) sha256_proc_loop ::
    "u8 list \<Rightarrow> nat \<Rightarrow> sha256_state \<Rightarrow> sha256_state option" where
  "sha256_proc_loop bs used s =
     (if length bs - used > 0 then
        if 64 < unat (sha_buflen s) then None
        else
          let len2 = min (64 - unat (sha_buflen s)) (length bs - used);
              s1 = s\<lparr>sha_buf := patch (sha_buf s) (unat (sha_buflen s)) (take len2 (drop used bs)),
                     sha_buflen := sha_buflen s + of_nat len2\<rparr>
          in sha256_proc_loop bs (used + len2)
               (if sha_buflen s1 = 64
                then s1\<lparr>sha_h := sha256_consume (sha_h s1) (sha_buf s1),
                        sha_buflen := 0,
                        sha_totallen := sha_totallen s1 + 64\<rparr>
                else s1)
      else Some s)"

declare sha256_proc_loop.simps [code]

definition sha256_proc :: "sha256_state \<Rightarrow> u8 list \<Rightarrow> sha256_state option" where
  "sha256_proc s bs = sha256_proc_loop bs 0 s"

text \<open>The eight stores of the bit count, most significant byte first.\<close>

definition sha256_len_bytes :: "u64 \<Rightarrow> u8 list" where
  "sha256_len_bytes tot =
     [ucast (drop_bit (24+32) tot), ucast (drop_bit (16+32) tot),
      ucast (drop_bit (8+32) tot), ucast (drop_bit 32 tot),
      ucast (drop_bit 24 tot), ucast (drop_bit 16 tot),
      ucast (drop_bit 8 tot), ucast tot]"

text \<open>The loop that stores the chaining value into \<^verbatim>\<open>hash\<close>.\<close>

definition sha256_emit :: "u32 list \<Rightarrow> u8 list" where
  "sha256_emit h = concat (map (\<lambda>i. [ucast (drop_bit 24 (h ! i)), ucast (drop_bit 16 (h ! i)),
                                ucast (drop_bit 8 (h ! i)), ucast (h ! i)]) [0..<8])"

definition sha256_done :: "sha256_state \<Rightarrow> sha256_state \<times> u8 list" where
  "sha256_done s =
     (let n = unat (sha_buflen s);
          s1 = (if n < 56
                then s\<lparr>sha_totallen := sha_totallen s + ucast (sha_buflen s),
                       sha_buf := patch (patch (sha_buf s) n [0x80]) (n + 1) (replicate (56 - (n + 1)) 0),
                       sha_buflen := sha_buflen s + 1\<rparr>
                else
                  let b = patch (patch (sha_buf s) n [0x80]) (n + 1) (replicate (64 - (n + 1)) 0)
                  in s\<lparr>sha_totallen := sha_totallen s + ucast (sha_buflen s),
                       sha_h := sha256_consume (sha_h s) b,
                       sha_buf := patch b 0 (replicate 56 0),
                       sha_buflen := sha_buflen s + 1\<rparr>);
          tot = (ucast (sha_totallen s1 * 8) :: u64);
          b = patch (sha_buf s1) 56 (sha256_len_bytes tot);
          s2 = s1\<lparr>sha_buf := b, sha_h := sha256_consume (sha_h s1) b\<rparr>
      in (s2, sha256_emit (sha_h s2)))"

text \<open>A sequence of \<^verbatim>\<open>sha256_proc\<close> calls, as the OTA handler makes them, sector by sector.\<close>

fun sha256_procs :: "sha256_state \<Rightarrow> u8 list list \<Rightarrow> sha256_state option" where
  "sha256_procs s [] = Some s"
| "sha256_procs s (c # cs) = Option.bind (sha256_proc s c) (\<lambda>s'. sha256_procs s' cs)"

section \<open>Reference: FIPS 180-4\<close>

definition sigma_0 :: "u32 \<Rightarrow> u32" where
  "sigma_0 x = word_rotr 7 x XOR word_rotr 18 x XOR drop_bit 3 x"

definition sigma_1 :: "u32 \<Rightarrow> u32" where
  "sigma_1 x = word_rotr 17 x XOR word_rotr 19 x XOR drop_bit 10 x"

definition Sigma_0 :: "u32 \<Rightarrow> u32" where
  "Sigma_0 x = word_rotr 2 x XOR word_rotr 13 x XOR word_rotr 22 x"

definition Sigma_1 :: "u32 \<Rightarrow> u32" where
  "Sigma_1 x = word_rotr 6 x XOR word_rotr 11 x XOR word_rotr 25 x"

definition Ch :: "u32 \<Rightarrow> u32 \<Rightarrow> u32 \<Rightarrow> u32" where
  "Ch x y z = (x AND y) XOR (NOT x AND z)"

definition Maj :: "u32 \<Rightarrow> u32 \<Rightarrow> u32 \<Rightarrow> u32" where
  "Maj x y z = (x AND y) XOR (x AND z) XOR (y AND z)"

text \<open>The message schedule: big-endian words of the block, then the recurrence.\<close>

fun sha256_W :: "u8 list \<Rightarrow> nat \<Rightarrow> u32" where
  "sha256_W M t =
     (if t < 16 then word_of_nat (le_val (rev (take 4 (drop (4 * t) M))))
      else sigma_1 (sha256_W M (t - 2)) + sha256_W M (t - 7) +
           sigma_0 (sha256_W M (t - 15)) + sha256_W M (t - 16))"

declare sha256_W.simps [simp del]

fun sha256_step :: "u32 \<Rightarrow> u32 \<Rightarrow> u32 list \<Rightarrow> u32 list" where
  "sha256_step K W [a, b, c, d, e, f, g, h] =
     (let T1 = h + Sigma_1 e + Ch e f g + K + W; T2 = Sigma_0 a + Maj a b c
      in [T1 + T2, a, b, c, d + T1, e, f, g])"
| "sha256_step K W v = v"

definition sha256_compress :: "u32 list \<Rightarrow> u8 list \<Rightarrow> u32 list" where
  "sha256_compress H M =
     map2 (+) H (fold (\<lambda>t. sha256_step (sha256_k ! t) (sha256_W M t)) [0..<64] H)"

definition sha256_H0 :: "u32 list" where
  "sha256_H0 = [0x6a09e667, 0xbb67ae85, 0x3c6ef372, 0xa54ff53a,
                0x510e527f, 0x9b05688c, 0x1f83d9ab, 0x5be0cd19]"

text \<open>Big-endian digits of \<open>n\<close>, \<open>k\<close> bytes of them.\<close>

definition be_bytes :: "nat \<Rightarrow> nat \<Rightarrow> u8 list" where
  "be_bytes k n = map (\<lambda>i. word_of_nat (n div 256 ^ i)) (rev [0..<k])"

definition sha256_spec :: "u8 list \<Rightarrow> u8 list" where
  "sha256_spec m =
     concat (map (\<lambda>w. be_bytes 4 (unat w))
       (foldl sha256_compress sha256_H0 (blocks 64 (md_pad (be_bytes 8) m))))"

section \<open>The compression function\<close>

lemma rrotate_rotr:
  assumes "n < 31"
  shows "rrotate x n = word_rotr n x"
proof (rule bit_word_eqI)
  fix i assume "i < LENGTH(32)"
  then have i: "i < 32" by simp
  have m: "push_bit (n + 1) 1 - 1 = (mask (n + 1) :: u32)" by (simp add: mask_eq_exp_minus_1)
  have "bit (word_rotr n x) i \<longleftrightarrow> bit x ((i + n) mod 32)"
    using i by (simp add: bit_word_rotr_iff)
  also have "(i + n) mod 32 = (if i + n < 32 then i + n else i + n - 32)"
    using i assms by (simp add: mod_if)
  also have "bit x (if i + n < 32 then i + n else i + n - 32) \<longleftrightarrow>
      bit (push_bit (32 - n) (x AND mask (n + 1)) OR drop_bit n x) i"
    using i assms bit_imp_le_length [of x "i + n"]
    by (auto simp: bit_simps ac_simps)
  finally show "bit (rrotate x n) i = bit (word_rotr n x) i"
    unfolding rrotate_def m Let_def by simp
qed

text \<open>A \<^verbatim>\<open>for\<close> loop that assigns \<open>f i\<close> to element \<open>i\<close>, where \<open>f\<close> reads what is already there.\<close>

lemma fold_upt_Suc: "a \<le> n \<Longrightarrow> fold f [a..<Suc n] s = f n (fold f [a..<n] s)"
  by simp

lemma schedule_words:
  assumes "length chunk = 64" "n \<le> 16"
  shows "let w = fold (\<lambda>i w. w[i :=
                push_bit 24 (ucast (chunk ! (i*4))) OR push_bit 16 (ucast (chunk ! (i*4+1))) OR
                push_bit 8 (ucast (chunk ! (i*4+2))) OR ucast (chunk ! (i*4+3))])
              [0..<n] (replicate 64 0)
    in length w = 64 \<and> (\<forall>t < n. w ! t = sha256_W chunk t)"
  using assms(2)
proof (induction n)
  case (Suc n)
  have "n * 4 + 4 \<le> length chunk" using Suc assms by simp
  then have "sha256_W chunk n = word_of_nat (le_val (rev [chunk ! (n*4), chunk ! (n*4+1), chunk ! (n*4+2), chunk ! (n*4+3)]))"
    using Suc by (simp only: sha256_W.simps [of chunk n] take4_drop) simp
  then show ?case
    using Suc by (auto simp: Let_def be_word less_Suc_eq nth_list_update)
qed (simp add: Let_def)

lemma schedule_recurrence:
  assumes "length w = 64" "\<forall>t < 16. w ! t = sha256_W chunk t" "16 \<le> n" "n \<le> 64"
  shows "let w = fold (\<lambda>i w.
           let s0 = rrotate (w ! (i-15)) 7 XOR rrotate (w ! (i-15)) 18 XOR drop_bit 3 (w ! (i-15));
               s1 = rrotate (w ! (i-2)) 17 XOR rrotate (w ! (i-2)) 19 XOR drop_bit 10 (w ! (i-2))
           in w[i := w ! (i-16) + s0 + w ! (i-7) + s1]) [16..<n] w
    in length w = 64 \<and> (\<forall>t < n. w ! t = sha256_W chunk t)"
  using assms(3,4)
proof (induction n rule: nat_induct_at_least)
  case base
  then show ?case using assms by simp
next
  case (Suc n)
  then show ?case
    by (auto simp: Let_def rrotate_rotr less_Suc_eq nth_list_update sha256_W.simps [of chunk n]
        sigma_0_def sigma_1_def ac_simps)
qed

lemma schedule_W:
  assumes "length chunk = 64" "t < 64"
  shows "sha256_schedule chunk ! t = sha256_W chunk t"
proof -
  note w = schedule_words [OF assms(1) order_refl, unfolded Let_def]
  have n: "16 \<le> (64 :: nat)" by simp
  show ?thesis
    using schedule_recurrence [OF conjunct1 [OF w] conjunct2 [OF w] n order_refl] assms(2)
    unfolding sha256_schedule_def Let_def by blast
qed

lemma length8_cases:
  assumes "length g = 8"
  obtains a b c d e f x h where "g = [a, b, c, d, e, f, x, h]"
  using assms that by (auto simp: numeral_eq_Suc length_Suc_conv)

lemma round_step:
  assumes "length g = 8" "w ! i = W"
  shows "sha256_round w i g = sha256_step (sha256_k ! i) W g"
proof -
  obtain a b c d e f x h where "g = [a, b, c, d, e, f, x, h]"
    using length8_cases [OF assms(1)] .
  then show ?thesis
    using assms(2) by (simp add: sha256_round_def Let_def rrotate_rotr Sigma_0_def Sigma_1_def
        Ch_def Maj_def ac_simps)
qed

lemma length_step [simp]: "length (sha256_step K W g) = length g"
  by (induction K W g rule: sha256_step.induct) (simp_all add: Let_def)

lemma consume_compress:
  assumes "length h = 8" "length chunk = 64"
  shows "sha256_consume h chunk = sha256_compress h chunk"
proof -
  have rounds: "fold (\<lambda>i g. sha256_round (sha256_schedule chunk) i g) [0..<n] h =
      fold (\<lambda>t. sha256_step (sha256_k ! t) (sha256_W chunk t)) [0..<n] h \<and>
      length (fold (\<lambda>t. sha256_step (sha256_k ! t) (sha256_W chunk t)) [0..<n] h) = 8"
    if "n \<le> 64" for n
    using that
  proof (induction n)
    case (Suc n)
    then show ?case using schedule_W [OF assms(2), of n] by (simp add: round_step)
  qed (simp add: assms)
  define g where "g = fold (\<lambda>t. sha256_step (sha256_k ! t) (sha256_W chunk t)) [0..<64] h"
  have "length g = 8" using rounds [of 64] by (simp add: g_def)
  then obtain a b c d e f x y where g: "g = [a, b, c, d, e, f, x, y]" by (rule length8_cases)
  obtain a' b' c' d' e' f' x' y' where h: "h = [a', b', c', d', e', f', x', y']"
    using length8_cases [OF assms(1)] .
  have "sha256_consume h chunk = fold (\<lambda>i h. h[i := h ! i + g ! i]) [0..<8] h"
    using rounds [of 64] by (simp add: sha256_consume_def Let_def g_def)
  also have "\<dots> = map2 (+) h g" by (simp add: g h upt_conv_Cons)
  finally show ?thesis by (simp add: sha256_compress_def g_def)
qed

section \<open>The buffer and the digest\<close>

interpretation sha: md_buffer sha_buf sha_buflen sha_totallen sha_h sha256_consume sha256_proc_loop
proof
  show "sha256_proc_loop bs used s = Some s" if "length bs \<le> used" for bs used s
    using that by (simp add: sha256_proc_loop.simps)
next
  fix used n and bs :: "u8 list" and s :: sha256_state
  assume a: "used < length bs" "unat (sha_buflen s) < 64" "length (sha_buf s) = 64"
    "n = min (64 - unat (sha_buflen s)) (length bs - used)"
  define s1 where "s1 = s\<lparr>sha_buf := patch (sha_buf s) (unat (sha_buflen s)) (take n (drop used bs)),
                     sha_buflen := sha_buflen s + of_nat n\<rparr>"
  define s' where "s' = (if sha_buflen s1 = 64
                then s1\<lparr>sha_h := sha256_consume (sha_h s1) (sha_buf s1), sha_buflen := 0,
                        sha_totallen := sha_totallen s1 + 64\<rparr> else s1)"
  have "unat (sha_buflen s) + n \<le> 64" using a by simp
  then have b: "unat (sha_buflen s1) = unat (sha_buflen s) + n" by (simp add: s1_def buflen_add)
  have "sha256_proc_loop bs used s = sha256_proc_loop bs (used + n) s'"
    using a by (simp add: sha256_proc_loop.simps [of bs used s] s'_def s1_def Let_def)
  moreover have "sha_buf s' = patch (sha_buf s) (unat (sha_buflen s)) (take n (drop used bs))"
    by (simp add: s'_def s1_def)
  moreover have "if unat (sha_buflen s) + n = 64
     then unat (sha_buflen s') = 0 \<and> sha_h s' = sha256_consume (sha_h s) (sha_buf s') \<and>
       sha_totallen s' = sha_totallen s + 64
     else unat (sha_buflen s') = unat (sha_buflen s) + n \<and> sha_h s' = sha_h s \<and>
       sha_totallen s' = sha_totallen s"
    using b by (simp add: s'_def eq_64_unat) (simp add: s1_def)
  ultimately show "\<exists>s'. sha256_proc_loop bs used s = sha256_proc_loop bs (used + n) s' \<and>
        sha_buf s' = patch (sha_buf s) (unat (sha_buflen s)) (take n (drop used bs)) \<and>
        (if unat (sha_buflen s) + n = 64
         then unat (sha_buflen s') = 0 \<and> sha_h s' = sha256_consume (sha_h s) (sha_buf s') \<and>
           sha_totallen s' = sha_totallen s + 64
         else unat (sha_buflen s') = unat (sha_buflen s) + n \<and> sha_h s' = sha_h s \<and>
           sha_totallen s' = sha_totallen s)"
    by blast
qed

interpretation shad: md_digest sha_buf sha_buflen sha_totallen sha_h sha256_consume sha256_proc_loop
    "\<lambda>s. snd (sha256_done s)" "\<lambda>n. sha256_len_bytes (of_nat n)" sha256_emit
proof
  show "length (sha256_len_bytes (of_nat n)) = 8" for n by (simp add: sha256_len_bytes_def)
  then have l: "length (sha256_len_bytes x) = 8" for x by (simp add: sha256_len_bytes_def)
  show "snd (sha256_done s) = sha256_emit (sha256_consume (sha_h s)
        (take (unat (sha_buflen s)) (sha_buf s) @ [0x80] @ replicate (55 - unat (sha_buflen s)) 0 @
         sha256_len_bytes (of_nat (unat ((sha_totallen s + ucast (sha_buflen s)) * 8)))))"
    if "unat (sha_buflen s) < 56" "length (sha_buf s) = 64" for s
    using that l by (simp add: sha256_done_def Let_def pad_buf_short)
  show "snd (sha256_done s) = sha256_emit (sha256_consume (sha256_consume (sha_h s)
        (take (unat (sha_buflen s)) (sha_buf s) @ [0x80] @ replicate (63 - unat (sha_buflen s)) 0))
        (replicate 56 0 @ sha256_len_bytes (of_nat (unat ((sha_totallen s + ucast (sha_buflen s)) * 8)))))"
    if "56 \<le> unat (sha_buflen s)" "unat (sha_buflen s) < 64" "length (sha_buf s) = 64" for s
    using that l by (simp add: sha256_done_def Let_def pad_buf_full pad_buf_last)
qed

lemma length_consume [simp]: "length (sha256_consume h chunk) = length h"
proof -
  have "length (fold (\<lambda>i h. h[i := h ! i + g ! i]) xs h) = length h" for g :: "u32 list" and xs
    by (induction xs arbitrary: h) simp_all
  then show ?thesis by (simp add: sha256_consume_def Let_def)
qed

lemma foldl_consume:
  assumes "length h = 8"
  shows "foldl sha256_consume h (blocks 64 m) = foldl sha256_compress h (blocks 64 m)"
    and "length (foldl sha256_compress h (blocks 64 m)) = 8"
proof -
  show *: "foldl sha256_consume h (blocks 64 m) = foldl sha256_compress h (blocks 64 m)"
  proof (rule foldl_cong_inv [where P = "\<lambda>h. length h = 8", OF assms])
    fix a :: "u32 list" and x :: "u8 list"
    assume "x \<in> set (blocks 64 m)" "length a = 8"
    then have "sha256_consume a x = sha256_compress a x"
      using blocks_lengths by (blast intro: consume_compress)
    then show "sha256_consume a x = sha256_compress a x \<and> length (sha256_compress a x) = 8"
      using \<open>length a = 8\<close> length_consume [of a x] by simp
  qed
  have "length (foldl sha256_consume h bs) = 8" for bs
    using assms by (induction bs arbitrary: h) simp_all
  then show "length (foldl sha256_compress h (blocks 64 m)) = 8" by (simp only: * [symmetric])
qed

lemma be_bytes_word: "be_bytes 4 (unat (w :: u32)) =
    [ucast (drop_bit 24 w), ucast (drop_bit 16 w), ucast (drop_bit 8 w), ucast w]"
proof -
  have "rev [0..<4] = [3, 2, 1, 0 :: nat]" by (simp add: upt_conv_Cons)
  then show ?thesis unfolding be_bytes_def ucast_drop_bit_byte by simp
qed

lemma be_bytes_len:
  assumes "n < 2 ^ 64"
  shows "be_bytes 8 n = sha256_len_bytes (of_nat n)"
proof -
  have "rev [0..<8] = [7, 6, 5, 4, 3, 2, 1, 0 :: nat]" by (simp add: upt_conv_Cons)
  moreover have u: "unat (of_nat n :: u64) = n" using assms by (simp add: unat_of_nat_small)
  moreover have "ucast (of_nat n :: u64) = (of_nat n :: u8)" using u by (metis of_nat_unat)
  ultimately show ?thesis
    unfolding be_bytes_def sha256_len_bytes_def ucast_drop_bit_byte by simp
qed

lemma emit_be_bytes:
  assumes "length h = 8"
  shows "sha256_emit h = concat (map (\<lambda>w. be_bytes 4 (unat w)) h)"
proof -
  obtain a b c d e f x y where "h = [a, b, c, d, e, f, x, y]" using length8_cases [OF assms] .
  then show ?thesis unfolding be_bytes_word sha256_emit_def by (simp add: upt_conv_Cons)
qed

lemma init_stands_for:
  assumes "length (sha_buf s) = 64"
  shows "sha.stands_for sha256_H0 (sha256_init s) []"
  by (rule sha.stands_for_start) (use assms in \<open>simp_all add: sha256_init_def sha256_H0_def\<close>)

lemma procs_stand_for:
  assumes "sha.stands_for iv s m"
  shows "\<exists>s'. sha256_procs s cs = Some s' \<and> sha.stands_for iv s' (m @ concat cs)"
  using assms
proof (induction cs arbitrary: s m)
  case (Cons c cs)
  obtain s1 where "sha256_proc s c = Some s1" "sha.stands_for iv s1 (m @ c)"
    using sha.loop_absorbs [OF Cons.prems, of c 0] by (auto simp: sha256_proc_def)
  with Cons.IH [of s1 "m @ c"] show ?case by simp
qed simp

lemma done_digest:
  assumes "sha.stands_for sha256_H0 s m"
  shows "snd (sha256_done s) = concat (map (\<lambda>w. be_bytes 4 (unat w))
      (foldl sha256_compress sha256_H0 (blocks 64 (md_pad (\<lambda>n. be_bytes 8 (n mod 2 ^ 32)) m))))"
proof -
  have "md_pad (\<lambda>n. sha256_len_bytes (of_nat (n mod 2 ^ 32))) m = md_pad (\<lambda>n. be_bytes 8 (n mod 2 ^ 32)) m"
  proof (rule md_pad_cong)
    have "8 * length m mod 2 ^ 32 < 2 ^ 64" by (rule order.strict_trans [of _ "2 ^ 32"]) simp_all
    then show "sha256_len_bytes (of_nat (8 * length m mod 2 ^ 32)) = be_bytes 8 (8 * length m mod 2 ^ 32)"
      by (simp only: be_bytes_len)
  qed
  moreover have "length sha256_H0 = 8" by (simp add: sha256_H0_def)
  ultimately show ?thesis
    unfolding shad.finish_digest [OF assms] by (simp only: foldl_consume emit_be_bytes)
qed

lemma digest_spec:
  assumes "sha.stands_for sha256_H0 s m" "length m < 2 ^ 29"
  shows "snd (sha256_done s) = sha256_spec m"
proof -
  have "md_pad (\<lambda>n. be_bytes 8 (n mod 2 ^ 32)) m = md_pad (be_bytes 8) m"
    using assms(2) by (intro md_pad_cong) simp
  then show ?thesis using done_digest [OF assms(1)] by (simp only: sha256_spec_def)
qed

section \<open>Properties\<close>

text \<open>
  C10: the streaming implementation computes SHA-256. However a message of less than \<open>2 ^ 29\<close>
  bytes is cut into \<^verbatim>\<open>sha256_proc\<close> calls, every call returns and \<^verbatim>\<open>sha256_done\<close> yields the
  FIPS 180-4 digest of the concatenation.
\<close>

theorem sha256_correct:
  assumes "length (sha_buf s0) = 64" "length (concat cs) < 2 ^ 29"
  shows "\<exists>s. sha256_procs (sha256_init s0) cs = Some s \<and> snd (sha256_done s) = sha256_spec (concat cs)"
proof -
  obtain s where "sha256_procs (sha256_init s0) cs = Some s" "sha.stands_for sha256_H0 s (concat cs)"
    using procs_stand_for [OF init_stands_for [OF assms(1)], of cs] by auto
  then show ?thesis using digest_spec [OF _ assms(2)] by simp
qed

lemma sha256_correct_witness:
  "\<exists>s. sha256_procs (sha256_init \<lparr>sha_buf = replicate 64 7, sha_buflen = 9, sha_totallen = 5, sha_h = []\<rparr>)
          [ascii ''ab'', [], ascii ''c''] = Some s \<and>
     snd (sha256_done s) = sha256_spec (concat [ascii ''ab'', [], ascii ''c''])"
  by (rule sha256_correct) (simp_all add: ascii_def)

end
