(* ===== verification/Md5.thy ===== *)
theory Md5
  imports Md_Hash
begin

text \<open>
  The MD5 implementation of \<^verbatim>\<open>src/crypto/md5.c\<close>, used by the SMTP client for CRAM-MD5. The
  state, the buffer loop and the padding are those of SHA-256 with the byte order turned
  round, and both locales of \<open>Md_Hash\<close> are interpreted again; the compression function
  and its reference \<open>md5_compress\<close> (RFC 1321, four auxiliary functions and rotations on
  four variables) are its own.
\<close>

section \<open>The code\<close>

record md5_state =
  md5_buf :: "u8 list"
  md5_buflen :: u8
  md5_totallen :: u32
  md5_h :: "u32 list"

definition md5_k :: "u32 list" where
  "md5_k =
    [0xd76aa478, 0xe8c7b756, 0x242070db, 0xc1bdceee, 0xf57c0faf, 0x4787c62a, 0xa8304613, 0xfd469501,
     0x698098d8, 0x8b44f7af, 0xffff5bb1, 0x895cd7be, 0x6b901122, 0xfd987193, 0xa679438e, 0x49b40821,
     0xf61e2562, 0xc040b340, 0x265e5a51, 0xe9b6c7aa, 0xd62f105d, 0x02441453, 0xd8a1e681, 0xe7d3fbc8,
     0x21e1cde6, 0xc33707d6, 0xf4d50d87, 0x455a14ed, 0xa9e3e905, 0xfcefa3f8, 0x676f02d9, 0x8d2a4c8a,
     0xfffa3942, 0x8771f681, 0x6d9d6122, 0xfde5380c, 0xa4beea44, 0x4bdecfa9, 0xf6bb4b60, 0xbebfbc70,
     0x289b7ec6, 0xeaa127fa, 0xd4ef3085, 0x04881d05, 0xd9d4d039, 0xe6db99e5, 0x1fa27cf8, 0xc4ac5665,
     0xf4292244, 0x432aff97, 0xab9423a7, 0xfc93a039, 0x655b59c3, 0x8f0ccc92, 0xffeff47d, 0x85845dd1,
     0x6fa87e4f, 0xfe2ce6e0, 0xa3014314, 0x4e0811a1, 0xf7537e82, 0xbd3af235, 0x2ad7d2bb, 0xeb86d391]"

definition md5_s :: "nat list" where
  "md5_s =
    [7, 12, 17, 22, 7, 12, 17, 22, 7, 12, 17, 22, 7, 12, 17, 22,
     5, 9, 14, 20, 5, 9, 14, 20, 5, 9, 14, 20, 5, 9, 14, 20,
     4, 11, 16, 23, 4, 11, 16, 23, 4, 11, 16, 23, 4, 11, 16, 23,
     6, 10, 15, 21, 6, 10, 15, 21, 6, 10, 15, 21, 6, 10, 15, 21]"

definition LROTATE :: "u32 \<Rightarrow> nat \<Rightarrow> u32" where
  "LROTATE x n = push_bit n x OR drop_bit (32 - n) x"

definition md5_init :: "md5_state \<Rightarrow> md5_state" where
  "md5_init s = s\<lparr>
     md5_h := [0x67452301, 0xefcdab89, 0x98badcfe, 0x10325476],
     md5_buflen := 0,
     md5_totallen := 0\<rparr>"

text \<open>The body of the loop over \<^verbatim>\<open>i\<close>: the choice of \<^verbatim>\<open>f\<close> and \<^verbatim>\<open>g\<close>, then the update of \<^verbatim>\<open>hh\<close>.\<close>

definition md5_round :: "u32 list \<Rightarrow> nat \<Rightarrow> u32 list \<Rightarrow> u32 list" where
  "md5_round m i hh =
     (let (f, g) =
        (if i \<le> 15 then ((hh ! 1 AND hh ! 2) OR (NOT (hh ! 1) AND hh ! 3), i)
         else if 16 \<le> i \<and> i \<le> 31 then
           ((hh ! 3 AND hh ! 1) OR (NOT (hh ! 3) AND hh ! 2), (5*i + 1) mod 16)
         else if 32 \<le> i \<and> i \<le> 47 then (hh ! 1 XOR hh ! 2 XOR hh ! 3, (3*i + 5) mod 16)
         else (hh ! 2 XOR (hh ! 1 OR NOT (hh ! 3)), (7*i) mod 16));
          f = f + hh ! 0 + md5_k ! i + m ! g
      in hh[0 := hh ! 3, 3 := hh ! 2, 2 := hh ! 1, 1 := hh ! 1 + LROTATE f (md5_s ! i)])"

definition md5_consume :: "u32 list \<Rightarrow> u8 list \<Rightarrow> u32 list" where
  "md5_consume h chunk =
     (let m = fold (\<lambda>i m. m[i :=
                push_bit 24 (ucast (chunk ! (i*4+3))) OR push_bit 16 (ucast (chunk ! (i*4+2))) OR
                push_bit 8 (ucast (chunk ! (i*4+1))) OR ucast (chunk ! (i*4))])
              [0..<16] (replicate 16 0);
          hh = fold (\<lambda>i hh. md5_round m i hh) [0..<64] h
      in fold (\<lambda>i h. h[i := h ! i + hh ! i]) [0..<4] h)"

partial_function (option) md5_proc_loop ::
    "u8 list \<Rightarrow> nat \<Rightarrow> md5_state \<Rightarrow> md5_state option" where
  "md5_proc_loop bs used s =
     (if length bs - used > 0 then
        if 64 < unat (md5_buflen s) then None
        else
          let len2 = min (64 - unat (md5_buflen s)) (length bs - used);
              s1 = s\<lparr>md5_buf := patch (md5_buf s) (unat (md5_buflen s)) (take len2 (drop used bs)),
                     md5_buflen := md5_buflen s + of_nat len2\<rparr>
          in md5_proc_loop bs (used + len2)
               (if md5_buflen s1 = 64
                then s1\<lparr>md5_h := md5_consume (md5_h s1) (md5_buf s1),
                        md5_buflen := 0,
                        md5_totallen := md5_totallen s1 + 64\<rparr>
                else s1)
      else Some s)"

declare md5_proc_loop.simps [code]

definition md5_proc :: "md5_state \<Rightarrow> u8 list \<Rightarrow> md5_state option" where
  "md5_proc s bs = md5_proc_loop bs 0 s"

text \<open>The eight stores of the bit count at \<^verbatim>\<open>buf[56]\<close> to \<^verbatim>\<open>buf[63]\<close>, least significant byte first.\<close>

definition md5_len_bytes :: "u64 \<Rightarrow> u8 list" where
  "md5_len_bytes tot =
     [ucast tot, ucast (drop_bit 8 tot), ucast (drop_bit 16 tot), ucast (drop_bit 24 tot),
      ucast (drop_bit 32 tot), ucast (drop_bit (8+32) tot),
      ucast (drop_bit (16+32) tot), ucast (drop_bit (24+32) tot)]"

definition md5_emit :: "u32 list \<Rightarrow> u8 list" where
  "md5_emit h = concat (map (\<lambda>i. [ucast (h ! i), ucast (drop_bit 8 (h ! i)),
                                ucast (drop_bit 16 (h ! i)), ucast (drop_bit 24 (h ! i))]) [0..<4])"

definition md5_done :: "md5_state \<Rightarrow> md5_state \<times> u8 list" where
  "md5_done s =
     (let n = unat (md5_buflen s);
          s1 = (if n < 56
                then s\<lparr>md5_totallen := md5_totallen s + ucast (md5_buflen s),
                       md5_buf := patch (patch (md5_buf s) n [0x80]) (n + 1) (replicate (56 - (n + 1)) 0),
                       md5_buflen := md5_buflen s + 1\<rparr>
                else
                  let b = patch (patch (md5_buf s) n [0x80]) (n + 1) (replicate (64 - (n + 1)) 0)
                  in s\<lparr>md5_totallen := md5_totallen s + ucast (md5_buflen s),
                       md5_h := md5_consume (md5_h s) b,
                       md5_buf := patch b 0 (replicate 56 0),
                       md5_buflen := md5_buflen s + 1\<rparr>);
          tot = (ucast (md5_totallen s1 * 8) :: u64);
          b = patch (md5_buf s1) 56 (md5_len_bytes tot);
          s2 = s1\<lparr>md5_buf := b, md5_h := md5_consume (md5_h s1) b\<rparr>
      in (s2, md5_emit (md5_h s2)))"

text \<open>
  \<^verbatim>\<open>md5(buf, len, hash)\<close>: a state on the stack, whose buffer bytes are whatever was there
  (\<open>s0\<close>), initialised, fed once and finished.
\<close>

definition md5 :: "md5_state \<Rightarrow> u8 list \<Rightarrow> u8 list option" where
  "md5 s0 bs = map_option (\<lambda>s. snd (md5_done s)) (md5_proc (md5_init s0) bs)"

section \<open>Reference: RFC 1321\<close>

definition md5_F :: "u32 \<Rightarrow> u32 \<Rightarrow> u32 \<Rightarrow> u32" where
  "md5_F x y z = (x AND y) OR (NOT x AND z)"

definition md5_G :: "u32 \<Rightarrow> u32 \<Rightarrow> u32 \<Rightarrow> u32" where
  "md5_G x y z = (x AND z) OR (y AND NOT z)"

definition md5_H :: "u32 \<Rightarrow> u32 \<Rightarrow> u32 \<Rightarrow> u32" where
  "md5_H x y z = x XOR y XOR z"

definition md5_I :: "u32 \<Rightarrow> u32 \<Rightarrow> u32 \<Rightarrow> u32" where
  "md5_I x y z = y XOR (x OR NOT z)"

text \<open>The function, the message word and the shifts of each of the four rounds of sixteen.\<close>

definition md5_aux :: "nat \<Rightarrow> u32 \<Rightarrow> u32 \<Rightarrow> u32 \<Rightarrow> u32" where
  "md5_aux t = [md5_F, md5_G, md5_H, md5_I] ! (t div 16)"

definition md5_index :: "nat \<Rightarrow> nat" where
  "md5_index t = [t, 1 + 5 * t, 5 + 3 * t, 7 * t] ! (t div 16) mod 16"

definition md5_shift :: "nat \<Rightarrow> nat" where
  "md5_shift t = [[7, 12, 17, 22], [5, 9, 14, 20], [4, 11, 16, 23], [6, 10, 15, 21]] ! (t div 16) ! (t mod 4)"

definition md5_X :: "u8 list \<Rightarrow> nat \<Rightarrow> u32" where
  "md5_X M k = word_of_nat (le_val (take 4 (drop (4 * k) M)))"

text \<open>\<open>a := b + ((a + f(b, c, d) + X[k] + T[i]) <<< s)\<close>, then the registers rotate.\<close>

fun md5_step :: "u8 list \<Rightarrow> nat \<Rightarrow> u32 list \<Rightarrow> u32 list" where
  "md5_step M t [a, b, c, d] =
     [d, b + word_rotl (md5_shift t) (a + md5_aux t b c d + md5_X M (md5_index t) + md5_k ! t), b, c]"
| "md5_step M t v = v"

definition md5_compress :: "u32 list \<Rightarrow> u8 list \<Rightarrow> u32 list" where
  "md5_compress H M = map2 (+) H (fold (md5_step M) [0..<64] H)"

definition md5_iv :: "u32 list" where
  "md5_iv = [0x67452301, 0xefcdab89, 0x98badcfe, 0x10325476]"

definition le_bytes :: "nat \<Rightarrow> nat \<Rightarrow> u8 list" where
  "le_bytes k n = map (\<lambda>i. word_of_nat (n div 256 ^ i)) [0..<k]"

definition md5_spec :: "u8 list \<Rightarrow> u8 list" where
  "md5_spec m =
     concat (map (\<lambda>w. le_bytes 4 (unat w)) (foldl md5_compress md5_iv (blocks 64 (md_pad (le_bytes 8) m))))"

section \<open>The compression function\<close>

lemma LROTATE_rotl:
  assumes "0 < n" "n < 32"
  shows "LROTATE x n = word_rotl n x"
proof (rule bit_word_eqI)
  fix i assume "i < LENGTH(32)"
  then have i: "i < 32" by simp
  have "bit (word_rotl n x) i \<longleftrightarrow> bit x ((i + (32 - n)) mod 32)"
    using i assms by (simp add: word_rotl_eq_word_rotr bit_word_rotr_iff)
  also have "(i + (32 - n)) mod 32 = (if i < n then i + (32 - n) else i - n)"
    using i assms by (simp add: mod_if)
  also have "bit x (if i < n then i + (32 - n) else i - n) \<longleftrightarrow> bit (push_bit n x OR drop_bit (32 - n) x) i"
    using i assms bit_imp_le_length [of x "i + (32 - n)"] by (auto simp: bit_simps ac_simps)
  finally show "bit (LROTATE x n) i = bit (word_rotl n x) i"
    unfolding LROTATE_def by simp
qed

lemma md5_tables:
  assumes "i < 64"
  shows "md5_s ! i = md5_shift i" "0 < md5_shift i" "md5_shift i < 32"
proof -
  have "\<forall>i \<in> set [0..<64]. md5_s ! i = md5_shift i \<and> 0 < md5_shift i \<and> md5_shift i < 32"
    by (simp add: upt_conv_Cons md5_s_def md5_shift_def)
  then show "md5_s ! i = md5_shift i" "0 < md5_shift i" "md5_shift i < 32" using assms by auto
qed

lemma length4_cases:
  assumes "length g = 4"
  obtains a b c d where "g = [a, b, c, d]"
  using assms that by (auto simp: numeral_eq_Suc length_Suc_conv)

lemma quarter:
  assumes "i < 64"
  shows "i \<le> 15 \<Longrightarrow> i div 16 = 0" "16 \<le> i \<Longrightarrow> i \<le> 31 \<Longrightarrow> i div 16 = Suc 0"
    "32 \<le> i \<Longrightarrow> i \<le> 47 \<Longrightarrow> i div 16 = Suc (Suc 0)" "48 \<le> i \<Longrightarrow> i div 16 = Suc (Suc (Suc 0))"
  using assms by auto

lemma words_X:
  assumes "length chunk = 64" "n \<le> 16"
  shows "let m = fold (\<lambda>i m. m[i :=
                push_bit 24 (ucast (chunk ! (i*4+3))) OR push_bit 16 (ucast (chunk ! (i*4+2))) OR
                push_bit 8 (ucast (chunk ! (i*4+1))) OR ucast (chunk ! (i*4))])
              [0..<n] (replicate 16 0)
    in length m = 16 \<and> (\<forall>t < n. m ! t = md5_X chunk t)"
  using assms(2)
proof (induction n)
  case (Suc n)
  have "n * 4 + 4 \<le> length chunk" using Suc assms by simp
  then show ?case
    using Suc by (auto simp: Let_def be_word less_Suc_eq nth_list_update md5_X_def take4_drop)
qed (simp add: Let_def)

lemma md5_round_step:
  assumes i: "i < 64" and g: "length g = 4" and m: "\<forall>t < 16. m ! t = md5_X M t"
  shows "md5_round m i g = md5_step M i g"
proof -
  obtain a b c d where g: "g = [a, b, c, d]" using length4_cases [OF g] .
  have k: "md5_index i < 16" by (simp add: md5_index_def)
  have rot: "LROTATE x (md5_s ! i) = word_rotl (md5_shift i) x" for x
    using md5_tables [OF i] by (simp add: LROTATE_rotl)
  consider "i \<le> 15" | "16 \<le> i" "i \<le> 31" | "32 \<le> i" "i \<le> 47" | "48 \<le> i" by linarith
  then have "md5_round m i g = [d, b + LROTATE (md5_aux i b c d + a + md5_k ! i + m ! md5_index i) (md5_s ! i), b, c]"
    using i by cases (simp_all add: g md5_round_def md5_aux_def md5_index_def quarter md5_F_def
        md5_G_def md5_H_def md5_I_def ac_simps)
  then show ?thesis unfolding rot using m k by (simp add: g ac_simps)
qed

lemma length_md5_step [simp]: "length (md5_step M t g) = length g"
  by (induction M t g rule: md5_step.induct) simp_all

lemma md5_consume_compress:
  assumes "length h = 4" "length chunk = 64"
  shows "md5_consume h chunk = md5_compress h chunk"
proof -
  define m where "m = fold (\<lambda>i m. m[i :=
                push_bit 24 (ucast (chunk ! (i*4+3))) OR push_bit 16 (ucast (chunk ! (i*4+2))) OR
                push_bit 8 (ucast (chunk ! (i*4+1))) OR ucast (chunk ! (i*4))])
              [0..<16] (replicate 16 (0 :: u32))"
  have m: "\<forall>t < 16. m ! t = md5_X chunk t"
    using words_X [OF assms(2) order_refl] unfolding m_def Let_def by blast
  have rounds: "fold (\<lambda>i g. md5_round m i g) [0..<n] h = fold (md5_step chunk) [0..<n] h \<and>
      length (fold (md5_step chunk) [0..<n] h) = 4" if "n \<le> 64" for n
    using that
  proof (induction n)
    case (Suc n)
    then show ?case using md5_round_step [OF _ _ m, of n] by simp
  qed (simp add: assms)
  define g where "g = fold (md5_step chunk) [0..<64] h"
  have "length g = 4" using rounds [of 64] by (simp add: g_def)
  then obtain a b c d where g: "g = [a, b, c, d]" by (rule length4_cases)
  obtain a' b' c' d' where h: "h = [a', b', c', d']" using length4_cases [OF assms(1)] .
  have "md5_consume h chunk = fold (\<lambda>i h. h[i := h ! i + g ! i]) [0..<4] h"
    using rounds [of 64] unfolding md5_consume_def Let_def g_def m_def [symmetric] by simp
  also have "\<dots> = map2 (+) h g" by (simp add: g h upt_conv_Cons)
  finally show ?thesis by (simp add: md5_compress_def g_def)
qed

section \<open>The buffer and the digest\<close>

interpretation md5b: md_buffer md5_buf md5_buflen md5_totallen md5_h md5_consume md5_proc_loop
proof
  show "md5_proc_loop bs used s = Some s" if "length bs \<le> used" for bs used s
    using that by (simp add: md5_proc_loop.simps)
next
  fix used n and bs :: "u8 list" and s :: md5_state
  assume a: "used < length bs" "unat (md5_buflen s) < 64" "length (md5_buf s) = 64"
    "n = min (64 - unat (md5_buflen s)) (length bs - used)"
  define s1 where "s1 = s\<lparr>md5_buf := patch (md5_buf s) (unat (md5_buflen s)) (take n (drop used bs)),
                     md5_buflen := md5_buflen s + of_nat n\<rparr>"
  define s' where "s' = (if md5_buflen s1 = 64
                then s1\<lparr>md5_h := md5_consume (md5_h s1) (md5_buf s1), md5_buflen := 0,
                        md5_totallen := md5_totallen s1 + 64\<rparr> else s1)"
  have "unat (md5_buflen s) + n \<le> 64" using a by simp
  then have b: "unat (md5_buflen s1) = unat (md5_buflen s) + n" by (simp add: s1_def buflen_add)
  have "md5_proc_loop bs used s = md5_proc_loop bs (used + n) s'"
    using a by (simp add: md5_proc_loop.simps [of bs used s] s'_def s1_def Let_def)
  moreover have "md5_buf s' = patch (md5_buf s) (unat (md5_buflen s)) (take n (drop used bs))"
    by (simp add: s'_def s1_def)
  moreover have "if unat (md5_buflen s) + n = 64
     then unat (md5_buflen s') = 0 \<and> md5_h s' = md5_consume (md5_h s) (md5_buf s') \<and>
       md5_totallen s' = md5_totallen s + 64
     else unat (md5_buflen s') = unat (md5_buflen s) + n \<and> md5_h s' = md5_h s \<and>
       md5_totallen s' = md5_totallen s"
    using b by (simp add: s'_def eq_64_unat) (simp add: s1_def)
  ultimately show "\<exists>s'. md5_proc_loop bs used s = md5_proc_loop bs (used + n) s' \<and>
        md5_buf s' = patch (md5_buf s) (unat (md5_buflen s)) (take n (drop used bs)) \<and>
        (if unat (md5_buflen s) + n = 64
         then unat (md5_buflen s') = 0 \<and> md5_h s' = md5_consume (md5_h s) (md5_buf s') \<and>
           md5_totallen s' = md5_totallen s + 64
         else unat (md5_buflen s') = unat (md5_buflen s) + n \<and> md5_h s' = md5_h s \<and>
           md5_totallen s' = md5_totallen s)"
    by blast
qed

interpretation md5d: md_digest md5_buf md5_buflen md5_totallen md5_h md5_consume md5_proc_loop
    "\<lambda>s. snd (md5_done s)" "\<lambda>n. md5_len_bytes (of_nat n)" md5_emit
proof
  show "length (md5_len_bytes (of_nat n)) = 8" for n by (simp add: md5_len_bytes_def)
  then have l: "length (md5_len_bytes x) = 8" for x by (simp add: md5_len_bytes_def)
  show "snd (md5_done s) = md5_emit (md5_consume (md5_h s)
        (take (unat (md5_buflen s)) (md5_buf s) @ [0x80] @ replicate (55 - unat (md5_buflen s)) 0 @
         md5_len_bytes (of_nat (unat ((md5_totallen s + ucast (md5_buflen s)) * 8)))))"
    if "unat (md5_buflen s) < 56" "length (md5_buf s) = 64" for s
    using that l by (simp add: md5_done_def Let_def pad_buf_short)
  show "snd (md5_done s) = md5_emit (md5_consume (md5_consume (md5_h s)
        (take (unat (md5_buflen s)) (md5_buf s) @ [0x80] @ replicate (63 - unat (md5_buflen s)) 0))
        (replicate 56 0 @ md5_len_bytes (of_nat (unat ((md5_totallen s + ucast (md5_buflen s)) * 8)))))"
    if "56 \<le> unat (md5_buflen s)" "unat (md5_buflen s) < 64" "length (md5_buf s) = 64" for s
    using that l by (simp add: md5_done_def Let_def pad_buf_full pad_buf_last)
qed

lemma length_md5_consume [simp]: "length (md5_consume h chunk) = length h"
proof -
  have "length (fold (\<lambda>i h. h[i := h ! i + g ! i]) xs h) = length h" for g :: "u32 list" and xs
    by (induction xs arbitrary: h) simp_all
  then show ?thesis by (simp add: md5_consume_def Let_def)
qed

lemma foldl_md5_consume:
  assumes "length h = 4"
  shows "foldl md5_consume h (blocks 64 m) = foldl md5_compress h (blocks 64 m)"
    and "length (foldl md5_compress h (blocks 64 m)) = 4"
proof -
  show *: "foldl md5_consume h (blocks 64 m) = foldl md5_compress h (blocks 64 m)"
  proof (rule foldl_cong_inv [where P = "\<lambda>h. length h = 4", OF assms])
    fix a :: "u32 list" and x :: "u8 list"
    assume "x \<in> set (blocks 64 m)" "length a = 4"
    then have "md5_consume a x = md5_compress a x"
      using blocks_lengths by (blast intro: md5_consume_compress)
    then show "md5_consume a x = md5_compress a x \<and> length (md5_compress a x) = 4"
      using \<open>length a = 4\<close> length_md5_consume [of a x] by simp
  qed
  have "length (foldl md5_consume h bs) = 4" for bs
    using assms by (induction bs arbitrary: h) simp_all
  then show "length (foldl md5_compress h (blocks 64 m)) = 4" by (simp only: * [symmetric])
qed

lemma le_bytes_word: "le_bytes 4 (unat (w :: u32)) =
    [ucast w, ucast (drop_bit 8 w), ucast (drop_bit 16 w), ucast (drop_bit 24 w)]"
proof -
  have "[0..<4] = [0, 1, 2, 3 :: nat]" by (simp add: upt_conv_Cons)
  then show ?thesis unfolding le_bytes_def ucast_drop_bit_byte by simp
qed

lemma le_bytes_len:
  assumes "n < 2 ^ 64"
  shows "le_bytes 8 n = md5_len_bytes (of_nat n)"
proof -
  have "[0..<8] = [0, 1, 2, 3, 4, 5, 6, 7 :: nat]" by (simp add: upt_conv_Cons)
  moreover have u: "unat (of_nat n :: u64) = n" using assms by (simp add: unat_of_nat_small)
  moreover have "ucast (of_nat n :: u64) = (of_nat n :: u8)" using u by (metis of_nat_unat)
  ultimately show ?thesis
    unfolding le_bytes_def md5_len_bytes_def ucast_drop_bit_byte by simp
qed

lemma emit_le_bytes:
  assumes "length h = 4"
  shows "md5_emit h = concat (map (\<lambda>w. le_bytes 4 (unat w)) h)"
proof -
  obtain a b c d where "h = [a, b, c, d]" using length4_cases [OF assms] .
  then show ?thesis unfolding le_bytes_word md5_emit_def by (simp add: upt_conv_Cons)
qed

lemma md5_done_digest:
  assumes "md5b.stands_for md5_iv s m" "length m < 2 ^ 29"
  shows "snd (md5_done s) = md5_spec m"
proof -
  have n: "8 * length m mod 2 ^ 32 = 8 * length m" using assms(2) by simp
  have "8 * length m < 2 ^ 64" using assms(2) by simp
  then have "md_pad (\<lambda>n. md5_len_bytes (of_nat (n mod 2 ^ 32))) m = md_pad (le_bytes 8) m"
    unfolding md_pad_def n by (simp only: le_bytes_len)
  moreover have "length md5_iv = 4" by (simp add: md5_iv_def)
  ultimately show ?thesis
    unfolding md5d.finish_digest [OF assms(1)] md5_spec_def by (simp only: foldl_md5_consume emit_le_bytes)
qed

lemma length_md5_spec: "length (md5_spec m) = 16"
proof -
  have l: "length (foldl md5_compress md5_iv (blocks 64 (md_pad (le_bytes 8) m))) = 4"
    by (rule foldl_md5_consume(2)) (simp add: md5_iv_def)
  obtain a b c d where "foldl md5_compress md5_iv (blocks 64 (md_pad (le_bytes 8) m)) = [a, b, c, d]"
    using length4_cases [OF l] .
  then show ?thesis by (simp add: md5_spec_def le_bytes_def)
qed

lemma md5_digest:
  assumes "length (md5_buf s0) = 64" "length bs < 2 ^ 29"
  shows "md5 s0 bs = Some (md5_spec bs)"
proof -
  have "md5b.stands_for md5_iv (md5_init s0) []"
    by (rule md5b.stands_for_start) (use assms in \<open>simp_all add: md5_init_def md5_iv_def\<close>)
  then obtain s where "md5_proc (md5_init s0) bs = Some s" "md5b.stands_for md5_iv s bs"
    using md5b.loop_absorbs [of md5_iv "md5_init s0" "[]" bs 0] by (auto simp: md5_proc_def)
  then show ?thesis using md5_done_digest assms(2) by (simp add: md5_def)
qed

section \<open>Properties\<close>

text \<open>
  C15: \<^verbatim>\<open>md5\<close> computes the RFC 1321 digest. Whatever the uninitialised state on its stack
  holds, for every message of less than \<open>2 ^ 29\<close> bytes the calls return and the result is
  the iterated compression of the padded message, 16 bytes of it.
\<close>

theorem md5_correct:
  assumes "length (md5_buf s0) = 64" "length bs < 2 ^ 29"
  shows "md5 s0 bs = Some (md5_spec bs)"
  using assms by (rule md5_digest)

lemma md5_correct_witness:
  "md5 \<lparr>md5_buf = replicate 64 7, md5_buflen = 9, md5_totallen = 5, md5_h = []\<rparr> (ascii ''abc'') =
     Some (md5_spec (ascii ''abc''))"
  by (rule md5_correct) (simp_all add: ascii_def)

end
