(* ===== verification/Bigint.thy ===== *)
theory Bigint
  imports Prelude "HOL-Library.Signed_Division"
begin

text \<open>
  The big integers of \<^verbatim>\<open>src/crypto/bigint.c\<close>, with which firmware signatures are checked: the
  struct, the macros and every routine. The routines take pointers, write through them while
  they still read through others (\<^verbatim>\<open>bigint_add(&mul_pt, &mul_pt, &mul_at)\<close>) and keep their
  temporaries in file-scope variables, so they are functions on an explicit store from variables
  to structs; the file-scope variables are constructors of \<open>var\<close> and a NULL pointer is
  \<open>None\<close>. A result is the returned \<^verbatim>\<open>int\<close> (positive on failure) and the new store.

  \<open>bval\<close> is the number a struct stands for, \<open>bi_wf\<close> the shape every routine keeps (all
  its array indices are then below 150), \<open>bi_clean\<close> says that no bit above the recorded size
  is set. This theory holds the definitions and the lemmas on the macros and on the routines that
  work on one number; \<open>Bigint_Arith\<close> has the arithmetic.
\<close>

section \<open>The code\<close>

record bigint =
  bi_bytes :: nat
  bi_bits :: nat
  bi_data :: "u8 list"

abbreviation (input) DATA_MAXLEN :: nat where
  "DATA_MAXLEN \<equiv> 150"

datatype var = Mul_pt | Mul_at | Div_qt | Div_rt | Div_bc | Expmod_xt | Expmod_r | Var nat

type_synonym store = "var \<Rightarrow> bigint"

definition BITS :: "bigint \<Rightarrow> nat" where
  "BITS i = bi_bytes i * 8 + bi_bits i"

definition BIT :: "bigint \<Rightarrow> nat \<Rightarrow> nat" where
  "BIT i n = (if n < BITS i then unat (drop_bit (n mod 8) (bi_data i ! (n div 8)) AND 1) else 0)"

definition SET_BIT :: "nat \<Rightarrow> bigint \<Rightarrow> bigint" where
  "SET_BIT n i =
     (if n < BITS i
      then i\<lparr>bi_data := (bi_data i)[n div 8 := bi_data i ! (n div 8) OR push_bit (n mod 8) 1]\<rparr>
      else i)"

definition CLR_BIT :: "nat \<Rightarrow> bigint \<Rightarrow> bigint" where
  "CLR_BIT n i =
     (if n < BITS i
      then i\<lparr>bi_data := (bi_data i)[n div 8 := bi_data i ! (n div 8) AND NOT (push_bit (n mod 8) 1)]\<rparr>
      else i)"

text \<open>
  The macro \<^verbatim>\<open>LEFT_SHIFT\<close>: result 1 is the \<^verbatim>\<open>return 1\<close> out of the enclosing function, 0 falls
  through. The counters are a \<^verbatim>\<open>uint16_t\<close> and a \<^verbatim>\<open>uint8_t\<close>.
\<close>

definition LEFT_SHIFT :: "bigint \<Rightarrow> int \<times> bigint" where
  "LEFT_SHIFT i =
     (let (d, lb) = fold (\<lambda>j (d, lb). (d[j := push_bit 1 (d ! j) OR lb], drop_bit 7 (d ! j) AND 1))
                      [0..<bi_bytes i] (bi_data i, 0);
          j = bi_bytes i;
          i1 = i\<lparr>bi_data := d[j := push_bit 1 (d ! j) OR lb], bi_bits := (bi_bits i + 1) mod 256\<rparr>
      in if bi_bits i1 = 8 then
           let i2 = i1\<lparr>bi_bytes := (bi_bytes i1 + 1) mod 65536, bi_bits := 0\<rparr>
           in if bi_bytes i2 \<ge> DATA_MAXLEN - 1 then (1, i2) else (0, i2)
         else (0, i1))"

function twos_carry :: "nat \<Rightarrow> nat \<Rightarrow> bigint \<Rightarrow> bigint" where
  "twos_carry b k i =
     (if k < b then
        if BIT i k = 0 then fold CLR_BIT (rev [0..<k]) (SET_BIT k i)
        else twos_carry b (k + 1) i
      else i)"
  by pat_completeness auto
termination
  by (relation "measure (\<lambda>(b, k, i). b - k)") auto

declare twos_carry.simps [simp del]

definition TWOS_COMP :: "bigint \<Rightarrow> bigint" where
  "TWOS_COMP i =
     (let i1 = i\<lparr>bi_data := fold (\<lambda>j d. d[j := NOT (d ! j)]) [0..<bi_bytes i] (bi_data i)\<rparr>;
          j = bi_bytes i;
          i2 = (if bi_bits i1 > 0
                then i1\<lparr>bi_data := (bi_data i1)[j := NOT (bi_data i1 ! j) AND (push_bit (bi_bits i1) 1 - 1)]\<rparr>
                else i1)
      in twos_carry (BITS i2) 0 i2)"

text \<open>\<^verbatim>\<open>j + 1\<close> after the loop of \<^verbatim>\<open>normalize\<close> that looks for the last byte that is not zero.\<close>

primrec norm_top :: "u8 list \<Rightarrow> nat \<Rightarrow> nat" where
  "norm_top d 0 = 0"
| "norm_top d (Suc j) = (if d ! j \<noteq> 0 then Suc j else norm_top d j)"

definition normalize :: "bigint \<Rightarrow> bigint" where
  "normalize i =
     (let i1 = (if bi_bits i > 0
                then i\<lparr>bi_data := (bi_data i)[bi_bytes i :=
                         bi_data i ! bi_bytes i AND (push_bit (bi_bits i) 1 - 1)]\<rparr>
                else i);
          u = bi_bytes i1 + (if bi_bits i1 > 0 then 1 else 0);
          i2 = i1\<lparr>bi_data := patch (bi_data i1) u (replicate (DATA_MAXLEN - u) 0)\<rparr>
      in if bi_bits i2 > 0 \<and> bi_data i2 ! bi_bytes i2 AND (push_bit (bi_bits i2) 1 - 1) \<noteq> 0 then i2
         else
           let i3 = i2\<lparr>bi_bytes := norm_top (bi_data i2) (bi_bytes i2), bi_bits := 0\<rparr>
           in if bi_bytes i3 = 0 then i3\<lparr>bi_bits := 1\<rparr> else i3)"

definition bigint_bits :: "bigint \<Rightarrow> nat" where
  "bigint_bits i = BITS i"

definition bigint_zero :: "bigint \<Rightarrow> bigint" where
  "bigint_zero i = i\<lparr>bi_bytes := 0, bi_bits := 1, bi_data := replicate (length (bi_data i)) 0\<rparr>"

definition hexchar :: "u8 \<Rightarrow> int" where
  "hexchar c =
     (if 48 \<le> c \<and> c \<le> 57 then (uint c - 48) + 0
      else if 65 \<le> c \<and> c \<le> 70 then (uint c - 65) + 10
      else if 97 \<le> c \<and> c \<le> 102 then (uint c - 97) + 10
      else -1)"

text \<open>Conversion to \<^verbatim>\<open>int16_t\<close>, the type of the index of \<^verbatim>\<open>bigint_fromhex\<close>.\<close>

definition to_int16 :: "int \<Rightarrow> int" where
  "to_int16 x = (x + 32768) mod 65536 - 32768"

text \<open>The loop: \<open>Inl\<close> is a \<^verbatim>\<open>return\<close> from inside it, \<open>Inr\<close> the index at which it ended.\<close>

function fromhex_loop :: "u8 list \<Rightarrow> int \<Rightarrow> bigint \<Rightarrow> (int \<times> bigint) + (int \<times> bigint)" where
  "fromhex_loop s j i =
     (if j \<ge> 1 then
        let l = hexchar (s ! nat j); h = hexchar (s ! nat (j - 1)) in
        if l = -1 then Inl (2, i)
        else if h = -1 then Inl (2, i)
        else
          let i1 = i\<lparr>bi_data := (bi_data i)[bi_bytes i := push_bit 4 (word_of_int h) OR word_of_int l],
                     bi_bytes := (bi_bytes i + 1) mod 65536\<rparr>
          in if bi_bytes i1 \<ge> DATA_MAXLEN - 1 then Inl (1, i1)
             else fromhex_loop s (j - 2) i1
      else Inr (j, i))"
  by pat_completeness auto
termination
  by (relation "measure (\<lambda>(s, j, i). nat j)") auto

declare fromhex_loop.simps [simp del]

definition bigint_fromhex :: "bigint \<Rightarrow> u8 list \<Rightarrow> int \<times> bigint" where
  "bigint_fromhex i s =
     (let i0 = (bigint_zero i)\<lparr>bi_bits := 0\<rparr> in
      case fromhex_loop s (to_int16 (int (length s) - 1)) i0 of
        Inl r \<Rightarrow> r
      | Inr (j, i1) \<Rightarrow>
          if j = 0 then
            let l = hexchar (s ! nat j) in
            if l = -1 then (2, i1)
            else (0, i1\<lparr>bi_data := (bi_data i1)[bi_bytes i1 := word_of_int l], bi_bits := 4\<rparr>)
          else (0, i1))"

definition bigint_print :: "bigint \<Rightarrow> int \<Rightarrow> u8 list" where
  "bigint_print i sz =
     (if sz \<noteq> 0 then fmt_u (bi_bytes i) @ ascii ''.'' @ fmt_u (bi_bits i) @ ascii '' '' else []) @
     (if bi_bits i > 0 then fmt_02x (bi_data i ! bi_bytes i AND (push_bit (bi_bits i) 1 - 1)) else []) @
     concat (map (\<lambda>j. fmt_02x (bi_data i ! j)) (rev [0..<bi_bytes i]))"

text \<open>
  \<^verbatim>\<open>bigint_copy\<close> clears the target before it reads the source, which the store makes visible
  when they are the same variable.
\<close>

definition bigint_copy :: "var \<Rightarrow> var \<Rightarrow> store \<Rightarrow> store" where
  "bigint_copy d s st =
     (let st1 = st(d := \<lparr>bi_bytes = bi_bytes (st s), bi_bits = bi_bits (st s),
                         bi_data = replicate (length (bi_data (st d))) 0\<rparr>);
          n = bi_bytes (st1 d) + (if bi_bits (st1 d) > 0 then 1 else 0);
          x = (st1 d)\<lparr>bi_data := patch (bi_data (st1 d)) 0 (take n (bi_data (st1 s)))\<rparr>
      in st1(d := if bi_bits x > 0
                  then x\<lparr>bi_data := (bi_data x)[bi_bytes x :=
                           bi_data x ! bi_bytes x AND (push_bit (bi_bits x) 1 - 1)]\<rparr>
                  else x))"

definition bigint_iszero :: "bigint \<Rightarrow> bool" where
  "bigint_iszero i \<longleftrightarrow>
     (if \<exists>j \<in> set [0..<bi_bytes i]. bi_data i ! j > 0 then False
      else if bi_bits i > 0 then \<not> (bi_data i ! bi_bytes i AND (push_bit (bi_bits i) 1 - 1) > 0)
      else True)"

text \<open>
  The loops of \<^verbatim>\<open>bigint_cmp\<close>: the bits that only the longer number has, the leading bits down to
  a byte boundary, whole bytes. The index is a signed integer; \<^verbatim>\<open>/\<close> and \<^verbatim>\<open>%\<close> truncate.
\<close>

function cmp_high :: "bigint \<Rightarrow> int \<Rightarrow> int \<Rightarrow> bool \<times> int" where
  "cmp_high i lo k =
     (if k \<ge> lo then if BIT i (nat k) = 1 then (True, k) else cmp_high i lo (k - 1) else (False, k))"
  by pat_completeness auto
termination
  by (relation "measure (\<lambda>(i, lo, k). nat (k - lo + 1))") auto

function cmp_lead :: "bigint \<Rightarrow> bigint \<Rightarrow> int \<Rightarrow> int option \<times> int" where
  "cmp_lead i j k =
     (if k smod 8 \<noteq> 0 \<and> k \<ge> 0 then
        let l = BIT i (nat k); r = BIT j (nat k) in
        if l > r then (Some 1, k) else if l < r then (Some (-1), k) else cmp_lead i j (k - 1)
      else (None, k))"
  by pat_completeness auto
termination
  by (relation "measure (\<lambda>(i, j, k). nat (k + 1))") auto

function cmp_bytes :: "bigint \<Rightarrow> bigint \<Rightarrow> int \<Rightarrow> int" where
  "cmp_bytes i j k =
     (if k sdiv 8 \<ge> 0 then
        let l = bi_data i ! nat (k sdiv 8); r = bi_data j ! nat (k sdiv 8) in
        if l > r then 1 else if l < r then -1 else cmp_bytes i j (k - 8)
      else 0)"
  by pat_completeness auto
termination
  by (relation "measure (\<lambda>(i, j, k). nat (k + 8))") (auto simp: signed_divide_int_def sgn_if split: if_splits)

declare cmp_high.simps [simp del] cmp_lead.simps [simp del] cmp_bytes.simps [simp del]

definition bigint_cmp :: "bigint \<Rightarrow> bigint \<Rightarrow> int" where
  "bigint_cmp i j =
     (let (early, k) =
        (if BITS i > BITS j then
           let (f, k) = cmp_high i (int (BITS j)) (int (BITS i) - 1) in (if f then Some 1 else None, k)
         else if BITS i < BITS j then
           let (f, k) = cmp_high j (int (BITS i)) (int (BITS j) - 1) in (if f then Some (-1) else None, k)
         else (None, int (BITS i) - 1))
      in case early of
           Some r \<Rightarrow> r
         | None \<Rightarrow>
             (case cmp_lead i j k of
                (Some r, _) \<Rightarrow> r
              | (None, k) \<Rightarrow> cmp_bytes i j k))"

text \<open>
  The block that \<^verbatim>\<open>bigint_add\<close> has in its loop and again for the final carry: make room for bit
  \<open>i\<close> of the sum. \<open>Inl\<close> is the \<^verbatim>\<open>return 1\<close>.
\<close>

definition add_room :: "nat \<Rightarrow> nat \<Rightarrow> bigint \<Rightarrow> bigint + bigint" where
  "add_room i n s =
     (if i \<ge> BITS s then
        let s1 = s\<lparr>bi_bytes := n div 8 mod 65536, bi_bits := n mod 8\<rparr>
        in if bi_bytes s1 \<ge> DATA_MAXLEN - 1 then Inl s1 else Inr s1
      else Inr s)"

function add_loop :: "var \<Rightarrow> var \<Rightarrow> var \<Rightarrow> nat \<Rightarrow> nat \<Rightarrow> nat \<Rightarrow> store \<Rightarrow> store + (nat \<times> store)" where
  "add_loop s a b m i c st =
     (if i < m then
        case add_room i (i + 1) (st s) of
          Inl x \<Rightarrow> Inl (st(s := x))
        | Inr x \<Rightarrow>
            let st1 = st(s := x);
                n = (BIT (st1 a) i + BIT (st1 b) i + c) mod 256
            in if n = 3 then add_loop s a b m (i + 1) 1 (st1(s := SET_BIT i (st1 s)))
               else if n = 2 then add_loop s a b m (i + 1) 1 (st1(s := CLR_BIT i (st1 s)))
               else if n = 1 then add_loop s a b m (i + 1) 0 (st1(s := SET_BIT i (st1 s)))
               else add_loop s a b m (i + 1) 0 (st1(s := CLR_BIT i (st1 s)))
      else Inr (c, st))"
  by pat_completeness auto
termination
  by (relation "measure (\<lambda>(s, a, b, m, i, c, st). m - i)") auto

declare add_loop.simps [simp del]

definition bigint_add :: "var \<Rightarrow> var \<Rightarrow> var \<Rightarrow> store \<Rightarrow> int \<times> store" where
  "bigint_add s a b st =
     (let m = max (BITS (st a)) (BITS (st b)) in
      case add_loop s a b m 0 0 st of
        Inl st1 \<Rightarrow> (1, st1)
      | Inr (c, st1) \<Rightarrow>
          (case (if c = 1 then
                   case add_room m (m + 1) (st1 s) of
                     Inl x \<Rightarrow> Inl x
                   | Inr x \<Rightarrow> add_room m m (SET_BIT m x)
                 else Inr (st1 s)) of
             Inl x \<Rightarrow> (1, st1(s := x))
           | Inr x \<Rightarrow>
               (0, st1(s := if BITS x > m + c
                            then normalize (x\<lparr>bi_bytes := (m + c) div 8 mod 65536, bi_bits := (m + c) mod 8\<rparr>)
                            else x))))"

text \<open>
  The bound \<^verbatim>\<open>BITS(b)\<close> of this loop is read in every turn; \<open>None\<close> would be a loop that never
  ends.
\<close>

partial_function (option) mul_loop :: "var \<Rightarrow> nat \<Rightarrow> store \<Rightarrow> (int \<times> store) option" where
  "mul_loop b i st =
     (if i < BITS (st b) then
        case (if BIT (st b) i = 1 then bigint_add Mul_pt Mul_pt Mul_at st else (0, st)) of
          (rv, st1) \<Rightarrow>
            if rv > 0 then Some (rv, st1)
            else
              case LEFT_SHIFT (st1 Mul_at) of
                (rv, x) \<Rightarrow>
                  if rv = 1 then Some (1, st1(Mul_at := x))
                  else mul_loop b (i + 1) (st1(Mul_at := x))
      else Some (0, st))"

declare mul_loop.simps [code]

definition bigint_mul :: "var \<Rightarrow> var \<Rightarrow> var \<Rightarrow> store \<Rightarrow> (int \<times> store) option" where
  "bigint_mul p a b st =
     (let st1 = st(Mul_pt := bigint_zero (st Mul_pt));
          st2 = bigint_copy Mul_at a st1
      in map_option (\<lambda>(rv, st3). if rv > 0 then (rv, st3) else (0, bigint_copy p Mul_pt st3))
           (mul_loop b 0 st2))"

text \<open>The block of \<^verbatim>\<open>bigint_div\<close> that lengthens \<^verbatim>\<open>div_qt\<close> by a bit; \<open>True\<close> is the \<^verbatim>\<open>return 1\<close>.\<close>

definition qt_grow :: "bigint \<Rightarrow> bool \<times> bigint" where
  "qt_grow q =
     (let q = q\<lparr>bi_bits := (bi_bits q + 1) mod 256\<rparr>
      in if bi_bits q = 8 then
           let q = q\<lparr>bi_bytes := (bi_bytes q + 1) mod 65536, bi_bits := 0\<rparr>
           in (bi_bytes q \<ge> DATA_MAXLEN - 1, q)
         else (False, q))"

text \<open>The loop of \<^verbatim>\<open>bigint_div\<close> for the bits below \<open>n\<close>, highest first; 0 means it ran to its end.\<close>

primrec div_loop :: "var \<Rightarrow> var \<Rightarrow> nat \<Rightarrow> store \<Rightarrow> int \<times> store" where
  "div_loop a b 0 st = (0, st)"
| "div_loop a b (Suc i) st =
     (let (rv, x) = LEFT_SHIFT (st Div_rt); st1 = st(Div_rt := x) in
      if rv = 1 then (1, st1)
      else
        let x = x\<lparr>bi_data := (bi_data x)[0 := bi_data x ! 0 OR of_nat (BIT (st1 a) i)]\<rparr>;
            st2 = st1(Div_rt := x);
            (overflow, q) = qt_grow (st2 Div_qt);
            st3 = st2(Div_qt := q)
        in if overflow then (1, st3)
           else if bigint_cmp (st3 Div_rt) (st3 b) \<ge> 0 then
             let (rv, st4) = bigint_add Div_rt Div_rt Div_bc st3 in
             if rv > 0 then (rv, st4)
             else
               let st5 = (if BITS (st4 Div_rt) > BITS (st4 b)
                          then st4(Div_rt := normalize ((st4 Div_rt)\<lparr>bi_bytes := bi_bytes (st4 b),
                                                                      bi_bits := bi_bits (st4 b)\<rparr>))
                          else st4)
               in if bigint_cmp (st5 Div_rt) (st5 b) \<ge> 0 then (3, st5)
                  else div_loop a b i (st5(Div_qt := SET_BIT i (st5 Div_qt)))
           else div_loop a b i st3)"

text \<open>The temporaries before the loop: quotient and remainder zero, the negated divisor.\<close>

definition div_start :: "var \<Rightarrow> store \<Rightarrow> store" where
  "div_start b st =
     (let st1 = st(Div_qt := bigint_zero (st Div_qt));
          st2 = st1(Div_rt := bigint_zero (st1 Div_rt));
          st3 = bigint_copy Div_bc b st2
      in st3(Div_bc := TWOS_COMP (st3 Div_bc)))"

definition bigint_div :: "var option \<Rightarrow> var option \<Rightarrow> var \<Rightarrow> var \<Rightarrow> store \<Rightarrow> int \<times> store" where
  "bigint_div q r a b st =
     (if bigint_iszero (st b) then (2, st)
      else if q = r then (2, st)
      else
        let st4 = div_start b st;
            (rv, st5) = div_loop a b (BITS (st4 a)) st4
        in if rv > 0 then (rv, st5)
           else
             let st6 = (case q of None \<Rightarrow> st5
                        | Some q \<Rightarrow> bigint_copy q Div_qt (st5(Div_qt := normalize (st5 Div_qt))));
                 st7 = (case r of None \<Rightarrow> st6
                        | Some r \<Rightarrow> bigint_copy r Div_rt (st6(Div_rt := normalize (st6 Div_rt))))
             in (0, st7))"

text \<open>
  A call in \<^verbatim>\<open>if ((rv = f(...)) > 0) return rv;\<close>: go on only after 0.
\<close>

definition on_success :: "(int \<times> store) option \<Rightarrow> (store \<Rightarrow> (int \<times> store) option) \<Rightarrow> (int \<times> store) option" where
  "on_success r k = Option.bind r (\<lambda>(rv, st). if rv > 0 then Some (rv, st) else k st)"

primrec expmod_loop :: "var \<Rightarrow> var \<Rightarrow> nat \<Rightarrow> store \<Rightarrow> (int \<times> store) option" where
  "expmod_loop b c 0 st = Some (0, st)"
| "expmod_loop b c (Suc i) st =
     on_success (bigint_mul Expmod_xt Expmod_xt Expmod_xt st) (\<lambda>st.
     on_success (Some (bigint_div None (Some Expmod_xt) Expmod_xt c st)) (\<lambda>st.
       if BIT (st b) i = 1 then
         on_success (bigint_mul Expmod_xt Expmod_xt Expmod_r st) (\<lambda>st.
         on_success (Some (bigint_div None (Some Expmod_xt) Expmod_xt c st)) (\<lambda>st.
           expmod_loop b c i st))
       else expmod_loop b c i st))"

definition bigint_expmod :: "var \<Rightarrow> var \<Rightarrow> var \<Rightarrow> var \<Rightarrow> store \<Rightarrow> (int \<times> store) option" where
  "bigint_expmod x a b c st =
     (let st1 = st(Expmod_xt := SET_BIT 0 (bigint_zero (st Expmod_xt))) in
      on_success (Some (bigint_div None (Some Expmod_r) a c st1)) (\<lambda>st2.
      on_success (expmod_loop b c (BITS (st2 b)) st2) (\<lambda>st3.
        Some (0, bigint_copy x Expmod_xt st3))))"

section \<open>Abstraction\<close>

definition bval :: "bigint \<Rightarrow> nat" where
  "bval i = take_bit (BITS i) (le_val (bi_data i))"

definition bi_wf :: "bigint \<Rightarrow> bool" where
  "bi_wf i \<longleftrightarrow> length (bi_data i) = 150 \<and> bi_bits i < 8 \<and> BITS i < 1192"

definition bi_clean :: "bigint \<Rightarrow> bool" where
  "bi_clean i \<longleftrightarrow> le_val (bi_data i) < 2 ^ BITS i"

section \<open>Bits and bytes\<close>

abbreviation dval :: "bigint \<Rightarrow> nat" where
  "dval i \<equiv> le_val (bi_data i)"

lemma bit_nat_ge: "bit (a :: nat) n \<Longrightarrow> 2 ^ n \<le> a"
  by (metis bit_take_bit_iff less_irrefl not_le take_bit_nat_eq_self_iff)

lemma bit_nat_less: "a < 2 ^ n \<Longrightarrow> bit (a :: nat) k \<Longrightarrow> k < n"
  by (metis bit_take_bit_iff take_bit_nat_eq_self_iff)

lemma nat_less_exp_bits: "(a :: nat) < 2 ^ n \<longleftrightarrow> (\<forall>k. bit a k \<longrightarrow> k < n)"
proof
  assume "\<forall>k. bit a k \<longrightarrow> k < n"
  then have "take_bit n a = a" by (intro bit_eqI) (auto simp: bit_take_bit_iff)
  then show "a < 2 ^ n" by (simp add: take_bit_nat_eq_self_iff)
qed (use bit_nat_less in blast)

lemma unat_bit_and_1: "unat (drop_bit k (w :: u8) AND 1) = of_bool (bit w k)"
  by (cases "bit w k") (simp_all add: and_one_eq bit_iff_odd_drop_bit odd_iff_mod_2_eq_one)

lemma mask_u8: "k \<le> 8 \<Longrightarrow> push_bit k 1 - 1 = (mask k :: u8)"
  by (simp add: mask_eq_exp_minus_1)

lemma u8_nonzero_bit: "(b :: u8) \<noteq> 0 \<Longrightarrow> \<exists>r < 8. bit b r"
  using bit_word_eqI [of b 0] by auto

lemma bit_byte_bound: "bit (b :: u8) r \<Longrightarrow> r < 8"
  using bit_imp_le_length [of b r] by simp

lemma byte_ge:
  assumes "k < length d" "d ! k \<noteq> (0 :: u8)"
  shows "2 ^ (8 * k) \<le> le_val d"
proof -
  obtain r where r: "r < 8" "bit (d ! k) r" using u8_nonzero_bit [OF assms(2)] by blast
  then have "bit (le_val d) (8 * k + r)" using assms(1) by (simp add: bit_le_val)
  then have "2 ^ (8 * k + r) \<le> le_val d" by (rule bit_nat_ge)
  moreover have "(2 :: nat) ^ (8 * k) \<le> 2 ^ (8 * k + r)" by (intro power_increasing) simp_all
  ultimately show ?thesis by linarith
qed

lemma BIT_bval:
  assumes "bi_wf i"
  shows "BIT i n = of_bool (bit (bval i) n)"
proof -
  have "n < BITS i \<Longrightarrow> n div 8 < 150" using assms unfolding bi_wf_def by linarith
  then show ?thesis
    using assms unfolding BIT_def bval_def unat_bit_and_1
    by (auto simp: bit_take_bit_iff bit_le_val bi_wf_def)
qed

lemma SET_BIT_simps [simp]:
  "BITS (SET_BIT n i) = BITS i" "bi_bits (SET_BIT n i) = bi_bits i" "bi_bytes (SET_BIT n i) = bi_bytes i"
  "length (bi_data (SET_BIT n i)) = length (bi_data i)"
  by (simp_all add: SET_BIT_def BITS_def)

lemma CLR_BIT_simps [simp]:
  "BITS (CLR_BIT n i) = BITS i" "bi_bits (CLR_BIT n i) = bi_bits i" "bi_bytes (CLR_BIT n i) = bi_bytes i"
  "length (bi_data (CLR_BIT n i)) = length (bi_data i)"
  by (simp_all add: CLR_BIT_def BITS_def)

lemma div_mod_8_eq: "(m :: nat) = n \<longleftrightarrow> m div 8 = n div 8 \<and> m mod 8 = n mod 8"
  by (metis div_mult_mod_eq)

lemma bit_SET_BIT:
  assumes "n < BITS i" "BITS i \<le> 8 * length (bi_data i)"
  shows "bit (dval (SET_BIT n i)) k \<longleftrightarrow> k = n \<or> bit (dval i) k"
proof -
  have n: "n div 8 < length (bi_data i)" using assms by (simp add: less_mult_imp_div_less mult.commute)
  have 8: "n mod 8 < 8" "k mod 8 < 8" by simp_all
  show ?thesis
    using assms(1) n 8 div_mod_8_eq [of k n]
    by (auto simp: SET_BIT_def bit_le_val nth_list_update bit_simps)
qed

lemma bit_CLR_BIT:
  assumes "n < BITS i" "BITS i \<le> 8 * length (bi_data i)"
  shows "bit (dval (CLR_BIT n i)) k \<longleftrightarrow> k \<noteq> n \<and> bit (dval i) k"
proof -
  have n: "n div 8 < length (bi_data i)" using assms by (simp add: less_mult_imp_div_less mult.commute)
  have 8: "n mod 8 < 8" "k mod 8 < 8" by simp_all
  show ?thesis
    using assms(1) n 8 div_mod_8_eq [of k n]
    by (auto simp: CLR_BIT_def bit_le_val nth_list_update bit_simps)
qed

lemma dval_trim:
  assumes "length d = 150" "length d' = 150" "m \<le> 8"
    and "\<And>k. k < 150 \<Longrightarrow> d' ! k = (if k < n then d ! k else if k = n then d ! k AND mask m else 0)"
  shows "le_val d' = take_bit (n * 8 + m) (le_val d)"
proof (rule bit_eqI)
  fix k
  consider "k div 8 < n" | "k div 8 = n" | "k div 8 > n" by linarith
  then show "bit (le_val d') k \<longleftrightarrow> bit (take_bit (n * 8 + m) (le_val d)) k"
  proof cases
    case 1
    then have "k < n * 8 + m" by linarith
    then show ?thesis using 1 assms by (auto simp: bit_le_val bit_take_bit_iff)
  next
    case 2
    then have "k < n * 8 + m \<longleftrightarrow> k mod 8 < m" using div_mult_mod_eq [of k 8] by linarith
    then show ?thesis using 2 assms by (auto simp: bit_le_val bit_take_bit_iff bit_simps)
  next
    case 3
    then have "\<not> k < n * 8 + m" using assms(3) by linarith
    then show ?thesis using 3 assms by (auto simp: bit_le_val bit_take_bit_iff)
  qed
qed

section \<open>Size and value\<close>

lemma bval_less: "bval i < 2 ^ BITS i"
  by (simp add: bval_def)

lemma bval_clean: "bi_clean i \<Longrightarrow> bval i = dval i"
  by (simp add: bval_def bi_clean_def take_bit_nat_eq_self)

lemma nth_patch_zeros:
  assumes "u \<le> length d" "k < length d"
  shows "patch d u (replicate (length d - u) 0) ! k = (if k < u then d ! k else 0)"
  using assms by (simp add: nth_patch)

lemma wf_bytes: "bi_wf i \<Longrightarrow> bi_bytes i \<le> 148"
  by (simp add: bi_wf_def BITS_def)

lemma wf_top_index: "bi_wf i \<Longrightarrow> bi_bytes i < length (bi_data i)"
  using wf_bytes [of i] by (simp add: bi_wf_def)

lemma norm_top:
  "norm_top d n \<le> n" "\<And>k. norm_top d n \<le> k \<Longrightarrow> k < n \<Longrightarrow> d ! k = 0"
  "0 < norm_top d n \<Longrightarrow> d ! (norm_top d n - 1) \<noteq> 0"
  by (induction n) (auto simp: le_Suc_eq less_Suc_eq split: if_splits)

text \<open>The first half of \<^verbatim>\<open>normalize\<close>, which clears what is above the recorded size.\<close>

definition trimmed :: "bigint \<Rightarrow> u8 list" where
  "trimmed i =
     (let u = bi_bytes i + (if bi_bits i > 0 then 1 else 0);
          d = (if bi_bits i > 0
               then (bi_data i)[bi_bytes i := bi_data i ! bi_bytes i AND (push_bit (bi_bits i) 1 - 1)]
               else bi_data i)
      in patch d u (replicate (150 - u) 0))"

lemma trimmed:
  assumes "bi_wf i"
  shows "length (trimmed i) = 150" "le_val (trimmed i) = bval i"
proof -
  have u: "bi_bytes i + (if bi_bits i > 0 then 1 else 0) \<le> 150" and l: "length (bi_data i) = 150"
    and b: "bi_bits i < 8" using assms wf_bytes [of i] by (auto simp: bi_wf_def)
  show len: "length (trimmed i) = 150" using u l by (simp add: trimmed_def Let_def)
  show "le_val (trimmed i) = bval i"
    unfolding bval_def BITS_def
  proof (rule dval_trim [OF l len])
    fix k :: nat assume k: "k < 150"
    show "trimmed i ! k = (if k < bi_bytes i then bi_data i ! k
        else if k = bi_bytes i then bi_data i ! k AND mask (bi_bits i) else 0)"
      using u l b k wf_bytes [OF assms]
      by (auto simp: trimmed_def Let_def nth_patch mask_u8 [symmetric])
  qed (use b in simp)
qed

lemma top_mask_nonzero:
  assumes "bi_wf i" "bi_bits i > 0"
  shows "trimmed i ! bi_bytes i AND (push_bit (bi_bits i) 1 - 1) = trimmed i ! bi_bytes i"
proof -
  have "trimmed i ! bi_bytes i = bi_data i ! bi_bytes i AND (push_bit (bi_bits i) 1 - 1)"
    using assms wf_bytes [of i] by (auto simp: trimmed_def Let_def nth_patch bi_wf_def)
  then show ?thesis by simp
qed

lemma normalize_unfold:
  assumes "bi_wf i"
  shows "normalize i =
    (if bi_bits i > 0 \<and> trimmed i ! bi_bytes i \<noteq> 0 then i\<lparr>bi_data := trimmed i\<rparr>
     else let n = norm_top (trimmed i) (bi_bytes i)
          in i\<lparr>bi_data := trimmed i, bi_bytes := n, bi_bits := if n = 0 then 1 else 0\<rparr>)"
  using top_mask_nonzero [OF assms]
  by (cases "bi_bits i > 0") (simp_all add: normalize_def Let_def trimmed_def)

lemma normalize:
  assumes "bi_wf i"
  shows "bi_wf (normalize i)" "bi_clean (normalize i)" "dval (normalize i) = bval i"
    "BITS (normalize i) \<le> max 1 (BITS i)"
    "bval i < 2 ^ t \<Longrightarrow> BITS (normalize i) \<le> t + 7"
proof -
  define n where "n = norm_top (trimmed i) (bi_bytes i)"
  note t = trimmed [OF assms] and n_le = norm_top(1) [of "trimmed i" "bi_bytes i", folded n_def]
  have n0: "trimmed i ! k = 0" if "n \<le> k" "k < bi_bytes i" for k
    using norm_top(2) [of "trimmed i" "bi_bytes i" k] that by (simp add: n_def)
  have nz: "trimmed i ! (n - 1) \<noteq> 0" if "0 < n"
    using norm_top(3) [of "trimmed i" "bi_bytes i"] that by (simp add: n_def)
  note b = wf_bytes [OF assms]
  show d: "dval (normalize i) = bval i"
    using assms t by (simp add: normalize_unfold Let_def)
  have "bi_wf (normalize i) \<and> dval (normalize i) < 2 ^ BITS (normalize i) \<and> BITS (normalize i) \<le> max 1 (BITS i)
      \<and> (bval i < 2 ^ t \<longrightarrow> BITS (normalize i) \<le> t + 7)"
  proof (cases "bi_bits i > 0 \<and> trimmed i ! bi_bytes i \<noteq> 0")
    case True
    have "2 ^ (8 * bi_bytes i) \<le> bval i"
      using byte_ge [of "bi_bytes i" "trimmed i"] True b t by simp
    then have "bval i < 2 ^ t \<longrightarrow> 8 * bi_bytes i < t"
      by (metis order_le_less_trans one_less_numeral_iff power_less_imp_less_exp semiring_norm(76))
    then show ?thesis
      using True assms t bval_less [of i] by (auto simp: normalize_unfold bi_wf_def BITS_def)
  next
    case False
    have top: "trimmed i ! k = 0" if "n \<le> k" "k < 150" for k
    proof -
      have "trimmed i ! k = 0" if "bi_bytes i < k" "k < 150"
        using that assms b by (auto simp: trimmed_def Let_def nth_patch bi_wf_def)
      moreover have "trimmed i ! bi_bytes i = 0"
        using False assms b by (auto simp: trimmed_def Let_def nth_patch bi_wf_def)
      ultimately show ?thesis using n0 that by (metis linorder_cases)
    qed
    have "le_val (trimmed i) < 2 ^ (n * 8)"
      unfolding nat_less_exp_bits
    proof (intro allI impI)
      fix k assume "bit (le_val (trimmed i)) k"
      then have "k div 8 < 150" "trimmed i ! (k div 8) \<noteq> 0" using t(1) by (auto simp: bit_le_val)
      with top [of "k div 8"] have "k div 8 < n" by (meson not_le)
      then show "k < n * 8" by linarith
    qed
    moreover have "bval i < 2 ^ t \<longrightarrow> 0 < n \<longrightarrow> 8 * (n - 1) < t"
    proof (intro impI)
      assume l: "bval i < 2 ^ t" and "0 < n"
      then have "2 ^ (8 * (n - 1)) \<le> bval i"
        using byte_ge [of "n - 1" "trimmed i"] nz b n_le t by simp
      then have "(2::nat) ^ (8 * (n - 1)) < 2 ^ t" using l by linarith
      then show "8 * (n - 1) < t" by (simp only: power_strict_increasing_iff one_less_numeral_iff semiring_norm(76))
    qed
    ultimately show ?thesis
      using False assms t n_le
      by (cases "n = 0") (auto simp: normalize_unfold n_def [symmetric] Let_def bi_wf_def BITS_def)
  qed
  then show "bi_wf (normalize i)" "bi_clean (normalize i)" "BITS (normalize i) \<le> max 1 (BITS i)"
    "bval i < 2 ^ t \<Longrightarrow> BITS (normalize i) \<le> t + 7"
    by (simp_all add: bi_clean_def)
qed

text \<open>The size of a normalised number is that of its value in whole bytes, or less.\<close>

definition bi_tight :: "bigint \<Rightarrow> bool" where
  "bi_tight i \<longleftrightarrow> (\<forall>k > 0. bval i < 2 ^ (8 * k) \<longrightarrow> BITS i \<le> 8 * k)"

lemma normalize_tight:
  assumes "bi_wf i"
  shows "bi_tight (normalize i)"
  unfolding bi_tight_def
proof (intro allI impI)
  fix k :: nat
  assume k: "0 < k" and "bval (normalize i) < 2 ^ (8 * k)"
  then have v: "bval i < 2 ^ (8 * k)" using normalize(2,3) [OF assms] by (simp add: bval_clean)
  have small: "j < k" if "j < 150" "trimmed i ! j \<noteq> 0" for j
  proof -
    have "2 ^ (8 * j) \<le> bval i" using byte_ge [of j "trimmed i"] that trimmed [OF assms] by simp
    then have "(2 :: nat) ^ (8 * j) < 2 ^ (8 * k)" using v by linarith
    then show ?thesis by (simp add: power_strict_increasing_iff)
  qed
  note b = wf_bytes [OF assms]
  show "BITS (normalize i) \<le> 8 * k"
  proof (cases "bi_bits i > 0 \<and> trimmed i ! bi_bytes i \<noteq> 0")
    case True
    then have "bi_bytes i < k" using small b by simp
    moreover have "bi_bits i < 8" using assms by (simp add: bi_wf_def)
    ultimately show ?thesis using True by (simp add: normalize_unfold [OF assms] BITS_def)
  next
    case False
    define n where "n = norm_top (trimmed i) (bi_bytes i)"
    have "n \<le> k"
    proof (cases "n = 0")
      case False
      then have "n - 1 < 150" "trimmed i ! (n - 1) \<noteq> 0" using norm_top(1,3) [of "trimmed i" "bi_bytes i"] b by (simp_all add: n_def)
      then show ?thesis using small [of "n - 1"] by simp
    qed simp
    then show ?thesis using False k by (auto simp: normalize_unfold [OF assms] Let_def BITS_def simp flip: n_def)
  qed
qed

lemma bigint_zero [simp]:
  assumes "length (bi_data i) = 150"
  shows "bi_wf (bigint_zero i)" "bi_clean (bigint_zero i)" "BITS (bigint_zero i) = 1"
    "bval (bigint_zero i) = 0" "bi_data (bigint_zero i) = replicate 150 0"
    "bi_bytes (bigint_zero i) = 0" "bi_bits (bigint_zero i) = 1"
  using assms by (simp_all add: bigint_zero_def bi_wf_def bi_clean_def BITS_def bval_def)

lemma bigint_copy:
  assumes "d \<noteq> s" "bi_wf (st s)" "length (bi_data (st d)) = 150"
  shows "bi_wf (bigint_copy d s st d)" "bi_clean (bigint_copy d s st d)"
    "BITS (bigint_copy d s st d) = BITS (st s)" "bval (bigint_copy d s st d) = bval (st s)"
    "v \<noteq> d \<Longrightarrow> bigint_copy d s st v = st v"
    "bi_bytes (bigint_copy d s st d) = bi_bytes (st s)" "bi_bits (bigint_copy d s st d) = bi_bits (st s)"
proof -
  define x where "x = bigint_copy d s st d"
  note b = wf_bytes [OF assms(2)]
  have w: "length (bi_data (st s)) = 150" "bi_bits (st s) < 8" using assms(2) by (auto simp: bi_wf_def)
  have f: "bi_bytes x = bi_bytes (st s)" "bi_bits x = bi_bits (st s)"
    by (simp_all add: x_def bigint_copy_def Let_def)
  have l: "length (bi_data x) = 150" using assms w b by (simp add: x_def bigint_copy_def Let_def)
  have "le_val (bi_data x) = take_bit (bi_bytes (st s) * 8 + bi_bits (st s)) (le_val (bi_data (st s)))"
  proof (rule dval_trim [OF w(1) l])
    fix k :: nat assume "k < 150"
    then show "bi_data x ! k = (if k < bi_bytes (st s) then bi_data (st s) ! k
        else if k = bi_bytes (st s) then bi_data (st s) ! k AND mask (bi_bits (st s)) else 0)"
      using assms w b by (auto simp: x_def bigint_copy_def Let_def nth_patch mask_u8 [symmetric])
  qed (use w in simp)
  then have d: "dval x = bval (st s)" by (simp add: bval_def BITS_def)
  have B: "BITS x = BITS (st s)" by (simp add: BITS_def f)
  show "bi_wf (bigint_copy d s st d)" using assms(2) l f B by (simp add: bi_wf_def flip: x_def)
  show "bi_clean (bigint_copy d s st d)" using d B bval_less [of "st s"] by (simp add: bi_clean_def flip: x_def)
  then show "bval (bigint_copy d s st d) = bval (st s)" using d by (simp add: bval_clean flip: x_def)
  show "BITS (bigint_copy d s st d) = BITS (st s)" using B by (simp flip: x_def)
  show "v \<noteq> d \<Longrightarrow> bigint_copy d s st v = st v" by (simp add: bigint_copy_def Let_def)
  show "bi_bytes (bigint_copy d s st d) = bi_bytes (st s)" "bi_bits (bigint_copy d s st d) = bi_bits (st s)"
    using f by (simp_all flip: x_def)
qed

lemma bigint_iszero:
  assumes "bi_wf i"
  shows "bigint_iszero i \<longleftrightarrow> bval i = 0"
proof -
  have k: "trimmed i ! k = (if k < bi_bytes i then bi_data i ! k
        else if k = bi_bytes i \<and> bi_bits i > 0 then bi_data i ! k AND (push_bit (bi_bits i) 1 - 1) else 0)"
    if "k < 150" for k
    using that assms wf_bytes [OF assms] by (auto simp: trimmed_def Let_def nth_patch bi_wf_def)
  show ?thesis
  proof
    assume z: "bigint_iszero i"
    have "trimmed i ! k = 0" if "k < 150" for k
      using z k [OF that] by (auto simp: bigint_iszero_def word_gt_0 split: if_splits)
    then have "\<not> bit (le_val (trimmed i)) n" for n
      using trimmed(1) [OF assms] by (auto simp: bit_le_val)
    then show "bval i = 0" using trimmed(2) [OF assms] by (intro bit_eqI) simp
  next
    assume z: "bval i = 0"
    have t: "trimmed i ! k = 0" if "k < 150" for k
      using byte_ge [of k "trimmed i"] trimmed [OF assms] z that by auto
    have "bi_data i ! j = 0" if "j < bi_bytes i" for j
      using t [of j] k [of j] that wf_bytes [OF assms] by simp
    moreover have "bi_data i ! bi_bytes i AND (push_bit (bi_bits i) 1 - 1) = 0" if "bi_bits i > 0"
      using t [of "bi_bytes i"] k [of "bi_bytes i"] that wf_bytes [OF assms] by simp
    ultimately show "bigint_iszero i" by (auto simp: bigint_iszero_def word_gt_0)
  qed
qed

lemma shift_fold:
  assumes "n \<le> length d"
  defines "r \<equiv> fold (\<lambda>j (d, lb). (d[j := push_bit 1 (d ! j) OR lb], drop_bit 7 (d ! j) AND 1)) [0..<n] (d, 0 :: u8)"
  shows "length (fst r) = length d \<and>
    (\<forall>k < length d. fst r ! k = (if k < n then push_bit 1 (d ! k) OR (if k = 0 then 0 else drop_bit 7 (d ! (k - 1)) AND 1)
                      else d ! k)) \<and>
    snd r = (if n = 0 then 0 else drop_bit 7 (d ! (n - 1)) AND 1)"
  using assms(1) unfolding r_def
proof (induction n)
  case (Suc n)
  then show ?case by (auto simp: case_prod_beta nth_list_update less_Suc_eq)
qed simp

lemma bit_shift_byte0:
  "bit (push_bit 1 a OR 0) r \<longleftrightarrow> r < 8 \<and> 0 < r \<and> bit a (r - 1)" for a :: u8
  unfolding or.right_neutral bit_push_bit_iff by auto

lemma bit_shift_byte:
  "bit (push_bit 1 a OR (drop_bit 7 b AND 1)) r \<longleftrightarrow> r < 8 \<and> (if r = 0 then bit b 7 else bit a (r - 1))" for a b :: u8
proof -
  have "bit (drop_bit 7 b AND 1) r \<longleftrightarrow> r = 0 \<and> bit b 7"
    by (auto simp: bit_and_iff bit_1_iff bit_drop_bit_eq)
  then show ?thesis unfolding bit_or_iff using bit_shift_byte0 [of a r] by auto
qed

lemma pred_div_mod_8:
  "0 < m \<Longrightarrow> m mod 8 = 0 \<Longrightarrow> (m - 1) div 8 = m div 8 - 1 \<and> (m - 1) mod 8 = 7 \<and> 0 < m div 8"
  "m mod 8 \<noteq> 0 \<Longrightarrow> 0 < m \<and> (m - 1) div 8 = m div 8 \<and> (m - 1) mod 8 = m mod 8 - 1" for m :: nat
proof -
  assume "0 < m" "m mod 8 = 0"
  then obtain k where "m = 8 * Suc k" by (metis mod_0_imp_dvd dvd_def mult_0_right not0_implies_Suc not_gr0)
  then show "(m - 1) div 8 = m div 8 - 1 \<and> (m - 1) mod 8 = 7 \<and> 0 < m div 8" by simp
next
  assume a: "m mod 8 \<noteq> 0"
  define q r where "q = m div 8" and "r = m mod 8"
  then have m: "m = 8 * q + r" "0 < r" "r < 8" using a by simp_all
  have "m - 1 = 8 * q + (r - 1)" "r - 1 < 8" using m by simp_all
  then have "(m - 1) div 8 = q" "(m - 1) mod 8 = r - 1" by simp_all
  moreover have "0 < m" using a by (cases m) auto
  ultimately show "0 < m \<and> (m - 1) div 8 = m div 8 \<and> (m - 1) mod 8 = m mod 8 - 1"
    unfolding q_def [symmetric] r_def [symmetric] by blast
qed

lemma high_bytes_zero:
  assumes "le_val d < 2 ^ (8 * n + 7)" "n < k" "k < length d"
  shows "d ! k = 0"
proof (rule ccontr)
  assume "d ! k \<noteq> 0"
  then have "(2::nat) ^ (8 * k) < 2 ^ (8 * n + 7)" using byte_ge [of k d] assms by (meson le_less_trans)
  then show False using assms(2) by (simp only: power_strict_increasing_iff one_less_numeral_iff semiring_norm(76))
qed

text \<open>The bytes of a shifted number: every byte takes the top bit of the one below it.\<close>
definition shifted_from :: "u8 list \<Rightarrow> nat \<Rightarrow> u8 \<Rightarrow> bool" where
  "shifted_from d k w \<longleftrightarrow>
    (\<forall>r. bit w r \<longleftrightarrow> r < 8 \<and> (if r = 0 then 0 < k \<and> bit (d ! (k - 1)) 7 else bit (d ! k) (r - 1)))"

lemma bit_shifted:
  assumes "m div 8 < length d" "length e = length d" "shifted_from d (m div 8) (e ! (m div 8))"
  shows "bit (le_val e) m \<longleftrightarrow> 0 < m \<and> bit (le_val d) (m - 1)"
proof (cases "m mod 8 = 0")
  case 0: True
  have e: "(m - 1) div 8 = m div 8 - 1 \<and> (m - 1) mod 8 = 7 \<and> 0 < m div 8" if "0 < m"
    using pred_div_mod_8(1) [OF that 0] .
  have "bit (le_val e) m \<longleftrightarrow> 0 < m div 8 \<and> bit (d ! (m div 8 - 1)) 7"
    using 0 assms by (simp add: bit_le_val shifted_from_def)
  also have "\<dots> \<longleftrightarrow> 0 < m \<and> bit (le_val d) (m - 1)"
    using e 0 assms(1) by (cases "m = 0") (auto simp: bit_le_val)
  finally show ?thesis .
next
  case False
  then have "0 < m" "(m - 1) div 8 = m div 8" "(m - 1) mod 8 = m mod 8 - 1"
    using pred_div_mod_8(2) [of m] by simp_all
  then show ?thesis using False assms by (simp add: bit_le_val shifted_from_def)
qed

lemma le_val_shifted:
  assumes "le_val d < 2 ^ (8 * n + 7)" "n < length d" "length e = length d"
    and "\<And>k. k \<le> n \<Longrightarrow> shifted_from d k (e ! k)" "\<And>k. n < k \<Longrightarrow> k < length d \<Longrightarrow> e ! k = d ! k"
  shows "le_val e = 2 * le_val d"
proof (rule bit_eqI)
  fix m
  have "bit (le_val e) m \<longleftrightarrow> 0 < m \<and> bit (le_val d) (m - 1)"
  proof (cases "m div 8 \<le> n")
    case True
    then show ?thesis using assms by (intro bit_shifted) simp_all
  next
    case False
    have "\<not> bit (le_val e) m"
      using False assms(3,5) high_bytes_zero [OF assms(1), of "m div 8"] by (auto simp: bit_le_val)
    moreover have "\<not> bit (le_val d) (m - 1)" using False bit_nat_less [OF assms(1), of "m - 1"] by auto
    ultimately show ?thesis by simp
  qed
  then show "bit (le_val e) m \<longleftrightarrow> bit (2 * le_val d) m" by (cases m) (simp_all add: bit_double_iff)
qed

lemma LEFT_SHIFT:
  assumes "bi_wf i" "bi_clean i" "LEFT_SHIFT i = (rv, x)"
  shows "BITS x = BITS i + 1" "bi_bits x < 8" "length (bi_data x) = 150" "dval x = 2 * dval i"
    "rv = (if BITS i + 1 < 1192 then 0 else 1)" "bi_clean x" "BITS i + 1 < 1192 \<Longrightarrow> bi_wf x"
proof -
  define n where "n = bi_bytes i"
  define r where "r = fold (\<lambda>j (d, lb). (d[j := push_bit 1 (d ! j) OR lb], drop_bit 7 (d ! j) AND 1))
                      [0..<n] (bi_data i, 0 :: u8)"
  define d where "d = (fst r)[n := push_bit 1 (fst r ! n) OR snd r]"
  have w: "length (bi_data i) = 150" "bi_bits i < 8" "n \<le> 148" "BITS i < 1192"
    using assms(1) wf_bytes [OF assms(1)] by (auto simp: bi_wf_def n_def)
  have "n \<le> length (bi_data i)" using w by simp
  note sf = shift_fold [OF this, folded r_def]
  have dk: "d ! k = (if k \<le> n then push_bit 1 (bi_data i ! k) OR (if k = 0 then 0 else drop_bit 7 (bi_data i ! (k - 1)) AND 1)
                      else bi_data i ! k)" if "k < 150" for k
    using sf that w by (auto simp: d_def nth_list_update)
  have sh: "shifted_from (bi_data i) k (d ! k)" if "k \<le> n" for k
  proof -
    have k: "k < 150" using that w by simp
    show ?thesis unfolding shifted_from_def dk [OF k] if_P [OF that]
      by (cases "k = 0") (simp_all only: bit_shift_byte bit_shift_byte0 if_True if_False simp_thms, auto)
  qed
  have ld: "length d = 150" using sf w by (simp add: d_def)
  have x: "LEFT_SHIFT i = (if bi_bits i + 1 = 8 then (if n + 1 \<ge> 149 then 1 else 0,
       i\<lparr>bi_data := d, bi_bytes := n + 1, bi_bits := 0\<rparr>) else (0, i\<lparr>bi_data := d, bi_bits := bi_bits i + 1\<rparr>))"
    using w by (simp add: LEFT_SHIFT_def Let_def case_prod_beta d_def r_def n_def)
  have "dval i < 2 ^ BITS i" using assms(2) by (simp add: bi_clean_def)
  also have "\<dots> \<le> 2 ^ (8 * n + 7)" using w(2) by (intro power_increasing) (simp_all add: BITS_def n_def)
  finally have dv: "le_val d = 2 * dval i" by (rule le_val_shifted [OF _ _ _ sh]) (use w ld in \<open>simp_all add: dk\<close>)
  show "BITS x = BITS i + 1" "bi_bits x < 8" "length (bi_data x) = 150" "dval x = 2 * dval i"
    "rv = (if BITS i + 1 < 1192 then 0 else 1)"
    using assms(3) x w ld dv by (auto simp: BITS_def n_def split: if_splits)
  then show "bi_clean x" "BITS i + 1 < 1192 \<Longrightarrow> bi_wf x" using assms(2) by (simp_all add: bi_clean_def bi_wf_def)
qed

lemma invert_fold:
  assumes "n \<le> length d"
  shows "length (fold (\<lambda>j d. d[j := NOT (d ! j)]) [0..<n] d) = length d \<and>
    (\<forall>k < length d. fold (\<lambda>j d. d[j := NOT (d ! j)]) [0..<n] d ! k = (if k < n then NOT (d ! k) else (d ! k :: u8)))"
  using assms by (induction n) (auto simp: nth_list_update less_Suc_eq)

lemma clr_fold:
  assumes "BITS i \<le> 8 * length (bi_data i)" "\<forall>l \<in> set ls. l < BITS i"
  shows "BITS (fold CLR_BIT ls i) = BITS i" "bi_bits (fold CLR_BIT ls i) = bi_bits i"
    "length (bi_data (fold CLR_BIT ls i)) = length (bi_data i)"
    "bit (dval (fold CLR_BIT ls i)) k \<longleftrightarrow> k \<notin> set ls \<and> bit (dval i) k"
  using assms by (induction ls arbitrary: i) (auto simp: bit_CLR_BIT)

lemma carry_value:
  fixes a c :: nat
  assumes "\<forall>l < k. bit a l" "\<not> bit a k" and c: "\<And>l. bit c l \<longleftrightarrow> (if l < k then False else if l = k then True else bit a l)"
  shows "c = a + 1"
proof -
  have "take_bit (Suc k) a = mask k"
    by (rule bit_eqI) (use assms in \<open>auto simp: bit_take_bit_iff bit_mask_iff less_Suc_eq\<close>)
  moreover have "take_bit (Suc k) c = 2 ^ k"
    by (rule bit_eqI) (use c in \<open>auto simp: bit_take_bit_iff bit_exp_iff\<close>)
  moreover have "drop_bit (Suc k) c = drop_bit (Suc k) a"
    by (rule bit_eqI) (use c in \<open>auto simp: bit_drop_bit_eq\<close>)
  moreover have "(mask k :: nat) + 1 = 2 ^ k" by (simp add: mask_eq_exp_minus_1)
  ultimately show ?thesis
    using bits_ident [of "Suc k" c] bits_ident [of "Suc k" a] by (metis add.assoc)
qed

lemma twos_carry:
  assumes "bi_wf i" "bi_clean i" "\<forall>l < k. bit (dval i) l" "k \<le> BITS i" "r = twos_carry (BITS i) k i"
  shows "bi_wf r \<and> bi_clean r \<and> BITS r = BITS i \<and> dval r = (if dval i = mask (BITS i) then dval i else dval i + 1)"
  using assms(3-5)
proof (induction "BITS i - k" arbitrary: k)
  case 0
  then have "k = BITS i" by simp
  then have "dval i = mask (BITS i)"
    using 0 assms(2) by (intro bit_eqI) (auto simp: bit_mask_iff bi_clean_def dest: bit_nat_less)
  moreover have "r = i" using 0 by (simp add: twos_carry.simps)
  ultimately show ?case using assms by simp
next
  case (Suc x)
  then have k: "k < BITS i" by simp
  have B: "BIT i k = of_bool (bit (dval i) k)" using BIT_bval [OF assms(1)] bval_clean [OF assms(2)] by simp
  show ?case
  proof (cases "bit (dval i) k")
    case True
    have "r = twos_carry (BITS i) (k + 1) i" using Suc.prems k B True by (simp add: twos_carry.simps [of _ k])
    moreover have "\<forall>l < k + 1. bit (dval i) l" using Suc.prems True by (simp add: less_Suc_eq)
    ultimately show ?thesis using Suc.hyps(1) [of "k + 1"] Suc.hyps(2) k by simp
  next
    case False
    have r: "r = fold CLR_BIT (rev [0..<k]) (SET_BIT k i)"
      using Suc.prems k B False by (simp add: twos_carry.simps [of _ k])
    have w: "BITS i \<le> 8 * length (bi_data i)" using assms(1) by (auto simp: bi_wf_def)
    have f: "BITS r = BITS i" "bi_bits r = bi_bits i" "length (bi_data r) = length (bi_data i)"
      "\<And>l. bit (dval r) l \<longleftrightarrow> l \<notin> set (rev [0..<k]) \<and> bit (dval (SET_BIT k i)) l"
      unfolding r using clr_fold [of "SET_BIT k i" "rev [0..<k]"] w k by simp_all
    have bits: "bit (dval r) l \<longleftrightarrow> (if l < k then False else if l = k then True else bit (dval i) l)" for l
      using bit_SET_BIT [OF k w] unfolding f(4) by auto
    then have "dval r = dval i + 1" using carry_value [of k "dval i" "dval r"] Suc.prems(1) False by blast
    moreover have "dval i \<noteq> mask (BITS i)" using False k by (metis bit_mask_iff possible_bit_nat)
    moreover have "dval r < 2 ^ BITS r"
      unfolding nat_less_exp_bits f(1) using bits k assms(2) bit_nat_less by (auto simp: bi_clean_def split: if_splits)
    ultimately show ?thesis using f assms(1) by (simp add: bi_wf_def bi_clean_def)
  qed
qed

lemma TWOS_COMP:
  assumes "bi_wf i" "bi_clean i"
  shows "bi_wf (TWOS_COMP i)" "bi_clean (TWOS_COMP i)" "BITS (TWOS_COMP i) = BITS i"
    "0 < bval i \<Longrightarrow> bval (TWOS_COMP i) = 2 ^ BITS i - bval i"
proof -
  define n where "n = bi_bytes i"
  have w: "length (bi_data i) = 150" "bi_bits i < 8" "n \<le> 148"
    using assms(1) wf_bytes [OF assms(1)] by (auto simp: bi_wf_def n_def)
  define d1 where "d1 = fold (\<lambda>j d. d[j := NOT (d ! j)]) [0..<n] (bi_data i)"
  define d where "d = (if bi_bits i > 0 then d1[n := NOT (d1 ! n) AND (push_bit (bi_bits i) 1 - 1)] else d1)"
  define x where "x = i\<lparr>bi_data := d\<rparr>"
  have d1: "length d1 = 150" "\<And>k. k < 150 \<Longrightarrow> d1 ! k = (if k < n then NOT (bi_data i ! k) else bi_data i ! k)"
    using invert_fold [of n "bi_data i"] w by (simp_all add: d1_def)
  have t: "TWOS_COMP i = twos_carry (BITS x) 0 x"
    by (simp add: TWOS_COMP_def Let_def x_def d_def d1_def n_def)
  have f: "BITS x = BITS i" "bi_wf x" using w d1 assms(1) by (auto simp: x_def BITS_def bi_wf_def d_def)
  have bits: "bit (dval x) k \<longleftrightarrow> k < BITS i \<and> \<not> bit (dval i) k" for k
  proof -
    have k8: "k = 8 * (k div 8) + k mod 8" "k mod 8 < 8" by simp_all
    have cl: "k < BITS i" if "bit (dval i) k" using assms(2) that bit_nat_less by (auto simp: bi_clean_def)
    consider "k div 8 < n" | "k div 8 = n" | "n < k div 8" by linarith
    then show ?thesis
    proof cases
      case 1
      then have "k < BITS i" using k8 by (simp add: BITS_def flip: n_def)
      then show ?thesis using 1 w d1 k8 by (auto simp: x_def d_def bit_le_val bit_not_iff)
    next
      case 2
      then have B: "k < BITS i \<longleftrightarrow> k mod 8 < bi_bits i" using k8 by (simp add: BITS_def flip: n_def) linarith
      show ?thesis
      proof (cases "bi_bits i > 0")
        case True
        have "bit (dval x) k \<longleftrightarrow> bit (NOT (bi_data i ! n) AND mask (bi_bits i)) (k mod 8)"
          using True 2 w d1 by (simp add: x_def d_def bit_le_val mask_eq_exp_minus_1)
        then show ?thesis using B 2 w k8 by (auto simp: bit_simps bit_le_val)
      next
        case False
        then show ?thesis using B cl 2 w d1 by (auto simp: x_def d_def bit_le_val)
      qed
    next
      case 3
      then have "\<not> k < BITS i" using k8 w by (simp add: BITS_def flip: n_def)
      then show ?thesis using 3 w d1 cl by (auto simp: x_def d_def bit_le_val)
    qed
  qed
  have sum: "dval x + dval i = mask (BITS i)"
  proof -
    have "dval x + dval i = dval x OR dval i" using bits by (intro disjunctive_add) auto
    also have "\<dots> = mask (BITS i)"
      using bits assms(2) by (intro bit_eqI) (auto simp: bit_or_iff bit_mask_iff bi_clean_def dest: bit_nat_less)
    finally show ?thesis .
  qed
  have c: "bi_clean x" unfolding bi_clean_def nat_less_exp_bits f(1) using bits by auto
  note r = twos_carry [OF f(2) c _ _ t]
  show "bi_wf (TWOS_COMP i)" "bi_clean (TWOS_COMP i)" "BITS (TWOS_COMP i) = BITS i" using r f by simp_all
  then show "bval (TWOS_COMP i) = 2 ^ BITS i - bval i" if "0 < bval i"
    using that r f sum assms by (simp add: bval_clean mask_eq_exp_minus_1)
qed

section \<open>Comparison\<close>

lemma drop_bit_le_val: "drop_bit (8 * k) (le_val d) = le_val (drop k d)"
  by (rule bit_eqI) (auto simp: bit_drop_bit_eq bit_le_val)

definition cmp3 :: "nat \<Rightarrow> nat \<Rightarrow> int" where
  "cmp3 a b = (if a > b then 1 else if a < b then -1 else 0)"

lemma drop_bit_greater: "drop_bit k a > drop_bit k b \<Longrightarrow> a > b" for a b :: nat
  by (metis div_le_mono drop_bit_eq_div not_le)

lemma drop_bit_step: "drop_bit k a = of_bool (bit a k) + 2 * drop_bit (k + 1) a" for a :: nat
proof -
  have "drop_bit (k + 1) a = drop_bit k a div 2" by (simp add: drop_bit_eq_div mult.commute flip: div_mult2_eq)
  then show ?thesis by (simp add: bit_iff_odd_drop_bit of_bool_odd_eq_mod_2)
qed

lemma bit_decides:
  assumes "drop_bit (k + 1) a = drop_bit (k + 1) b" "bit a k" "\<not> bit b k"
  shows "b < (a :: nat)"
  using assms drop_bit_step [of k a] drop_bit_step [of k b] drop_bit_greater [of k b a] by simp

lemma BIT_dval: "bi_wf i \<Longrightarrow> bi_clean i \<Longrightarrow> BIT i n = of_bool (bit (dval i) n)"
  by (simp add: BIT_bval bval_clean)

lemma cmp_high:
  assumes "bi_wf i" "bi_clean i"
  shows "(fst (cmp_high i (int l) (int l + int n - 1)) \<longleftrightarrow> (\<exists>m < n. bit (dval i) (l + m))) \<and>
    (\<not> fst (cmp_high i (int l) (int l + int n - 1)) \<longrightarrow> snd (cmp_high i (int l) (int l + int n - 1)) = int l - 1)"
proof (induction n)
  case 0
  then show ?case by (simp add: cmp_high.simps)
next
  case (Suc n)
  have "nat (int l + int n) = l + n" by simp
  then have "cmp_high i (int l) (int l + int (Suc n) - 1) =
      (if bit (dval i) (l + n) then (True, int l + int n) else cmp_high i (int l) (int l + int n - 1))"
    by (simp add: cmp_high.simps [of i "int l" "int l + int n"] BIT_dval [OF assms])
  then show ?case using Suc.IH by (auto simp: less_Suc_eq)
qed

lemma cmp_high_top:
  assumes "bi_wf i" "bi_clean i" "l < BITS i" "cmp_high i (int l) (int (BITS i) - 1) = (f, k)"
  shows "f \<longleftrightarrow> 2 ^ l \<le> dval i" "\<not> f \<Longrightarrow> k = int l - 1"
proof -
  have e: "int (BITS i) - 1 = int l + int (BITS i - l) - 1" using assms(3) by simp
  note h = cmp_high [OF assms(1,2), of l "BITS i - l", folded e, unfolded assms(4)]
  have "\<not> 2 ^ l \<le> dval i \<longleftrightarrow> (\<forall>n. bit (dval i) n \<longrightarrow> n < l)"
    using nat_less_exp_bits [of "dval i" l] by (simp add: not_le)
  also have "\<dots> \<longleftrightarrow> \<not> (\<exists>m < BITS i - l. bit (dval i) (l + m))"
  proof
    assume r: "\<not> (\<exists>m < BITS i - l. bit (dval i) (l + m))"
    show "\<forall>n. bit (dval i) n \<longrightarrow> n < l"
    proof (intro allI impI, rule ccontr)
      fix n assume b: "bit (dval i) n" "\<not> n < l"
      then have "n < BITS i" using assms(2) bit_nat_less by (auto simp: bi_clean_def)
      then show False using r b by (metis add_diff_inverse_nat diff_less_mono not_less)
    qed
  qed fastforce
  finally show "f \<longleftrightarrow> 2 ^ l \<le> dval i" using h by auto
  show "\<not> f \<Longrightarrow> k = int l - 1" using h by simp
qed

lemma smod_8: "0 \<le> k \<Longrightarrow> k smod 8 = k mod (8 :: int)"
  by (simp add: signed_modulo_int_def signed_divide_int_def sgn_if minus_div_mult_eq_mod)

lemma sdiv_8: "0 \<le> k \<Longrightarrow> k sdiv 8 = k div (8 :: int)"
  by (cases "k = 0") (simp_all add: signed_divide_int_def sgn_if)

lemma cmp_lead:
  assumes "bi_wf i" "bi_clean i" "bi_wf j" "bi_clean j" "drop_bit n (dval i) = drop_bit n (dval j)"
    "cmp_lead i j (int n - 1) = (r, k)"
  shows "case r of Some s \<Rightarrow> s = cmp3 (dval i) (dval j)
    | None \<Rightarrow> \<exists>m \<le> n. k = int m - 1 \<and> (m = 0 \<or> m mod 8 = 1) \<and> drop_bit m (dval i) = drop_bit m (dval j)"
  using assms(5,6)
proof (induction n)
  case 0
  then show ?case by (simp add: cmp_lead.simps)
next
  case (Suc n)
  define a b where "a = dval i" and "b = dval j"
  have agree: "drop_bit (n + 1) a = drop_bit (n + 1) b" using Suc.prems by (simp add: a_def b_def)
  show ?case
  proof (cases "n mod 8 = 0")
    case True
    then have "int n smod 8 = 0" by (simp add: smod_8 flip: of_nat_mod [of _ 8, simplified])
    then have "r = None" "k = int n" using Suc.prems(2) by (simp_all add: cmp_lead.simps)
    then show ?thesis using True Suc.prems(1) by (auto intro!: exI [of _ "Suc n"] simp: mod_Suc)
  next
    case False
    then have "int n smod 8 \<noteq> 0" by (simp add: smod_8 flip: of_nat_mod [of _ 8, simplified])
    then have c: "cmp_lead i j (int (Suc n) - 1) =
        (if bit a n \<and> \<not> bit b n then (Some 1, int n) else if \<not> bit a n \<and> bit b n then (Some (-1), int n)
         else cmp_lead i j (int n - 1))"
      using assms by (simp add: cmp_lead.simps [of i j "int n"] BIT_dval a_def b_def Let_def)
    consider "bit a n" "\<not> bit b n" | "\<not> bit a n" "bit b n" | "bit a n = bit b n" by blast
    then show ?thesis
    proof cases
      case 1
      then show ?thesis using c Suc.prems(2) bit_decides [OF agree] by (auto simp: cmp3_def a_def b_def)
    next
      case 2
      then show ?thesis using c Suc.prems(2) bit_decides [OF agree [symmetric]]
        by (auto simp: cmp3_def a_def b_def)
    next
      case 3
      then have "drop_bit n a = drop_bit n b" using agree drop_bit_step [of n a] drop_bit_step [of n b] by simp
      moreover have "cmp_lead i j (int n - 1) = (r, k)" using c 3 Suc.prems(2) by auto
      ultimately show ?thesis using Suc.IH by (auto simp: a_def b_def split: option.splits intro: le_SucI)
    qed
  qed
qed

lemma cmp_bytes:
  assumes "length (bi_data i) = 150" "length (bi_data j) = 150" "k < 150"
    "drop_bit (8 * (k + 1)) (dval i) = drop_bit (8 * (k + 1)) (dval j)"
  shows "cmp_bytes i j (8 * int k) = cmp3 (dval i) (dval j)"
  using assms(3,4)
proof (induction k)
  case 0
  have "(-8 :: int) sdiv 8 = -1" by (simp add: signed_divide_int_def)
  then have e: "cmp_bytes i j (-8) = 0" by (simp add: cmp_bytes.simps)
  have "dval i = unat (bi_data i ! 0) + 256 * drop_bit 8 (dval i)"
    "dval j = unat (bi_data j ! 0) + 256 * drop_bit 8 (dval j)"
    using assms(1,2) drop_bit_le_val [of 1 "bi_data i"] drop_bit_le_val [of 1 "bi_data j"]
    by (cases "bi_data i"; cases "bi_data j"; simp)+
  then show ?case using 0 e
    by (simp add: cmp_bytes.simps [of i j 0] Let_def cmp3_def word_less_nat_alt word_unat_eq_iff)
next
  case (Suc k)
  have s: "drop_bit (8 * Suc k) (le_val d) = unat (d ! Suc k) + 256 * drop_bit (8 * (Suc k + 1)) (le_val d)"
    if "length d = 150" for d
    unfolding drop_bit_le_val using that Suc.prems(1) Cons_nth_drop_Suc [of "Suc k" d] by (metis Suc_eq_plus1 le_val.simps(2))
  note s = s [OF assms(1)] s [OF assms(2)]
  have "8 * int (Suc k) sdiv 8 = int (Suc k)" by (simp add: sdiv_8)
  then have c: "cmp_bytes i j (8 * int (Suc k)) =
      (if bi_data i ! Suc k > bi_data j ! Suc k then 1 else if bi_data i ! Suc k < bi_data j ! Suc k then -1
       else cmp_bytes i j (8 * int k))"
    by (subst cmp_bytes.simps) (simp add: Let_def nat_add_distrib algebra_simps)
  consider "bi_data i ! Suc k > bi_data j ! Suc k" | "bi_data i ! Suc k < bi_data j ! Suc k"
    | "bi_data i ! Suc k = bi_data j ! Suc k" by (meson linorder_less_linear)
  then show ?case
  proof cases
    case 1
    then have "drop_bit (8 * Suc k) (dval j) < drop_bit (8 * Suc k) (dval i)"
      using s Suc.prems(2) by (simp only: word_less_nat_alt)
    then show ?thesis using c 1 drop_bit_greater by (auto simp: cmp3_def)
  next
    case 2
    then have "drop_bit (8 * Suc k) (dval i) < drop_bit (8 * Suc k) (dval j)"
      using s Suc.prems(2) by (simp only: word_less_nat_alt)
    then show ?thesis using c 2 drop_bit_greater [of "8 * Suc k"] by (auto simp: cmp3_def dest: less_asym)
  next
    case 3
    then have "drop_bit (8 * (k + 1)) (dval i) = drop_bit (8 * (k + 1)) (dval j)"
      using s Suc.prems(2) by (simp only: Suc_eq_plus1)
    then show ?thesis using c 3 Suc.IH Suc.prems(1) by simp
  qed
qed

lemma bytes_after_lead:
  assumes "bi_wf i" "bi_wf j" "m \<le> 1192" "m = 0 \<or> m mod 8 = 1" "drop_bit m (dval i) = drop_bit m (dval j)"
  shows "cmp_bytes i j (int m - 1) = cmp3 (dval i) (dval j)"
proof (cases "m = 0")
  case True
  have "(-1 :: int) sdiv 8 = 0" "(-9 :: int) sdiv 8 = -1" by (simp_all add: signed_divide_int_def)
  moreover have e: "dval i = dval j" using assms True by simp
  moreover have "bi_data i ! 0 = bi_data j ! 0"
  proof -
    have "unat (bi_data i ! 0) = dval i mod 256" "unat (bi_data j ! 0) = dval j mod 256"
      using assms(1,2) unat_u8_less by (cases "bi_data i"; cases "bi_data j"; simp add: bi_wf_def)+
    then show ?thesis using e by (simp add: word_unat_eq_iff)
  qed
  ultimately show ?thesis using True
    by (simp add: cmp_bytes.simps [of i j "-1"] cmp_bytes.simps [of i j "-9"] cmp3_def)
next
  case False
  define k where "k = m div 8"
  have m: "m = 8 * k + 1" using assms(4) False div_mult_mod_eq [of m 8] by (simp add: k_def)
  then have "drop_bit 7 (drop_bit m (dval i)) = drop_bit 7 (drop_bit m (dval j))" using assms(5) by simp
  then have "drop_bit (8 * (k + 1)) (dval i) = drop_bit (8 * (k + 1)) (dval j)"
    by (simp add: m add.commute)
  then show ?thesis using cmp_bytes [of i j k] assms m by (simp add: bi_wf_def)
qed

lemma bigint_cmp:
  assumes "bi_wf i" "bi_clean i" "bi_wf j" "bi_clean j"
  shows "bigint_cmp i j = cmp3 (bval i) (bval j)"
proof -
  have less: "dval i < 2 ^ BITS i" "dval j < 2 ^ BITS j" using assms by (simp_all add: bi_clean_def)
  have agree: "bigint_cmp i j = cmp3 (dval i) (dval j)"
    if "bigint_cmp i j = (case cmp_lead i j (int n - 1) of (Some r, _) \<Rightarrow> r | (None, k) \<Rightarrow> cmp_bytes i j k)"
      "dval i < 2 ^ n" "dval j < 2 ^ n" "n < 1192" for n
  proof -
    obtain r k where l: "cmp_lead i j (int n - 1) = (r, k)" by fastforce
    have "drop_bit n (dval i) = drop_bit n (dval j)" using that by (simp add: drop_bit_eq_div)
    note c = cmp_lead [OF assms this l]
    show ?thesis
    proof (cases r)
      case None
      then obtain m where "m \<le> n" "k = int m - 1" "m = 0 \<or> m mod 8 = 1" "drop_bit m (dval i) = drop_bit m (dval j)"
        using c by auto
      then show ?thesis using bytes_after_lead [OF assms(1,3)] that l None by simp
    next
      case (Some s)
      then show ?thesis using c that l by simp
    qed
  qed
  consider "BITS i = BITS j" | "BITS j < BITS i" | "BITS i < BITS j" by linarith
  then have "bigint_cmp i j = cmp3 (dval i) (dval j)"
  proof cases
    case 1
    then show ?thesis using agree [of "BITS i"] less assms(1) by (simp add: bigint_cmp_def bi_wf_def)
  next
    case 2
    obtain f k where h: "cmp_high i (int (BITS j)) (int (BITS i) - 1) = (f, k)" by fastforce
    note c = cmp_high_top [OF assms(1,2) 2 h]
    show ?thesis
    proof (cases f)
      case True
      then show ?thesis using c less 2 h by (simp add: bigint_cmp_def cmp3_def)
    next
      case False
      then show ?thesis using agree [of "BITS j"] c less 2 h assms(3) by (simp add: bigint_cmp_def bi_wf_def)
    qed
  next
    case 3
    obtain f k where h: "cmp_high j (int (BITS i)) (int (BITS j) - 1) = (f, k)" by fastforce
    note c = cmp_high_top [OF assms(3,4) 3 h]
    show ?thesis
    proof (cases f)
      case True
      then show ?thesis using c less 3 h by (simp add: bigint_cmp_def cmp3_def)
    next
      case False
      then show ?thesis using agree [of "BITS i"] c less 3 h assms(1) by (simp add: bigint_cmp_def bi_wf_def)
    qed
  qed
  then show ?thesis using assms by (simp add: bval_clean)
qed

section \<open>Hexadecimal text\<close>

definition hexval :: "u8 list \<Rightarrow> nat" where
  "hexval s = foldl (\<lambda>v c. 16 * v + nat (hexchar c)) 0 s"

lemma hexval_acc:
  "foldl (\<lambda>v c. 16 * v + nat (hexchar c)) v t = v * 16 ^ length t + hexval t"
  unfolding hexval_def
proof (induction t arbitrary: v)
  case (Cons c t)
  show ?case
    using Cons.IH [of "16 * v + nat (hexchar c)"] Cons.IH [of "nat (hexchar c)"]
    by (simp add: add_mult_distrib mult.assoc mult.left_commute)
qed simp

lemma hexval_append: "hexval (s @ t) = hexval s * 16 ^ length t + hexval t"
  using hexval_acc [of "hexval s" t] by (simp add: hexval_def)

lemma hexval_simps [simp]: "hexval [] = 0" "hexval [c] = nat (hexchar c)"
  by (simp_all add: hexval_def)

lemma hexval_Cons2: "hexval (h # l # t) = (16 * nat (hexchar h) + nat (hexchar l)) * 16 ^ length t + hexval t"
  using hexval_append [of "[h, l]" t] by (simp add: hexval_def)

lemma hexchar_range: "hexchar c \<noteq> -1 \<Longrightarrow> 0 \<le> hexchar c \<and> hexchar c < 16"
  by (auto simp: hexchar_def word_le_def split: if_splits)

lemma hex_byte:
  assumes "hexchar h \<noteq> -1" "hexchar l \<noteq> -1"
  shows "unat (push_bit 4 (word_of_int (hexchar h)) OR word_of_int (hexchar l) :: u8) =
    16 * nat (hexchar h) + nat (hexchar l)"
proof -
  note r = hexchar_range [OF assms(1)] hexchar_range [OF assms(2)]
  obtain x y where xy: "hexchar h = int x" "hexchar l = int y" using r by (metis nonneg_int_cases)
  have "push_bit 4 (of_nat x) OR of_nat y = (of_nat (x * 2 ^ 4 + y) :: u8)"
    using r xy by (intro push_or_of_nat) simp
  moreover have "x * 2 ^ 4 + y < 2 ^ LENGTH(8)" using r xy by simp
  ultimately show ?thesis using xy unat_of_nat_small [of "x * 2 ^ 4 + y", where ?'a = 8] by simp
qed

definition hex_text :: "u8 list \<Rightarrow> bool" where
  "hex_text s \<longleftrightarrow> list_all (\<lambda>c. hexchar c \<noteq> -1) s"

lemma drop_two:
  assumes "2 * k + 2 \<le> length s"
  shows "drop (length s - (2 * k + 2)) s =
    s ! (length s - 2 * k - 2) # s ! (length s - 2 * k - 1) # drop (length s - 2 * k) s"
proof -
  have "length s - (2 * k + 2) < length s" "Suc (length s - (2 * k + 2)) < length s"
    "Suc (length s - (2 * k + 2)) = length s - 2 * k - 1" "Suc (Suc (length s - (2 * k + 2))) = length s - 2 * k"
    using assms by simp_all
  then show ?thesis by (metis Cons_nth_drop_Suc diff_diff_left)
qed

text \<open>The loop after \<open>k\<close> bytes: it has read the last \<open>2 * k\<close> digits.\<close>

lemma fromhex_loop:
  assumes "length s \<le> 297" "2 * k \<le> length s" "bi_bytes i = k" "bi_bits i = 0"
    "bi_data i = bs @ replicate (150 - k) 0" "length bs = k" "le_val bs = hexval (drop (length s - 2 * k) s)"
    "hex_text (drop (length s - 2 * k) s)"
  shows "case fromhex_loop s (int (length s) - 1 - 2 * int k) i of
      Inl (rv, x) \<Rightarrow> rv = 2 \<and> \<not> hex_text s
    | Inr (j, x) \<Rightarrow> (\<exists>n bs. length s = 2 * n + nat (j + 1) \<and> (j = -1 \<or> j = 0) \<and> bi_bytes x = n \<and> bi_bits x = 0 \<and>
        bi_data x = bs @ replicate (150 - n) 0 \<and> length bs = n \<and> le_val bs = hexval (drop (length s - 2 * n) s) \<and>
        hex_text (drop (length s - 2 * n) s))"
  using assms(2-)
proof (induction "length s - 2 * k" arbitrary: k i bs rule: less_induct)
  case less
  define j where "j = int (length s) - 1 - 2 * int k"
  show ?case
  proof (cases "j \<ge> 1")
    case False
    then have j: "fromhex_loop s j i = Inr (j, i)" by (simp add: fromhex_loop.simps)
    have "length s = 2 * k + nat (j + 1)" "j = -1 \<or> j = 0" using False less.prems(1) by (auto simp: j_def)
    then show ?thesis unfolding j_def [symmetric] j using less.prems by auto
  next
    case True
    then have k: "2 * k + 2 \<le> length s" by (simp add: j_def)
    define h l where "h = s ! (length s - 2 * k - 2)" and "l = s ! (length s - 2 * k - 1)"
    have n: "nat j = length s - 2 * k - 1" "nat (j - 1) = length s - 2 * k - 2" by (simp_all add: j_def)
    have dr: "drop (length s - 2 * Suc k) s = h # l # drop (length s - 2 * k) s"
      using drop_two [OF k] by (simp add: h_def l_def)
    show ?thesis
    proof (cases "hexchar h = -1 \<or> hexchar l = -1")
      case T: True
      then have "\<not> hex_text (drop (length s - 2 * Suc k) s)" unfolding dr by (auto simp: hex_text_def)
      then have "\<not> hex_text s" unfolding hex_text_def by (metis append_take_drop_id list_all_append)
      moreover have "fromhex_loop s j i = Inl (2, i)"
        using True T n by (subst fromhex_loop.simps) (auto simp: h_def l_def Let_def)
      ultimately show ?thesis unfolding j_def [symmetric] by simp
    next
      case F: False
      define b where "b = (push_bit 4 (word_of_int (hexchar h)) OR word_of_int (hexchar l) :: u8)"
      define i' where "i' = i\<lparr>bi_data := (bs @ [b]) @ replicate (150 - Suc k) 0, bi_bytes := Suc k\<rparr>"
      have k148: "Suc k < 149" "k < 150" using k assms(1) by simp_all
      then have upd: "(bi_data i)[k := b] = (bs @ [b]) @ replicate (150 - Suc k) 0"
        using less.prems(4,5) by (simp add: list_update_append Suc_diff_Suc flip: replicate_Suc)
          (cases "150 - k"; simp)
      have step: "fromhex_loop s j i = fromhex_loop s (int (length s) - 1 - 2 * int (Suc k)) i'"
        using True F n k148 less.prems(2) upd
        by (subst fromhex_loop.simps) (simp add: h_def l_def Let_def i'_def b_def j_def algebra_simps)
      have le: "length (drop (length s - 2 * k) s) = 2 * k" using k by simp
      have "le_val (bs @ [b]) = hexval (drop (length s - 2 * Suc k) s)"
        unfolding dr hexval_Cons2 le using hex_byte [of h l] F less.prems(5,6)
        by (simp add: le_val_append b_def power_mult)
      moreover have "hex_text (drop (length s - 2 * Suc k) s)"
        unfolding dr using F less.prems(7) by (simp add: hex_text_def)
      moreover have "length s - 2 * Suc k < length s - 2 * k" "2 * Suc k \<le> length s" using k by simp_all
      ultimately show ?thesis
        unfolding j_def [symmetric] step
        using less.hyps [of "Suc k" i' "bs @ [b]"] less.prems(3,5) by (simp add: i'_def)
    qed
  qed
qed

lemma whole_bytes:
  assumes "bi_bytes x = n" "bi_bits x = 0" "bi_data x = bs @ replicate (150 - n) 0" "length bs = n" "n \<le> 148"
  shows "bi_wf x \<and> bi_clean x \<and> BITS x = 8 * n \<and> bval x = le_val bs"
proof -
  have "dval x = le_val bs" "BITS x = 8 * n" using assms by (simp_all add: le_val_append BITS_def)
  moreover have "le_val bs < 2 ^ (8 * n)" using le_val_less [of bs] assms(4) by (simp add: power_mult)
  ultimately have "bi_clean x" "dval x = le_val bs" by (simp_all add: bi_clean_def)
  then show ?thesis using assms \<open>BITS x = 8 * n\<close> by (simp add: bi_wf_def bval_clean)
qed

lemma half_byte:
  assumes "bi_bytes x = n" "bi_data x = bs @ replicate (150 - n) 0" "length bs = n" "n \<le> 148" "d < 16"
    and y: "y = x\<lparr>bi_data := (bi_data x)[n := of_nat d], bi_bits := 4\<rparr>"
  shows "bi_wf y \<and> bi_clean y \<and> BITS y = 8 * n + 4 \<and> bval y = d * 16 ^ (2 * n) + le_val bs"
proof -
  have B: "BITS y = 8 * n + 4" "bi_bits y = 4" using assms(1) y by (simp_all add: BITS_def)
  have "bi_data y = (bs @ [of_nat d]) @ replicate (149 - n) 0"
    using assms y by (simp add: list_update_append) (cases "150 - n"; simp)
  then have v: "dval y = le_val bs + 256 ^ n * d" "length (bi_data y) = 150"
    using assms by (simp_all add: le_val_append unat_of_nat_small)
  have "le_val bs < 256 ^ n" using le_val_less [of bs] assms(3) by simp
  moreover have "256 ^ n * d \<le> 256 ^ n * 15" using assms(5) by simp
  ultimately have "dval y < 256 ^ n * 16" using v(1) by linarith
  also have "\<dots> = 2 ^ BITS y" using B by (simp add: power_add power_mult)
  finally have "bi_clean y" by (simp add: bi_clean_def)
  then show ?thesis using v B assms(4) by (simp add: bi_wf_def bval_clean power_mult)
qed

lemma bigint_fromhex:
  assumes "length (bi_data i) = 150" "length s \<le> 297"
  obtains x where "bigint_fromhex i s = (if hex_text s then 0 else 2, x)"
    "hex_text s \<Longrightarrow> bi_wf x \<and> bi_clean x \<and> BITS x = 4 * length s \<and> bval x = hexval s"
proof -
  define i0 where "i0 = (bigint_zero i)\<lparr>bi_bits := 0\<rparr>"
  have j: "to_int16 (int (length s) - 1) = int (length s) - 1 - 2 * int 0" using assms(2) by (simp add: to_int16_def)
  have i0: "bi_bytes i0 = 0" "bi_bits i0 = 0" "bi_data i0 = [] @ replicate (150 - 0) 0"
    using assms(1) by (simp_all add: i0_def)
  note L = fromhex_loop [OF assms(2) _ i0, folded j]
  note F = bigint_fromhex_def Let_def i0_def [symmetric]
  show ?thesis
  proof (cases "fromhex_loop s (to_int16 (int (length s) - 1)) i0")
    case (Inl p)
    then have "fst p = 2 \<and> \<not> hex_text s" using L by (auto simp: hex_text_def)
    then show ?thesis using that [of "snd p"] Inl by (cases p) (auto simp: F)
  next
    case (Inr p)
    obtain j x where p: "p = (j, x)" by fastforce
    then obtain n bs where e: "length s = 2 * n + nat (j + 1)" "j = -1 \<or> j = 0" "bi_bytes x = n" "bi_bits x = 0"
        "bi_data x = bs @ replicate (150 - n) 0" "length bs = n" "le_val bs = hexval (drop (length s - 2 * n) s)"
        "hex_text (drop (length s - 2 * n) s)"
      using L Inr by (auto simp: hex_text_def)
    have n: "n \<le> 148" using e(1) assms(2) by simp
    note x = whole_bytes [OF e(3-6) n]
    consider "j = -1" | "j = 0" "hexchar (s ! 0) = -1" | d where "j = 0" "hexchar (s ! 0) = int d" "d < 16"
      using e(2) hexchar_range [of "s ! 0"] by (metis nonneg_int_cases of_nat_less_numeral_iff)
    then show ?thesis
    proof cases
      case 1
      then show ?thesis using that [of x] Inr p e(1,7,8) x by (simp add: F)
    next
      case 2
      then have "\<not> hex_text s" using e(1) by (cases s) (simp_all add: hex_text_def)
      then show ?thesis using that [of x] Inr p 2 by (simp add: F)
    next
      case 3
      define y where "y = x\<lparr>bi_data := (bi_data x)[n := of_nat d], bi_bits := 4\<rparr>"
      note y = half_byte [OF e(3,5,6) n 3(3) y_def]
      have s: "s = [s ! 0] @ drop (length s - 2 * n) s" using e(1) 3(1) by (cases s) simp_all
      have "hex_text s" using e(8) 3(2) by (subst s) (simp add: hex_text_def)
      moreover have "hexval s = d * 16 ^ (2 * n) + le_val bs"
        using hexval_append [of "[s ! 0]" "drop (length s - 2 * n) s", folded s] e(1,7) 3(1,2) by simp
      ultimately show ?thesis using that [of y] Inr p 3 e(1,3) y by (simp add: F y_def)
    qed
  qed
qed

lemma hexchar_hexdigit: "n < 16 \<Longrightarrow> hexchar (hexdigit n) = int n"
proof -
  have "\<forall>n \<in> set [0..<16]. hexchar (hexdigit n) = int n"
    by (simp add: upt_conv_Cons hexdigit_def ascii_def hexchar_def)
  then show "n < 16 \<Longrightarrow> hexchar (hexdigit n) = int n" by simp
qed

lemma fmt_02x: "hexval (fmt_02x b) = unat b" "hex_text (fmt_02x b)" "length (fmt_02x b) = 2"
proof -
  have "unat b div 16 < 16" "unat b mod 16 < 16" using unat_u8_less [of b] by simp_all
  then show "hexval (fmt_02x b) = unat b" "hex_text (fmt_02x b)" "length (fmt_02x b) = 2"
    by (simp_all add: fmt_02x_def hexval_def hex_text_def hexchar_hexdigit)
qed

lemma print_bytes:
  "hexval (concat (map (\<lambda>j. fmt_02x (d ! j)) (rev [0..<n]))) = le_val (map (nth d) [0..<n])"
  "hex_text (concat (map (\<lambda>j. fmt_02x (d ! j)) (rev [0..<n])))"
  "length (concat (map (\<lambda>j. fmt_02x (d ! j)) (rev [0..<n]))) = 2 * n"
proof (induction n)
  case (Suc n)
  case 1 show ?case using Suc.IH by (simp add: hexval_append fmt_02x le_val_append power_mult)
next
  case (Suc n)
  case 2 show ?case using Suc.IH by (simp add: hex_text_def fmt_02x(2) [unfolded hex_text_def])
next
  case (Suc n)
  case 3 show ?case using Suc.IH by (simp add: fmt_02x)
qed (simp_all add: hex_text_def)

lemma bigint_print:
  assumes "bi_wf x"
  shows "hexval (bigint_print x 0) = bval x" "hex_text (bigint_print x 0)"
    "length (bigint_print x 0) = 2 * (bi_bytes x + (if bi_bits x > 0 then 1 else 0))"
proof -
  define n where "n = bi_bytes x"
  define top where "top = (if bi_bits x > 0 then [bi_data x ! n AND (push_bit (bi_bits x) 1 - 1)] else [])"
  have n: "n < 150" using wf_bytes [OF assms] by (simp add: n_def)
  have l: "length (bi_data x) = 150" using assms by (simp add: bi_wf_def)
  have m: "map (nth (bi_data x)) [0..<n] = take n (bi_data x)"
    using n l by (intro nth_equalityI) auto
  have p: "bigint_print x 0 = concat (map fmt_02x top) @ concat (map (\<lambda>j. fmt_02x (bi_data x ! j)) (rev [0..<n]))"
    by (simp add: bigint_print_def top_def n_def)
  have "trimmed x = take n (bi_data x) @ top @ replicate (150 - (n + length top)) 0"
    using n l by (auto simp: trimmed_def Let_def top_def patch_def n_def [symmetric] take_Suc_conv_app_nth)
  then have "bval x = le_val (take n (bi_data x)) + 256 ^ n * le_val top"
    using trimmed(2) [OF assms] n l by (simp add: le_val_append)
  then show "hexval (bigint_print x 0) = bval x"
    unfolding p hexval_append print_bytes m by (simp add: top_def fmt_02x power_mult)
  show "hex_text (bigint_print x 0)"
    unfolding p using print_bytes(2) fmt_02x(2) by (auto simp: hex_text_def top_def)
  show "length (bigint_print x 0) = 2 * (bi_bytes x + (if bi_bits x > 0 then 1 else 0))"
    unfolding p length_append print_bytes by (simp add: top_def fmt_02x n_def)
qed

section \<open>Properties\<close>

text \<open>
  \<^verbatim>\<open>bigint_cmp\<close> orders two numbers as integers, also when their recorded sizes differ: \<open>1\<close>, \<open>-1\<close>
  and \<open>0\<close> for greater, less and equal.
\<close>

theorem bigint_cmp_order:
  assumes "bi_wf i" "bi_clean i" "bi_wf j" "bi_clean j"
  shows "bigint_cmp i j = (if bval i > bval j then 1 else if bval i < bval j then -1 else 0)"
  using bigint_cmp [OF assms] by (simp add: cmp3_def)

text \<open>A number of one byte, for concrete stores.\<close>

definition bi_byte :: "u8 \<Rightarrow> bigint" where
  "bi_byte b = \<lparr>bi_bytes = 1, bi_bits = 0, bi_data = b # replicate 149 0\<rparr>"

lemma bi_byte [simp]:
  "bi_wf (bi_byte b)" "bi_clean (bi_byte b)" "BITS (bi_byte b) = 8" "bval (bi_byte b) = unat b"
  "length (bi_data (bi_byte b)) = 150"
  using unat_u8_less [of b] by (simp_all add: bi_byte_def bi_wf_def bi_clean_def BITS_def bval_def take_bit_nat_eq_self)

lemma bigint_cmp_order_witness: "bigint_cmp (bi_byte 200) (bi_byte 7) = 1"
  using bigint_cmp_order [of "bi_byte 200" "bi_byte 7"] by simp

text \<open>
  \<^verbatim>\<open>bigint_fromhex\<close> on a string of up to 297 characters: the result is 0 and the number is the
  hexadecimal value of the string, of four bits per digit, if all characters are digits; it is 2
  if one of them is not.
\<close>

theorem bigint_fromhex_value:
  assumes "length (bi_data i) = 150" "length s \<le> 297"
  shows "\<exists>x. bigint_fromhex i s = (if hex_text s then 0 else 2, x) \<and>
    (hex_text s \<longrightarrow> bi_wf x \<and> bi_clean x \<and> BITS x = 4 * length s \<and> bval x = hexval s)"
  using bigint_fromhex [OF assms] by metis

lemma bigint_fromhex_value_witness:
  "\<exists>x. bigint_fromhex (bi_byte 9) (ascii ''1aF'') = (0, x) \<and> bval x = 431"
proof -
  have t: "hex_text (ascii ''1aF'')" "hexval (ascii ''1aF'') = 431" "length (ascii ''1aF'') = 3" by code_simp+
  show ?thesis using bigint_fromhex_value [of "bi_byte 9" "ascii ''1aF''"] t by auto
qed

text \<open>
  Reading back what \<^verbatim>\<open>bigint_print\<close> writes gives the same number, for every number whose
  digits fit (148 bytes).
\<close>

theorem bigint_print_fromhex:
  assumes "bi_wf x" "length (bi_data i) = 150" "bi_bytes x + (if bi_bits x > 0 then 1 else 0) \<le> 148"
  shows "\<exists>y. bigint_fromhex i (bigint_print x 0) = (0, y) \<and> bi_wf y \<and> bi_clean y \<and> bval y = bval x"
proof -
  note p = bigint_print [OF assms(1)]
  have "length (bigint_print x 0) \<le> 297" using p(3) assms(3) by simp
  then obtain y where "bigint_fromhex i (bigint_print x 0) = (if hex_text (bigint_print x 0) then 0 else 2, y)"
    "hex_text (bigint_print x 0) \<Longrightarrow> bi_wf y \<and> bi_clean y \<and> BITS y = 4 * length (bigint_print x 0) \<and>
      bval y = hexval (bigint_print x 0)"
    using bigint_fromhex [OF assms(2)] by metis
  then show ?thesis using p by simp
qed

lemma bigint_print_fromhex_witness:
  "\<exists>y. bigint_fromhex (bi_byte 9) (bigint_print (bi_byte 200) 0) = (0, y) \<and>
     bi_wf y \<and> bi_clean y \<and> bval y = bval (bi_byte 200)"
  by (rule bigint_print_fromhex) (simp, simp, simp add: bi_byte_def)

end
