(* ===== verification/Bigint_Arith.thy ===== *)
theory Bigint_Arith
  imports Bigint
begin

text \<open>
  Addition, multiplication, division and modular exponentiation of \<^verbatim>\<open>src/crypto/bigint.c\<close>. Each
  loop has an invariant (\<open>add_inv\<close>, \<open>mul_inv\<close>, \<open>div_inv\<close>, \<open>expmod_ok\<close>) that
  says what the variables stand for and what the routine leaves alone; the routine lemmas carry
  the same names as the routines. Exponentiation is square-and-multiply over a register, stated
  once in the locale \<open>modular_multiplier\<close> and interpreted on the code's multiply-and-reduce.
  The properties at the end are exact: they give the result code and the value for all sizes the
  struct can hold, including the sizes at which a routine refuses.
\<close>

section \<open>Addition\<close>

lemma add_room:
  assumes "bi_bits x < 8" "length (bi_data x) = 150" "i < 1191" "BITS x < 1192"
  obtains y where "add_room i (i + 1) x = Inr y" "bi_wf y" "BITS y = max (BITS x) (i + 1)" "bi_data y = bi_data x"
proof (cases "i \<ge> BITS x")
  case True
  define y where "y = x\<lparr>bi_bytes := (i + 1) div 8, bi_bits := (i + 1) mod 8\<rparr>"
  have "(i + 1) div 8 < 149" using assms(3) by linarith
  then have "add_room i (i + 1) x = Inr y" using True by (simp add: add_room_def y_def Let_def)
  moreover have B: "BITS y = i + 1" by (simp add: BITS_def y_def)
  moreover have "bi_wf y" using assms B by (simp add: bi_wf_def) (simp add: y_def)
  ultimately show ?thesis using that True by (simp add: y_def)
next
  case False
  then show ?thesis using that [of x] assms by (simp add: add_room_def bi_wf_def)
qed

definition PUT_BIT :: "bool \<Rightarrow> nat \<Rightarrow> bigint \<Rightarrow> bigint" where
  "PUT_BIT b n x = (if b then SET_BIT n x else CLR_BIT n x)"

lemma PUT_BIT_simps [simp]:
  "BITS (PUT_BIT b n x) = BITS x" "bi_bits (PUT_BIT b n x) = bi_bits x"
  "length (bi_data (PUT_BIT b n x)) = length (bi_data x)"
  by (simp_all add: PUT_BIT_def)

lemma bit_PUT_BIT:
  "bi_wf x \<Longrightarrow> n < BITS x \<Longrightarrow> bit (dval (PUT_BIT b n x)) k = (if k = n then b else bit (dval x) k)"
  by (simp add: PUT_BIT_def bit_SET_BIT bit_CLR_BIT bi_wf_def)

lemma take_bit_PUT_BIT:
  assumes "bi_wf x" "n < BITS x"
  shows "take_bit (Suc n) (dval (PUT_BIT b n x)) = 2 ^ n * of_bool b + take_bit n (dval x)"
proof -
  have "take_bit n (dval (PUT_BIT b n x)) = take_bit n (dval x)"
    using bit_PUT_BIT [OF assms] by (intro bit_eqI) (auto simp: bit_take_bit_iff)
  then show ?thesis using bit_PUT_BIT [OF assms] by (simp add: take_bit_Suc_from_most)
qed

text \<open>The bound of a sum that \<^verbatim>\<open>bigint_add\<close> can return: 148 bytes and seven bits.\<close>

definition bi_limit :: nat where
  "bi_limit = 2 ^ 1191"

lemma exp_le_bi_limit: "m \<le> 1191 \<Longrightarrow> 2 ^ m \<le> bi_limit"
  unfolding bi_limit_def by (intro power_increasing) simp_all

text \<open>The state of the loop of \<^verbatim>\<open>bigint_add\<close> at bit \<open>i\<close> with carry \<open>c\<close>.\<close>

definition add_inv :: "var \<Rightarrow> nat \<Rightarrow> nat \<Rightarrow> store \<Rightarrow> nat \<Rightarrow> nat \<Rightarrow> store \<Rightarrow> bool" where
  "add_inv s A B st0 i c st \<longleftrightarrow>
     (\<forall>v. v \<noteq> s \<longrightarrow> st v = st0 v) \<and> bi_wf (st s) \<and> BITS (st s) = max (BITS (st0 s)) i \<and>
     (\<forall>k \<ge> i. bit (dval (st s)) k = bit (dval (st0 s)) k) \<and> c \<le> 1 \<and>
     take_bit i (dval (st s)) + 2 ^ i * c = take_bit i A + take_bit i B"

lemma add_loop_step:
  assumes "i < m" "add_room i (i + 1) (st s) = Inr x" "c \<le> 1"
    "BIT ((st(s := x)) a) i = of_bool p" "BIT ((st(s := x)) b) i = of_bool q" "n = of_bool p + of_bool q + c"
  shows "add_loop s a b m i c st = add_loop s a b m (i + 1) (n div 2) (st(s := PUT_BIT (odd n) i x))"
proof -
  have "n \<le> 3" using assms by simp
  then have "n = 0 \<or> n = 1 \<or> n = 2 \<or> n = 3" by auto
  then show ?thesis
    using assms by (subst add_loop.simps) (auto simp: Let_def PUT_BIT_def)
qed

lemma add_loop:
  assumes "bi_wf (st0 a)" "bi_wf (st0 b)" "s = a \<longrightarrow> bi_clean (st0 a)" "s = b \<longrightarrow> bi_clean (st0 b)"
    "m \<le> 1191" "add_inv s (bval (st0 a)) (bval (st0 b)) st0 i c st" "i \<le> m"
  shows "\<exists>c' st'. add_loop s a b m i c st = Inr (c', st') \<and> add_inv s (bval (st0 a)) (bval (st0 b)) st0 m c' st'"
  using assms(6,7)
proof (induction "m - i" arbitrary: i c st)
  case 0
  then show ?case by (auto simp: add_loop.simps)
next
  case (Suc d)
  define A B where "A = bval (st0 a)" and "B = bval (st0 b)"
  from Suc have i: "i < m" and inv: "add_inv s A B st0 i c st" by (simp_all add: A_def B_def)
  then have I: "\<And>v. v \<noteq> s \<Longrightarrow> st v = st0 v" "bi_wf (st s)" "BITS (st s) = max (BITS (st0 s)) i"
    "\<And>k. k \<ge> i \<Longrightarrow> bit (dval (st s)) k = bit (dval (st0 s)) k" "c \<le> 1"
    "take_bit i (dval (st s)) + 2 ^ i * c = take_bit i A + take_bit i B" by (auto simp: add_inv_def)
  obtain x where x: "add_room i (i + 1) (st s) = Inr x" "bi_wf x" "BITS x = max (BITS (st s)) (i + 1)"
    "bi_data x = bi_data (st s)"
    using add_room [of "st s" i] I(2) i assms(5) by (auto simp: bi_wf_def)
  have ix: "i < BITS x" using x(3) by simp
  have read: "BIT ((st(s := x)) v) i = of_bool (bit (bval (st0 v)) i)" if "bi_wf (st0 v)" "s = v \<longrightarrow> bi_clean (st0 v)" for v
  proof (cases "v = s")
    case True
    have "bit (bval x) i = bit (dval (st0 s)) i" using ix x(4) I(4) by (simp add: bval_def bit_take_bit_iff)
    also have "\<dots> = bit (bval (st0 v)) i" using that True by (simp add: bval_clean)
    finally show ?thesis using True x(2) by (simp add: BIT_bval)
  next
    case False
    then show ?thesis using that I(1) by (simp add: BIT_bval)
  qed
  define n where "n = of_bool (bit A i) + of_bool (bit B i) + c"
  define st' where "st' = st(s := PUT_BIT (odd n) i x)"
  have step: "add_loop s a b m i c st = add_loop s a b m (i + 1) (n div 2) st'"
    unfolding st'_def by (rule add_loop_step [OF i x(1) I(5) read read])
      (use assms(1-4) in \<open>simp_all add: n_def A_def B_def\<close>)
  have "n \<le> 3" using I(5) by (simp add: n_def)
  have "add_inv s A B st0 (i + 1) (n div 2) st'"
    unfolding add_inv_def
  proof (intro conjI allI impI)
    show "v \<noteq> s \<Longrightarrow> st' v = st0 v" for v using I(1) by (simp add: st'_def)
    show "bi_wf (st' s)" using x(2) by (simp add: st'_def bi_wf_def)
    show "BITS (st' s) = max (BITS (st0 s)) (i + 1)" using x(3) I(3) by (simp add: st'_def)
    show "i + 1 \<le> k \<Longrightarrow> bit (dval (st' s)) k = bit (dval (st0 s)) k" for k
      using bit_PUT_BIT [OF x(2) ix] I(4) x(4) by (simp add: st'_def)
    show "n div 2 \<le> 1" using \<open>n \<le> 3\<close> by simp
    have "n = of_bool (odd n) + 2 * (n div 2)" by (simp add: of_bool_odd_eq_mod_2)
    then have "2 ^ i * n = 2 ^ i * of_bool (odd n) + 2 ^ (i + 1) * (n div 2)"
      by (metis distrib_left mult.assoc mult.commute power_add power_one_right)
    moreover have "take_bit (Suc i) (dval (st' s)) = 2 ^ i * of_bool (odd n) + take_bit i (dval (st s))"
      using take_bit_PUT_BIT [OF x(2) ix] x(4) by (simp add: st'_def)
    moreover have "take_bit (Suc i) A + take_bit (Suc i) B + 2 ^ i * c = 2 ^ i * n + take_bit i A + take_bit i B"
      by (simp add: take_bit_Suc_from_most n_def algebra_simps)
    ultimately show "take_bit (i + 1) (dval (st' s)) + 2 ^ (i + 1) * (n div 2) = take_bit (i + 1) A + take_bit (i + 1) B"
      using I(6) by (simp only: Suc_eq_plus1)
  qed
  with Suc.hyps(1) [of "i + 1" "n div 2" st'] Suc.hyps(2) i step show ?case by (simp add: A_def B_def)
qed

lemma take_bit_bval: "BITS i \<le> m \<Longrightarrow> take_bit m (bval i) = bval i"
  by (simp add: bval_def)

lemma normalize_trunc:
  assumes "bi_wf x" "m \<le> BITS x"
  defines "y \<equiv> normalize (x\<lparr>bi_bytes := m div 8 mod 65536, bi_bits := m mod 8\<rparr>)"
  shows "bi_wf y" "bi_clean y" "bval y = take_bit m (dval x)" "BITS y \<le> max 1 m"
    "take_bit m (dval x) < 2 ^ t \<Longrightarrow> BITS y \<le> t + 7"
proof -
  define z where "z = x\<lparr>bi_bytes := m div 8 mod 65536, bi_bits := m mod 8\<rparr>"
  have "m div 8 < 65536" using assms(1,2) unfolding bi_wf_def by linarith
  then have B: "BITS z = m" by (simp add: z_def BITS_def)
  then have w: "bi_wf z" using assms by (simp add: bi_wf_def) (simp add: z_def)
  have v: "bval z = take_bit m (dval x)" unfolding bval_def B by (simp add: z_def)
  have y: "y = normalize z" by (simp only: y_def z_def)
  show "bi_wf y" "bi_clean y" unfolding y by (rule normalize [OF w])+
  then show "bval y = take_bit m (dval x)" using normalize(3) [OF w] v y by (simp add: bval_clean)
  show "BITS y \<le> max 1 m" using normalize(4) [OF w] B y by simp
  show "take_bit m (dval x) < 2 ^ t \<Longrightarrow> BITS y \<le> t + 7" using normalize(5) [OF w] v y by simp
qed

text \<open>What \<^verbatim>\<open>bigint_add\<close> leaves in the sum, when it has \<open>c\<close> as the final carry.\<close>

definition add_fit :: "nat \<Rightarrow> bigint \<Rightarrow> bigint" where
  "add_fit m x = (if BITS x > m then normalize (x\<lparr>bi_bytes := m div 8 mod 65536, bi_bits := m mod 8\<rparr>) else x)"

lemma add_fit:
  assumes "bi_wf x" "m \<le> BITS x"
  shows "bi_wf (add_fit m x)" "bval (add_fit m x) = take_bit m (dval x)" "BITS (add_fit m x) \<le> max 1 m"
    "BITS x = m \<Longrightarrow> add_fit m x = x" "(\<forall>k \<ge> m. bit (dval x) k \<longrightarrow> k < BITS x) \<Longrightarrow> bi_clean (add_fit m x)"
proof -
  note n = normalize_trunc [OF assms]
  show "bi_wf (add_fit m x)" "bval (add_fit m x) = take_bit m (dval x)" "BITS (add_fit m x) \<le> max 1 m"
    "BITS x = m \<Longrightarrow> add_fit m x = x"
    using n assms by (auto simp: add_fit_def bval_def)
  show "bi_clean (add_fit m x)" if k: "\<forall>k \<ge> m. bit (dval x) k \<longrightarrow> k < BITS x"
  proof (cases "BITS x > m")
    case False
    then have "dval x < 2 ^ BITS x" unfolding nat_less_exp_bits using k by (metis not_le leD leI order.trans assms(2))
    then show ?thesis using False by (simp add: add_fit_def bi_clean_def)
  qed (simp add: add_fit_def n)
qed

lemma bigint_add_unfold:
  assumes "add_loop s a b m 0 0 st = Inr (c, st1)" "m = max (BITS (st a)) (BITS (st b))" "c \<le> 1"
  shows "bigint_add s a b st =
    (if c = 0 then (0, st1(s := add_fit m (st1 s)))
     else case add_room m (m + 1) (st1 s) of
         Inl x \<Rightarrow> (1, st1(s := x))
       | Inr x \<Rightarrow> (case add_room m m (SET_BIT m x) of
             Inl x \<Rightarrow> (1, st1(s := x)) | Inr x \<Rightarrow> (0, st1(s := add_fit (m + 1) x))))"
proof (cases "c = 0")
  case False
  then have "c = 1" using assms(3) by simp
  then show ?thesis using assms by (auto simp: bigint_add_def Let_def add_fit_def split: sum.splits)
qed (use assms in \<open>auto simp: bigint_add_def Let_def add_fit_def\<close>)

lemma carry_of_sum:
  fixes d S :: nat
  assumes "take_bit m d + 2 ^ m * c = S" "c \<le> 1"
  shows "c = of_bool (2 ^ m \<le> S)"
proof (cases "c = 0")
  case True
  have "take_bit m d < 2 ^ m" by simp
  then have "\<not> 2 ^ m \<le> S" using True assms(1) by (simp only: mult_0_right add_0_right not_le)
  then show ?thesis using True by simp
next
  case False
  then have "c = 1" using assms(2) by simp
  then have "2 ^ m \<le> S" using assms(1) by simp
  then show ?thesis using \<open>c = 1\<close> by simp
qed

text \<open>The last carry: the sum grows by one bit, which is set.\<close>
lemma add_last_carry:
  assumes "bi_wf z" "m \<le> BITS z" "m < 1191"
  obtains x y where "add_room m (m + 1) z = Inr x" "y = PUT_BIT True m x" "add_room m m y = Inr y" "bi_wf y"
    "BITS y = max (BITS z) (m + 1)" "take_bit (m + 1) (dval y) = 2 ^ m + take_bit m (dval z)"
    "\<And>k. m < k \<Longrightarrow> bit (dval y) k = bit (dval z) k"
proof -
  obtain x where x: "add_room m (m + 1) z = Inr x" "bi_wf x" "BITS x = max (BITS z) (m + 1)" "bi_data x = bi_data z"
    using add_room [of z m] assms by (auto simp: bi_wf_def)
  define y where "y = PUT_BIT True m x"
  have y: "bi_wf y" "BITS y = BITS x" "\<And>k. bit (dval y) k = (if k = m then True else bit (dval x) k)"
    "take_bit (m + 1) (dval y) = 2 ^ m + take_bit m (dval x)"
    using x(2,3) bit_PUT_BIT [OF x(2)] take_bit_PUT_BIT [OF x(2)] by (simp_all add: y_def bi_wf_def)
  have "add_room m m y = Inr y" using y(2) x(3) by (simp add: add_room_def)
  then show thesis using that [OF x(1) y_def] y x(3,4) by simp
qed

lemma bigint_add:
  assumes w: "bi_wf (st s)" "bi_wf (st a)" "bi_wf (st b)" and cl: "s = a \<longrightarrow> bi_clean (st a)" "s = b \<longrightarrow> bi_clean (st b)"
    and r: "bigint_add s a b st = (rv, st')" and m: "m = max (BITS (st a)) (BITS (st b))"
  shows "rv = (if bval (st a) + bval (st b) < bi_limit then 0 else 1)"
    and "\<And>v. v \<noteq> s \<Longrightarrow> st' v = st v"
    and "rv = 0 \<Longrightarrow> bi_wf (st' s) \<and> bval (st' s) = bval (st a) + bval (st b) \<and>
      BITS (st' s) \<le> max 1 (m + of_bool (2 ^ m \<le> bval (st a) + bval (st b)))"
    and "rv = 0 \<Longrightarrow> bi_clean (st s) \<Longrightarrow> bi_clean (st' s)"
    and "rv = 0 \<Longrightarrow> BITS (st s) \<le> m \<Longrightarrow> BITS (st' s) = m + of_bool (2 ^ m \<le> bval (st a) + bval (st b))"
proof -
  define A B where "A = bval (st a)" and "B = bval (st b)"
  have m1: "m \<le> 1191" using w m by (simp add: bi_wf_def)
  have i0: "add_inv s A B st 0 0 st" using w by (simp add: add_inv_def)
  obtain c st1 where l: "add_loop s a b m 0 0 st = Inr (c, st1)" and inv: "add_inv s A B st m c st1"
    using add_loop [OF w(2,3) cl m1 i0 [unfolded A_def B_def]] by (auto simp: A_def B_def)
  have I: "\<And>v. v \<noteq> s \<Longrightarrow> st1 v = st v" "bi_wf (st1 s)" "BITS (st1 s) = max (BITS (st s)) m"
    "\<And>k. k \<ge> m \<Longrightarrow> bit (dval (st1 s)) k = bit (dval (st s)) k" "c \<le> 1"
    using inv by (auto simp: add_inv_def)
  have sum: "take_bit m (dval (st1 s)) + 2 ^ m * c = A + B"
    using inv m by (simp add: add_inv_def A_def B_def take_bit_bval)
  note c = carry_of_sum [OF sum I(5)]
  have clx: "k < BITS (st1 s)" if "bi_clean (st s)" "m \<le> k" "bit (dval (st1 s)) k" for k
    using that I(3,4) bit_nat_less by (fastforce simp: bi_clean_def)
  note u = bigint_add_unfold [OF l m I(5)]
  have "(rv = (if A + B < bi_limit then 0 else 1)) \<and> (\<forall>v. v \<noteq> s \<longrightarrow> st' v = st v) \<and>
    (rv = 0 \<longrightarrow> bi_wf (st' s) \<and> bval (st' s) = A + B \<and> BITS (st' s) \<le> max 1 (m + c) \<and>
      (bi_clean (st s) \<longrightarrow> bi_clean (st' s)) \<and> (BITS (st s) \<le> m \<longrightarrow> BITS (st' s) = m + c))"
  proof (cases "c = 0")
    case True
    then have "A + B < 2 ^ m" using c by simp
    moreover have "2 ^ m \<le> bi_limit" using m1 by (rule exp_le_bi_limit)
    ultimately have lt: "A + B < bi_limit" by linarith
    have e: "rv = 0" "st' = st1(s := add_fit m (st1 s))" using u r True by auto
    note f = add_fit [OF I(2), of m]
    show ?thesis using e lt f I sum True clx by auto
  next
    case False
    then have c1: "c = 1" "2 ^ m \<le> A + B" using I(5) c by simp_all
    show ?thesis
    proof (cases "m = 1191")
      case True
      then have "BITS (st1 s) = m" using w(1) I(3) by (simp add: bi_wf_def)
      then have "rv = 1 \<and> (\<forall>v. v \<noteq> s \<longrightarrow> st' v = st v)"
        using u r False True I(1) by (auto simp: add_room_def Let_def)
      moreover have "\<not> A + B < bi_limit" using c1 True by (simp only: not_less bi_limit_def)
      ultimately show ?thesis by (simp only: if_False) simp
    next
      case False
      then have m2: "m < 1191" using m1 by simp
      obtain x y where y: "add_room m (m + 1) (st1 s) = Inr x" "y = PUT_BIT True m x" "add_room m m y = Inr y" "bi_wf y"
        "BITS y = max (BITS (st1 s)) (m + 1)" "take_bit (m + 1) (dval y) = 2 ^ m + take_bit m (dval (st1 s))"
        "\<And>k. m < k \<Longrightarrow> bit (dval y) k = bit (dval (st1 s)) k"
        using add_last_carry [OF I(2) _ m2] I(3) by auto
      then have e: "rv = 0" "st' = st1(s := add_fit (m + 1) y)" using u r c1 by (auto simp: PUT_BIT_def)
      note f = add_fit [OF y(4), of "m + 1"]
      have v: "take_bit (m + 1) (dval y) = A + B" using sum c1 y(6) by simp
      have "take_bit (m + 1) (dval y) < 2 ^ (m + 1)" by (rule take_bit_nat_less_exp)
      also have "\<dots> \<le> bi_limit" using m2 by (intro exp_le_bi_limit) simp
      finally have lt: "A + B < bi_limit" using v by simp
      have "k < BITS y" if "bi_clean (st s)" "m + 1 \<le> k" "bit (dval y) k" for k
        using clx [of k] that y(5,7) by fastforce
      then show ?thesis using e lt f v I(1,3) y(5) c1 by auto
    qed
  qed
  then show "rv = (if bval (st a) + bval (st b) < bi_limit then 0 else 1)"
    "\<And>v. v \<noteq> s \<Longrightarrow> st' v = st v"
    "rv = 0 \<Longrightarrow> bi_wf (st' s) \<and> bval (st' s) = bval (st a) + bval (st b) \<and>
      BITS (st' s) \<le> max 1 (m + of_bool (2 ^ m \<le> bval (st a) + bval (st b)))"
    "rv = 0 \<Longrightarrow> bi_clean (st s) \<Longrightarrow> bi_clean (st' s)"
    "rv = 0 \<Longrightarrow> BITS (st s) \<le> m \<Longrightarrow> BITS (st' s) = m + of_bool (2 ^ m \<le> bval (st a) + bval (st b))"
    unfolding A_def B_def by (simp_all only: c [unfolded A_def B_def] simp_thms if_True if_False)
qed

section \<open>Multiplication\<close>

definition mul_inv :: "nat \<Rightarrow> nat \<Rightarrow> nat \<Rightarrow> store \<Rightarrow> nat \<Rightarrow> store \<Rightarrow> bool" where
  "mul_inv N A B st0 i st \<longleftrightarrow>
     (\<forall>v. v \<noteq> Mul_pt \<longrightarrow> v \<noteq> Mul_at \<longrightarrow> st v = st0 v) \<and>
     bi_wf (st Mul_pt) \<and> bi_clean (st Mul_pt) \<and> bval (st Mul_pt) = A * take_bit i B \<and>
     BITS (st Mul_pt) \<le> N + i + 1 \<and>
     bi_wf (st Mul_at) \<and> bi_clean (st Mul_at) \<and> bval (st Mul_at) = A * 2 ^ i \<and> BITS (st Mul_at) = N + i"

lemma mul_add_step:
  assumes inv: "mul_inv N A B st0 i st" and A: "A < 2 ^ N" and n: "N + i < 1192"
    and r: "(if bit B i then bigint_add Mul_pt Mul_pt Mul_at st else (0, st)) = (rv, st1)"
  shows "\<forall>v. v \<noteq> Mul_pt \<longrightarrow> v \<noteq> Mul_at \<longrightarrow> st1 v = st0 v" "st1 Mul_at = st Mul_at"
    "rv = 0 \<or> rv = 1" "rv = 1 \<Longrightarrow> N + i = 1191"
    "rv = 0 \<Longrightarrow> bi_wf (st1 Mul_pt) \<and> bi_clean (st1 Mul_pt) \<and> bval (st1 Mul_pt) = A * take_bit (Suc i) B \<and>
      BITS (st1 Mul_pt) \<le> N + Suc i + 1"
proof -
  have I: "\<And>v. v \<noteq> Mul_pt \<Longrightarrow> v \<noteq> Mul_at \<Longrightarrow> st v = st0 v" "bi_wf (st Mul_pt)" "bi_clean (st Mul_pt)"
     "bval (st Mul_pt) = A * take_bit i B" "BITS (st Mul_pt) \<le> N + i + 1"
     "bi_wf (st Mul_at)" "bi_clean (st Mul_at)" "bval (st Mul_at) = A * 2 ^ i" "BITS (st Mul_at) = N + i"
    using inv by (auto simp: mul_inv_def)
  have s: "A * take_bit i B + of_bool (bit B i) * (A * 2 ^ i) = A * take_bit (Suc i) B"
    by (simp add: take_bit_Suc_from_most algebra_simps)
  have sum: "bval (st Mul_pt) + bval (st Mul_at) < 2 ^ (N + Suc i)"
  proof -
    have "bval (st Mul_at) < 2 ^ (N + i)" using bval_less [of "st Mul_at"] I(9) by simp
    moreover have "A * take_bit i B \<le> 2 ^ N * 2 ^ i"
      using A by (intro mult_mono) (simp_all add: less_imp_le)
    ultimately show ?thesis using I(4) by (simp add: power_add)
  qed
  have "(\<forall>v. v \<noteq> Mul_pt \<longrightarrow> v \<noteq> Mul_at \<longrightarrow> st1 v = st0 v) \<and> st1 Mul_at = st Mul_at \<and>
      (rv = 0 \<or> rv = 1) \<and> (rv = 1 \<longrightarrow> N + i = 1191) \<and> (rv = 0 \<longrightarrow> bi_wf (st1 Mul_pt) \<and> bi_clean (st1 Mul_pt) \<and>
        bval (st1 Mul_pt) = A * take_bit (Suc i) B \<and> BITS (st1 Mul_pt) \<le> N + Suc i + 1)"
  proof (cases "bit B i")
    case True
    then have add: "bigint_add Mul_pt Mul_pt Mul_at st = (rv, st1)" using r by simp
    note a = bigint_add [OF I(2,2,6) _ _ add refl]
    have "rv = 0 \<or> N + i = 1191"
    proof (rule disjCI)
      assume "N + i \<noteq> 1191"
      then have "(2::nat) ^ (N + Suc i) \<le> bi_limit" using n by (intro exp_le_bi_limit) simp
      then show "rv = 0" using a(1) sum I(3,7) by simp
    qed
    moreover have "max (BITS (st Mul_pt)) (BITS (st Mul_at)) \<le> N + i + 1" using I(5,9) by simp
    then have "max 1 (max (BITS (st Mul_pt)) (BITS (st Mul_at)) + of_bool p) \<le> N + Suc i + 1" for p
      by (cases p) auto
    ultimately show ?thesis
      using a I s True by (auto intro: order_trans)
  next
    case False
    then show ?thesis
      using I s r by auto
  qed
  then show "\<forall>v. v \<noteq> Mul_pt \<longrightarrow> v \<noteq> Mul_at \<longrightarrow> st1 v = st0 v" "st1 Mul_at = st Mul_at"
    "rv = 0 \<or> rv = 1" "rv = 1 \<Longrightarrow> N + i = 1191"
    "rv = 0 \<Longrightarrow> bi_wf (st1 Mul_pt) \<and> bi_clean (st1 Mul_pt) \<and> bval (st1 Mul_pt) = A * take_bit (Suc i) B \<and>
      BITS (st1 Mul_pt) \<le> N + Suc i + 1"
    by blast+
qed

lemma mul_loop:
  assumes "mul_inv N A B st0 i st" "A < 2 ^ N" "b \<notin> {Mul_pt, Mul_at}" "bi_wf (st0 b)" "B = bval (st0 b)" "i \<le> BITS (st0 b)"
  shows "\<exists>rv st'. mul_loop b i st = Some (rv, st') \<and> rv = (if N + BITS (st0 b) < 1192 then 0 else 1) \<and>
    (\<forall>v. v \<noteq> Mul_pt \<longrightarrow> v \<noteq> Mul_at \<longrightarrow> st' v = st0 v) \<and>
    (rv = 0 \<longrightarrow> mul_inv N A B st0 (BITS (st0 b)) st')"
  using assms(1,6)
proof (induction "BITS (st0 b) - i" arbitrary: i st)
  case 0
  then have i: "i = BITS (st0 b)" and b: "st b = st0 b" using assms(3) by (auto simp: mul_inv_def)
  then have "N + BITS (st0 b) < 1192" using 0 by (simp add: mul_inv_def bi_wf_def)
  then show ?case using 0 i b by (subst mul_loop.simps) (auto simp: mul_inv_def)
next
  case (Suc d)
  then have i: "i < BITS (st0 b)" and b: "st b = st0 b" using assms(3) by (auto simp: mul_inv_def)
  have n: "N + i < 1192" and wa: "bi_wf (st Mul_at)" "bi_clean (st Mul_at)" "BITS (st Mul_at) = N + i"
    "bval (st Mul_at) = A * 2 ^ i" using Suc.prems(1) by (auto simp: mul_inv_def bi_wf_def)
  have B: "BIT (st b) i = 1 \<longleftrightarrow> bit B i" using BIT_bval [OF assms(4)] b assms(5) by simp
  obtain rv st1 where r: "(if bit B i then bigint_add Mul_pt Mul_pt Mul_at st else (0, st)) = (rv, st1)" by fastforce
  note a = mul_add_step [OF Suc.prems(1) assms(2) n r]
  obtain rv2 x where x: "LEFT_SHIFT (st1 Mul_at) = (rv2, x)" by fastforce
  note sh = LEFT_SHIFT [OF wa(1,2) x [unfolded a(2)]]
  have l: "mul_loop b i st = (if rv > 0 then Some (rv, st1)
      else if rv2 = 1 then Some (1, st1(Mul_at := x)) else mul_loop b (i + 1) (st1(Mul_at := x)))"
    using i b r x B by (subst mul_loop.simps) simp
  consider "rv = 1" | "rv = 0" "N + i = 1191" | "rv = 0" "N + i < 1191" using a(3) n by linarith
  then show ?case
  proof cases
    case 1
    then have "mul_loop b i st = Some (1, st1)" "N + i = 1191" using l a(4) by simp_all
    then show ?thesis using a(1) i by simp
  next
    case 2
    then have "mul_loop b i st = Some (1, st1(Mul_at := x))" using l sh(5) wa(3) by simp
    then show ?thesis using 2 a(1) i by simp
  next
    case 3
    then have e: "mul_loop b i st = mul_loop b (i + 1) (st1(Mul_at := x))" using l sh(5) wa(3) by simp
    have "bval x = A * 2 ^ (i + 1)"
      using sh(4,6) wa bval_clean [of x] bval_clean [of "st Mul_at"] by simp
    then have "mul_inv N A B st0 (i + 1) (st1(Mul_at := x))"
      using a(1) a(5) [OF 3(1)] sh 3 wa(3) by (simp add: mul_inv_def)
    then show ?thesis using Suc.hyps(1) [of "i + 1"] Suc.hyps(2) i e by simp
  qed
qed

lemma bigint_mul:
  assumes w: "bi_wf (st a)" "bi_wf (st b)" and ab: "a \<notin> {Mul_pt, Mul_at}" "b \<notin> {Mul_pt, Mul_at}" "p \<notin> {Mul_pt, Mul_at}"
    and len: "\<And>v. length (bi_data (st v)) = 150"
  shows "\<exists>rv st'. bigint_mul p a b st = Some (rv, st') \<and>
    rv = (if BITS (st a) + BITS (st b) < 1192 then 0 else 1) \<and>
    (\<forall>v. v \<noteq> Mul_pt \<longrightarrow> v \<noteq> Mul_at \<longrightarrow> (rv = 0 \<longrightarrow> v \<noteq> p) \<longrightarrow> st' v = st v) \<and>
    (rv = 0 \<longrightarrow> bi_wf (st' p) \<and> bi_clean (st' p) \<and> bval (st' p) = bval (st a) * bval (st b) \<and>
      BITS (st' p) \<le> BITS (st a) + BITS (st b) + 1 \<and> (\<forall>v. length (bi_data (st' v)) = 150))"
proof -
  define st1 where "st1 = st(Mul_pt := bigint_zero (st Mul_pt))"
  define st2 where "st2 = bigint_copy Mul_at a st1"
  have c1: "Mul_at \<noteq> a" "bi_wf (st1 a)" "length (bi_data (st1 Mul_at)) = 150"
    using ab w len by (auto simp: st1_def)
  note c = bigint_copy [OF c1]
  have st21: "st2 v = st1 v" if "v \<noteq> Mul_at" for v unfolding st2_def using c(5) [OF that] .
  have st2: "st2 v = st v" if "v \<noteq> Mul_pt" "v \<noteq> Mul_at" for v using that st21 by (simp add: st1_def)
  have pt: "st2 Mul_pt = bigint_zero (st Mul_pt)" using st21 by (simp add: st1_def)
  have at: "bi_wf (st2 Mul_at)" "bi_clean (st2 Mul_at)" "BITS (st2 Mul_at) = BITS (st a)" "bval (st2 Mul_at) = bval (st a)"
    using c(1-4) ab(1) unfolding st2_def [symmetric] by (auto simp: st1_def)
  have b: "st2 b = st b" using ab st2 by simp
  have inv: "mul_inv (BITS (st a)) (bval (st a)) (bval (st b)) st2 0 st2"
    using at pt len by (simp add: mul_inv_def)
  have "bi_wf (st2 b)" "bval (st b) = bval (st2 b)" using w(2) b by simp_all
  from mul_loop [OF inv bval_less ab(2) this] obtain rv st3 where l: "mul_loop b 0 st2 = Some (rv, st3)"
    "rv = (if BITS (st a) + BITS (st b) < 1192 then 0 else 1)"
    "\<forall>v. v \<noteq> Mul_pt \<longrightarrow> v \<noteq> Mul_at \<longrightarrow> st3 v = st2 v"
    "rv = 0 \<longrightarrow> mul_inv (BITS (st a)) (bval (st a)) (bval (st b)) st2 (BITS (st b)) st3"
    unfolding b by blast
  show ?thesis
  proof (cases "rv = 0")
    case False
    then have "bigint_mul p a b st = Some (1, st3)"
      using l by (auto simp: bigint_mul_def Let_def st2_def [symmetric] st1_def [symmetric] split: if_splits)
    then show ?thesis using False l st2 by (auto split: if_splits)
  next
    case True
    then have e: "bigint_mul p a b st = Some (0, bigint_copy p Mul_pt st3)"
      using l by (simp add: bigint_mul_def Let_def st2_def [symmetric] st1_def [symmetric])
    have I: "bi_wf (st3 Mul_pt)" "bval (st3 Mul_pt) = bval (st a) * take_bit (BITS (st b)) (bval (st b))"
      "BITS (st3 Mul_pt) \<le> BITS (st a) + BITS (st b) + 1" "bi_wf (st3 Mul_at)"
      using l(4) True by (simp_all add: mul_inv_def)
    have p: "p \<noteq> Mul_pt" "length (bi_data (st3 p)) = 150" using ab(3) l(3) st2 len by auto
    note cp = bigint_copy [OF p(1) I(1) p(2)]
    have "length (bi_data (st3 v)) = 150" for v
      using I(1,4) l(3) st2 len by (cases "v = Mul_pt \<or> v = Mul_at") (auto simp: bi_wf_def)
    then have "length (bi_data (bigint_copy p Mul_pt st3 v)) = 150" for v
      using cp by (cases "v = p") (auto simp: bi_wf_def)
    then show ?thesis using e True l(2,3) cp I st2 by (auto simp: take_bit_bval)
  qed
qed

section \<open>Division\<close>

lemma or_low_bit:
  assumes "bi_wf x" "bi_clean x" "0 < BITS x" "even (dval x)"
    and y_def: "y = x\<lparr>bi_data := (bi_data x)[0 := bi_data x ! 0 OR of_nat (of_bool p)]\<rparr>"
  shows "bi_wf y" "bi_clean y" "BITS y = BITS x" "dval y = dval x + of_bool p" "bval y = bval x + of_bool p"
proof -
  have l: "0 < length (bi_data x)" using assms(1) by (auto simp: bi_wf_def)
  have b: "bit (dval y) k \<longleftrightarrow> bit (dval x) k \<or> k = 0 \<and> p" for k
    using l by (auto simp: y_def bit_le_val nth_list_update bit_or_iff bit_1_iff div_eq_0_iff)
  have "dval y = dval x OR of_bool p" by (rule bit_eqI) (auto simp: b bit_or_iff bit_of_bool_iff)
  also have "\<dots> = dval x + of_bool p"
    using assms(4) by (intro disjunctive_add [symmetric]) (auto simp: bit_of_bool_iff bit_0)
  finally show d: "dval y = dval x + of_bool p" .
  show B: "BITS y = BITS x" by (simp add: y_def BITS_def)
  show "bi_wf y" using assms(1) B by (simp add: bi_wf_def) (simp add: y_def)
  show "bi_clean y" unfolding bi_clean_def nat_less_exp_bits B using b assms(2,3) bit_nat_less by (auto simp: bi_clean_def)
  then show "bval y = bval x + of_bool p" using d assms(2) by (simp add: bval_clean)
qed

definition div_inv :: "var \<Rightarrow> var \<Rightarrow> store \<Rightarrow> nat \<Rightarrow> store \<Rightarrow> bool" where
  "div_inv a b st0 n st \<longleftrightarrow>
     (\<forall>v. v \<notin> {Div_qt, Div_rt, Div_bc} \<longrightarrow> st v = st0 v) \<and>
     bi_wf (st Div_bc) \<and> BITS (st Div_bc) = BITS (st0 b) \<and> bval (st Div_bc) = 2 ^ BITS (st0 b) - bval (st0 b) \<and>
     bi_wf (st Div_rt) \<and> bi_clean (st Div_rt) \<and> bval (st Div_rt) = drop_bit n (bval (st0 a)) mod bval (st0 b) \<and>
     BITS (st Div_rt) \<le> BITS (st0 a) - n + 8 \<and>
     bi_wf (st Div_qt) \<and> bi_clean (st Div_qt) \<and> BITS (st Div_qt) = BITS (st0 a) - n + 1 \<and>
     (\<forall>k. bit (dval (st Div_qt)) k \<longleftrightarrow> n \<le> k \<and> 2 * k \<le> BITS (st0 a) \<and> bit (bval (st0 a) div bval (st0 b)) k)"

text \<open>One subtraction: the remainder is reduced below the divisor and normalised.\<close>

lemma div_subtract:
  assumes w: "bi_wf (st Div_rt)" "bi_clean (st Div_rt)" "bi_wf (st b)" "bi_clean (st b)" "bi_wf (st Div_bc)"
    and bc: "BITS (st Div_bc) = BITS (st b)" "bval (st Div_bc) = 2 ^ BITS (st b) - bval (st b)"
    and b: "b \<noteq> Div_rt" "BITS (st b) \<le> 1190"
    and R: "bval (st b) \<le> bval (st Div_rt)" "bval (st Div_rt) < 2 * bval (st b)" "bval (st Div_rt) < 2 ^ t"
    and r: "bigint_add Div_rt Div_rt Div_bc st = (rv, st4)"
    and x: "x = normalize ((st4 Div_rt)\<lparr>bi_bytes := bi_bytes (st4 b), bi_bits := bi_bits (st4 b)\<rparr>)"
  shows "rv = 0" "\<And>v. v \<noteq> Div_rt \<Longrightarrow> st4 v = st v" "BITS (st4 Div_rt) > BITS (st4 b)"
    "bi_wf x" "bi_clean x" "bval x = bval (st Div_rt) - bval (st b)" "BITS x \<le> t + 7"
proof -
  define N B R where "N = BITS (st b)" and "B = bval (st b)" and "R = bval (st Div_rt)"
  have cl: "Div_rt = Div_rt \<longrightarrow> bi_clean (st Div_rt)" "Div_rt = Div_bc \<longrightarrow> bi_clean (st Div_bc)" using w(2) by simp_all
  note a = bigint_add [OF w(1) w(1) w(5) cl r refl]
  have B: "B < 2 ^ N" using bval_less by (simp add: N_def B_def)
  have sum: "R + bval (st Div_bc) = (R - B) + 2 ^ N" using B bc(2) R(1) by (simp add: N_def B_def R_def)
  have lt: "R - B < 2 ^ N" using B R(2) by (simp add: B_def R_def)
  then have "R + bval (st Div_bc) < 2 ^ (N + 1)" unfolding sum by simp
  also have "\<dots> \<le> bi_limit" using b(2) by (intro exp_le_bi_limit) (simp add: N_def)
  finally show rv: "rv = 0" using a(1) by (simp add: R_def)
  show fr: "\<And>v. v \<noteq> Div_rt \<Longrightarrow> st4 v = st v" using a(2) by blast
  have s4: "bi_wf (st4 Div_rt)" "bval (st4 Div_rt) = (R - B) + 2 ^ N" using a(3) [OF rv] sum by (simp_all add: R_def)
  have bst: "st4 b = st b" using fr b(1) by simp
  show gt: "BITS (st4 Div_rt) > BITS (st4 b)"
  proof -
    define m where "m = max (BITS (st Div_rt)) N"
    have "BITS (st4 Div_rt) = m + of_bool (2 ^ m \<le> R + bval (st Div_bc))"
      using a(5) [OF rv] bc(1) by (simp add: m_def N_def R_def)
    moreover have "2 ^ N \<le> R + bval (st Div_bc)" unfolding sum by simp
    ultimately show ?thesis unfolding bst N_def [symmetric] by (cases "m = N") (auto simp: m_def)
  qed
  define z where "z = (st4 Div_rt)\<lparr>bi_bytes := bi_bytes (st4 b), bi_bits := bi_bits (st4 b)\<rparr>"
  have z: "BITS z = N" by (simp add: z_def BITS_def bst N_def)
  have wz: "bi_wf z" using w(3) s4(1) z by (simp add: bi_wf_def N_def) (simp add: z_def bst)
  have "bval z = take_bit N (dval (st4 Div_rt))" unfolding bval_def z by (simp add: z_def)
  also have "\<dots> = take_bit N (bval (st4 Div_rt))"
    using gt unfolding bval_def bst N_def [symmetric] by simp
  also have "\<dots> = R - B" unfolding s4(2) using lt by (simp add: take_bit_eq_mod)
  finally have bz: "bval z = R - B" .
  note n = normalize [OF wz]
  show "bi_wf x" "bi_clean x" using n x by (simp_all add: z_def)
  then show "bval x = bval (st Div_rt) - bval (st b)" using n(3) bz x by (simp add: z_def [symmetric] bval_clean R_def B_def)
  have "bval z < 2 ^ t" using bz R(3) by (simp add: R_def)
  then show "BITS x \<le> t + 7" using n(5) x by (simp add: z_def)
qed

text \<open>The next bit of the dividend: the long-division recurrences for remainder and quotient.\<close>

lemma long_division:
  fixes A B i t :: nat
  assumes "0 < B"
  defines "R \<equiv> 2 * (drop_bit (Suc i) A mod B) + of_bool (bit A i)"
  shows "R < 2 * B" "R < 2 ^ t \<or> \<not> A < 2 ^ (t + i)"
    "drop_bit i A mod B = (if B \<le> R then R - B else R)" "bit (A div B) i \<longleftrightarrow> B \<le> R"
proof -
  define D where "D = drop_bit (Suc i) A"
  have m: "D mod B < B" using assms(1) by simp
  show R: "R < 2 * B" using m by (simp add: R_def D_def)
  have D: "drop_bit i A = of_bool (bit A i) + 2 * D" using drop_bit_step [of i A] by (simp add: D_def)
  have e: "drop_bit i A = R + (2 * (D div B)) * B"
    unfolding D R_def D_def [symmetric] using div_mult_mod_eq [of D B] by (metis add.commute add.left_commute add_mult_distrib2 mult.assoc mult.commute)
  then have "drop_bit i A mod B = R mod B" "drop_bit i A div B = 2 * (D div B) + R div B"
    using assms(1) by simp_all
  moreover have "R mod B = (if B \<le> R then R - B else R)" "R div B = of_bool (B \<le> R)"
    using R assms(1) by (auto simp: mod_if div_if)
  moreover have "bit (A div B) i \<longleftrightarrow> odd (drop_bit i A div B)"
    by (simp add: bit_iff_odd drop_bit_eq_div mult.commute flip: div_mult2_eq)
  ultimately show "drop_bit i A mod B = (if B \<le> R then R - B else R)" "bit (A div B) i \<longleftrightarrow> B \<le> R" by simp_all
  have "R \<le> drop_bit i A" using e by simp
  moreover have "A < 2 ^ (t + i) \<Longrightarrow> drop_bit i A < 2 ^ t"
    by (simp add: drop_bit_eq_div power_add less_mult_imp_div_less)
  ultimately show "R < 2 ^ t \<or> \<not> A < 2 ^ (t + i)" by linarith
qed

lemma qt_grow:
  assumes "bi_wf q" "bi_clean q" "BITS q + 1 < 1192"
  shows "\<exists>q'. qt_grow q = (False, q') \<and> bi_wf q' \<and> bi_clean q' \<and> BITS q' = BITS q + 1 \<and> dval q' = dval q"
proof -
  have "bi_bytes q \<le> 148" "bi_bits q < 8" using assms wf_bytes by (auto simp: bi_wf_def)
  then obtain q' where "qt_grow q = (False, q')" "BITS q' = BITS q + 1" "bi_data q' = bi_data q" "bi_bits q' < 8"
    using assms(3) by (cases "bi_bits q = 7") (auto simp: qt_grow_def Let_def BITS_def)
  then show ?thesis using assms by (auto simp: bi_wf_def bi_clean_def)
qed

lemma div_loop_step:
  assumes x: "LEFT_SHIFT (st Div_rt) = (0, x)" "BIT ((st(Div_rt := x)) a) i = of_bool p"
    and y: "y = x\<lparr>bi_data := (bi_data x)[0 := bi_data x ! 0 OR of_nat (of_bool p)]\<rparr>"
    and q: "qt_grow (st Div_qt) = (False, q)" and st3: "st3 = st(Div_rt := y, Div_qt := q)"
  shows "\<not> bigint_cmp (st3 Div_rt) (st3 b) \<ge> 0 \<Longrightarrow> div_loop a b (Suc i) st = div_loop a b i st3"
    and "\<lbrakk>bigint_cmp (st3 Div_rt) (st3 b) \<ge> 0; bigint_add Div_rt Div_rt Div_bc st3 = (0, st4);
      BITS (st4 Div_rt) > BITS (st4 b);
      st5 = st4(Div_rt := normalize ((st4 Div_rt)\<lparr>bi_bytes := bi_bytes (st4 b), bi_bits := bi_bits (st4 b)\<rparr>));
      \<not> bigint_cmp (st5 Div_rt) (st5 b) \<ge> 0\<rbrakk> \<Longrightarrow>
      div_loop a b (Suc i) st = div_loop a b i (st5(Div_qt := SET_BIT i (st5 Div_qt)))"
proof -
  have q2: "qt_grow ((st(Div_rt := y)) Div_qt) = (False, q)" using q by simp
  have z: "(0 :: int) = 1 \<longleftrightarrow> False" "(0 :: int) < 0 \<longleftrightarrow> False" by simp_all
  note s = div_loop.simps(2) Let_def x prod.case y [symmetric] fun_upd_upd q2 st3 [symmetric] z if_False
  show "div_loop a b (Suc i) st = div_loop a b i st3" if c: "\<not> bigint_cmp (st3 Div_rt) (st3 b) \<ge> 0"
    by (simp only: s if_not_P [OF c])
  show "div_loop a b (Suc i) st = div_loop a b i (st5(Div_qt := SET_BIT i (st5 Div_qt)))"
    if c: "bigint_cmp (st3 Div_rt) (st3 b) \<ge> 0" and r: "bigint_add Div_rt Div_rt Div_bc st3 = (0, st4)"
      and g: "BITS (st4 Div_rt) > BITS (st4 b)"
      and n: "st5 = st4(Div_rt := normalize ((st4 Div_rt)\<lparr>bi_bytes := bi_bytes (st4 b), bi_bits := bi_bits (st4 b)\<rparr>))"
      and c5: "\<not> bigint_cmp (st5 Div_rt) (st5 b) \<ge> 0"
    by (simp only: s if_P [OF c] r if_P [OF g] n [symmetric] if_not_P [OF c5])
qed

text \<open>The head of an iteration: the next bit of the dividend comes down and the quotient gets room.\<close>
lemma div_bring_down:
  assumes a: "a \<notin> {Div_qt, Div_rt, Div_bc}" and w: "bi_wf (st0 a)" "BITS (st0 a) \<le> 1183"
    and inv: "div_inv a b st0 (Suc i) st" "i < BITS (st0 a)"
    and p: "p = bit (bval (st0 a)) i"
  obtains x y q where "LEFT_SHIFT (st Div_rt) = (0, x)" "BIT ((st(Div_rt := x)) a) i = of_bool p"
    "y = x\<lparr>bi_data := (bi_data x)[0 := bi_data x ! 0 OR of_nat (of_bool p)]\<rparr>"
    "bi_wf y" "bi_clean y" "BITS y \<le> BITS (st0 a) - i + 8"
    "bval y = 2 * (drop_bit (Suc i) (bval (st0 a)) mod bval (st0 b)) + of_bool p"
    "qt_grow (st Div_qt) = (False, q)" "bi_wf q" "bi_clean q" "BITS q = BITS (st0 a) - i + 1"
    "dval q = dval (st Div_qt)"
proof -
  have I: "bi_wf (st Div_rt)" "bi_clean (st Div_rt)"
     "bval (st Div_rt) = drop_bit (Suc i) (bval (st0 a)) mod bval (st0 b)"
     "BITS (st Div_rt) \<le> BITS (st0 a) - Suc i + 8"
     "bi_wf (st Div_qt)" "bi_clean (st Div_qt)" "BITS (st Div_qt) = BITS (st0 a) - Suc i + 1" "st a = st0 a"
    using inv(1) a by (auto simp: div_inv_def)
  have rm: "BITS (st Div_rt) + 1 < 1192" "BITS (st Div_qt) + 1 < 1192" using I(4,7) inv(2) w(2) by simp_all
  obtain rv x where x: "LEFT_SHIFT (st Div_rt) = (rv, x)" by fastforce
  note sh = LEFT_SHIFT [OF I(1,2) x]
  define y where "y = x\<lparr>bi_data := (bi_data x)[0 := bi_data x ! 0 OR of_nat (of_bool p)]\<rparr>"
  have "0 < BITS x" "even (dval x)" using sh by simp_all
  note y = or_low_bit [OF sh(7) [OF rm(1)] sh(6) this y_def]
  have "bval y = 2 * (drop_bit (Suc i) (bval (st0 a)) mod bval (st0 b)) + of_bool p"
    using y(5) sh(4,6) I(2,3) by (simp add: bval_clean)
  moreover have "BITS y \<le> BITS (st0 a) - i + 8" using y(3) sh(1) I(4) inv(2) by simp
  moreover have "BIT ((st(Div_rt := x)) a) i = of_bool p" using a I(8) w(1) p by (simp add: BIT_bval)
  moreover have "LEFT_SHIFT (st Div_rt) = (0, x)" using x sh(5) rm by simp
  moreover obtain q where "qt_grow (st Div_qt) = (False, q)" "bi_wf q" "bi_clean q"
      "BITS q = BITS (st Div_qt) + 1" "dval q = dval (st Div_qt)"
    using qt_grow [OF I(5,6)] rm(2) by blast
  ultimately show thesis using that [of x y q] y_def y(1,2) I(7) inv(2) by simp
qed

lemma quotient_bit:
  assumes q: "bi_wf q" "BITS q = n - i + 1" "i < n"
    and bits: "\<And>k. bit (dval q) k \<longleftrightarrow> Suc i \<le> k \<and> 2 * k \<le> n \<and> bit Q k" and set: "bit Q i"
  shows "bit (dval (SET_BIT i q)) k \<longleftrightarrow> i \<le> k \<and> 2 * k \<le> n \<and> bit Q k" (is "?s k") "bi_clean (SET_BIT i q)"
proof -
  have s: "?s k" for k
  proof (cases "i < BITS q")
    case True
    then have "bit (dval (SET_BIT i q)) k \<longleftrightarrow> k = i \<or> bit (dval q) k"
      using q(1) by (intro bit_SET_BIT) (auto simp: bi_wf_def)
    moreover have "2 * i \<le> n" using True q by simp
    ultimately show ?thesis using bits [of k] set by (cases "k = i") auto
  next
    case False
    then have "2 * i > n" using q by simp
    then show ?thesis using False bits [of k] by (cases "k = i") (auto simp: SET_BIT_def)
  qed
  then show "?s k" .
  show "bi_clean (SET_BIT i q)"
    unfolding bi_clean_def nat_less_exp_bits using s q by (auto intro: le_less_trans)
qed

lemma div_loop:
  assumes ab: "a \<notin> {Div_qt, Div_rt, Div_bc}" "b \<notin> {Div_qt, Div_rt, Div_bc}"
    and w: "bi_wf (st0 a)" "bi_wf (st0 b)" "bi_clean (st0 b)" "0 < bval (st0 b)" "BITS (st0 a) \<le> 1183" "BITS (st0 b) \<le> 1190"
    and inv: "div_inv a b st0 n st" "n \<le> BITS (st0 a)"
  shows "\<exists>st'. div_loop a b n st = (0, st') \<and> div_inv a b st0 0 st'"
  using inv
proof (induction n arbitrary: st)
  case (Suc i)
  define A B NA where "A = bval (st0 a)" and "B = bval (st0 b)" and "NA = BITS (st0 a)"
  define R where "R = 2 * (drop_bit (Suc i) A mod B) + of_bool (bit A i)"
  have i: "i < NA" using Suc.prems(2) by (simp add: NA_def)
  have I: "\<And>v. v \<notin> {Div_qt, Div_rt, Div_bc} \<Longrightarrow> st v = st0 v"
     "bi_wf (st Div_bc)" "BITS (st Div_bc) = BITS (st0 b)" "bval (st Div_bc) = 2 ^ BITS (st0 b) - B"
     "\<And>k. bit (dval (st Div_qt)) k \<longleftrightarrow> Suc i \<le> k \<and> 2 * k \<le> NA \<and> bit (A div B) k"
    using Suc.prems(1) by (auto simp: div_inv_def A_def B_def NA_def)
  have A: "A < 2 ^ (NA - i + i)" using i bval_less [of "st0 a"] by (simp add: A_def NA_def)
  note ld = long_division [OF w(4), where A = A and i = i, folded B_def, folded R_def]
  obtain x y q where x: "LEFT_SHIFT (st Div_rt) = (0, x)" "BIT ((st(Div_rt := x)) a) i = of_bool (bit A i)"
      "y = x\<lparr>bi_data := (bi_data x)[0 := bi_data x ! 0 OR of_nat (of_bool (bit A i))]\<rparr>"
    and y: "bi_wf y" "bi_clean y" "BITS y \<le> NA - i + 8" "bval y = R"
    and q: "qt_grow (st Div_qt) = (False, q)" "bi_wf q" "bi_clean q" "BITS q = NA - i + 1" "dval q = dval (st Div_qt)"
    using div_bring_down [OF ab(1) w(1,5) Suc.prems(1) i [unfolded NA_def] refl]
    unfolding A_def [symmetric] B_def [symmetric] NA_def [symmetric] R_def [symmetric] by blast
  define st3 where "st3 = st(Div_rt := y, Div_qt := q)"
  have b3: "st3 b = st0 b" using ab I(1) by (auto simp: st3_def)
  have c3: "bigint_cmp (st3 Div_rt) (st3 b) \<ge> 0 \<longleftrightarrow> B \<le> R"
    using bigint_cmp [OF y(1,2) w(2,3)] b3 y(4) by (auto simp: st3_def cmp3_def B_def)
  have q3: "bit (dval q) k \<longleftrightarrow> Suc i \<le> k \<and> 2 * k \<le> NA \<and> bit (A div B) k" for k using I(5) q(5) by simp
  note step = div_loop_step [OF x q(1) st3_def, of b]
  show ?case
  proof (cases "B \<le> R")
    case False
    then have e: "div_loop a b (Suc i) st = div_loop a b i st3" using step(1) c3 by blast
    have "bit (dval q) k \<longleftrightarrow> i \<le> k \<and> 2 * k \<le> NA \<and> bit (A div B) k" for k
      using q3 [of k] ld(4) False by (cases "k = i") auto
    then have "div_inv a b st0 i st3"
      using I(1-4) y q ld(3) False by (simp add: div_inv_def st3_def A_def B_def NA_def)
    then show ?thesis using Suc.IH [of st3] e i by (simp add: NA_def)
  next
    case True
    obtain rv4 st4 where r4: "bigint_add Div_rt Div_rt Div_bc st3 = (rv4, st4)" by fastforce
    define z where "z = normalize ((st4 Div_rt)\<lparr>bi_bytes := bi_bytes (st4 b), bi_bits := bi_bits (st4 b)\<rparr>)"
    have pre: "bi_wf (st3 Div_rt)" "bi_clean (st3 Div_rt)" "bi_wf (st3 b)" "bi_clean (st3 b)" "bi_wf (st3 Div_bc)"
      "BITS (st3 Div_bc) = BITS (st3 b)" "bval (st3 Div_bc) = 2 ^ BITS (st3 b) - bval (st3 b)"
      "b \<noteq> Div_rt" "BITS (st3 b) \<le> 1190" "bval (st3 b) \<le> bval (st3 Div_rt)" "bval (st3 Div_rt) < 2 * bval (st3 b)"
      "bval (st3 Div_rt) < 2 ^ (NA - i)"
      using y w(2,3,6) I(2-4) ab b3 True ld(1) ld(2) [where t = "NA - i"] A by (auto simp: st3_def B_def)
    note s = div_subtract [OF pre r4 z_def]
    define st5 where "st5 = st4(Div_rt := z)"
    have b5: "st5 b = st0 b" "st5 Div_qt = q" using s(2) b3 ab by (simp_all add: st5_def st3_def)
    have zR: "bval z = R - B" using s(6) b3 y(4) by (simp add: st3_def B_def)
    have c5: "\<not> bigint_cmp (st5 Div_rt) (st5 b) \<ge> 0"
      using bigint_cmp [OF s(4,5) w(2,3)] zR ld(1) b5 by (auto simp: st5_def cmp3_def B_def)
    define st6 where "st6 = st5(Div_qt := SET_BIT i q)"
    have e: "div_loop a b (Suc i) st = div_loop a b i st6"
      unfolding st6_def using step(2) [OF _ _ s(3), of st5] c3 True r4 s(1) c5 b5(2) by (simp add: st5_def z_def)
    have "bit (A div B) i" using ld(4) True by simp
    note set = quotient_bit [OF q(2,4) i q3 this]
    have "div_inv a b st0 i st6"
      using set q(4) s(2,4,5,7) I(1-4) zR ld(3) True q(2)
      by (simp add: div_inv_def st6_def st5_def st3_def A_def B_def NA_def bi_wf_def)
    then show ?thesis using Suc.IH [of st6] e i by (simp add: NA_def)
  qed
qed (auto simp: div_inv_def)

definition sized :: "store \<Rightarrow> bool" where
  "sized st \<longleftrightarrow> (\<forall>v. length (bi_data (st v)) = 150)"

abbreviation div_temps :: "var set" where
  "div_temps \<equiv> {Div_qt, Div_rt, Div_bc}"

lemma bigint_div_errors:
  "bi_wf (st b) \<Longrightarrow> bval (st b) = 0 \<Longrightarrow> bigint_div q r a b st = (2, st)"
  "q = r \<Longrightarrow> bigint_div q r a b st = (2, st)"
  by (simp_all add: bigint_div_def bigint_iszero)

lemma div_start:
  assumes "a \<notin> div_temps" "b \<notin> div_temps" "bi_wf (st b)" "bi_clean (st b)" "0 < bval (st b)" "sized st"
  shows "div_inv a b st (BITS (st a)) (div_start b st)"
proof -
  define st2 where "st2 = st(Div_qt := bigint_zero (st Div_qt), Div_rt := bigint_zero (st Div_rt))"
  define st3 where "st3 = bigint_copy Div_bc b st2"
  have len: "length (bi_data (st v)) = 150" for v using assms(6) by (simp add: sized_def)
  have st2b: "st2 b = st b" using assms(2) by (auto simp: st2_def)
  have "Div_bc \<noteq> b" "bi_wf (st2 b)" "length (bi_data (st2 Div_bc)) = 150"
    using assms st2b len by (auto simp: st2_def)
  note c = bigint_copy [OF this, folded st3_def]
  note t = TWOS_COMP [OF c(1,2)]
  have s: "div_start b st = st3(Div_bc := TWOS_COMP (st3 Div_bc))"
    by (simp add: div_start_def Let_def st3_def st2_def)
  have z: "st3 Div_rt = bigint_zero (st Div_rt)" "st3 Div_qt = bigint_zero (st Div_qt)"
    "\<And>v. v \<notin> div_temps \<Longrightarrow> st3 v = st v"
    using c(5) by (auto simp: st2_def)
  have "drop_bit (BITS (st a)) (bval (st a)) = 0"
    using bval_less [of "st a"] by (simp add: drop_bit_eq_div)
  moreover have "bval (st a) div bval (st b) < 2 ^ BITS (st a)"
    using bval_less [of "st a"] by (meson div_le_dividend le_less_trans)
  then have "\<not> (BITS (st a) \<le> k \<and> bit (bval (st a) div bval (st b)) k)" for k
    using bit_nat_less leD by blast
  moreover have "bval (st3 Div_bc) = bval (st b)" "BITS (st3 Div_bc) = BITS (st b)" using c(3,4) st2b by simp_all
  ultimately show ?thesis
    unfolding div_inv_def s using t z len assms(5) by auto
qed

lemma bigint_div_unfold:
  assumes "\<not> bigint_iszero (st b)" "q \<noteq> r" "div_loop a b (BITS (div_start b st a)) (div_start b st) = (0, st5)"
  shows "bigint_div q r a b st = (0,
     let st6 = (case q of None \<Rightarrow> st5
                        | Some q \<Rightarrow> bigint_copy q Div_qt (st5(Div_qt := normalize (st5 Div_qt))))
     in case r of None \<Rightarrow> st6
                        | Some r \<Rightarrow> bigint_copy r Div_rt (st6(Div_rt := normalize (st6 Div_rt))))"
  using assms by (simp add: bigint_div_def Let_def)

text \<open>A normalised temporary copied out to a variable of the caller.\<close>

lemma copy_out:
  assumes "bi_wf (st t)" "t \<in> div_temps" "v \<notin> div_temps" "sized st"
  defines "st' \<equiv> bigint_copy v t (st(t := normalize (st t)))"
  shows "bi_wf (st' v)" "bi_clean (st' v)" "bval (st' v) = bval (st t)" "sized st'"
    "\<And>u. u \<noteq> v \<Longrightarrow> u \<noteq> t \<Longrightarrow> st' u = st u" "\<And>k. bval (st t) < 2 ^ k \<Longrightarrow> BITS (st' v) \<le> k + 7"
    "bi_tight (st' v)"
proof -
  define s where "s = st(t := normalize (st t))"
  note n = normalize [OF assms(1)]
  have vt: "v \<noteq> t" using assms(2,3) by auto
  have w: "bi_wf (s t)" "length (bi_data (s v)) = 150" using n vt assms(4) by (simp_all add: s_def sized_def)
  note c = bigint_copy [OF vt w]
  have st': "st' = bigint_copy v t s" by (simp add: st'_def s_def)
  have st: "s t = normalize (st t)" "\<And>u. u \<noteq> t \<Longrightarrow> s u = st u" by (simp_all add: s_def)
  show "bi_wf (st' v)" "bi_clean (st' v)" using c st' by simp_all
  show "bval (st' v) = bval (st t)" using c(4) n(2,3) st' st by (simp add: bval_clean)
  show "bi_tight (st' v)" using normalize_tight [OF assms(1)] c(3,4) st' st by (simp add: bi_tight_def)
  show "\<And>k. bval (st t) < 2 ^ k \<Longrightarrow> BITS (st' v) \<le> k + 7" using c(3) n(5) st' st by simp
  show fr: "\<And>u. u \<noteq> v \<Longrightarrow> u \<noteq> t \<Longrightarrow> st' u = st u" using c(5) st' st by simp
  have "length (bi_data (st' u)) = 150" for u
    using c(1) c(5) [of u] n(1) assms(4) st' st by (cases "u = v"; cases "u = t") (auto simp: bi_wf_def sized_def)
  then show "sized st'" by (simp add: sized_def)
qed

lemma copy_out_opt:
  assumes "bi_wf (st t)" "t \<in> div_temps" "\<And>v. p = Some v \<Longrightarrow> v \<notin> div_temps" "sized st"
    and st': "st' = (case p of None \<Rightarrow> st | Some v \<Rightarrow> bigint_copy v t (st(t := normalize (st t))))"
  shows "sized st'" "\<And>u. u \<noteq> t \<Longrightarrow> p \<noteq> Some u \<Longrightarrow> st' u = st u"
    "\<And>v. p = Some v \<Longrightarrow> bi_wf (st' v) \<and> bi_clean (st' v) \<and> bval (st' v) = bval (st t) \<and>
      (\<forall>k. bval (st t) < 2 ^ k \<longrightarrow> BITS (st' v) \<le> k + 7) \<and> bi_tight (st' v)"
proof -
  have "sized st' \<and> (\<forall>u. u \<noteq> t \<longrightarrow> p \<noteq> Some u \<longrightarrow> st' u = st u) \<and>
    (\<forall>v. p = Some v \<longrightarrow> bi_wf (st' v) \<and> bi_clean (st' v) \<and> bval (st' v) = bval (st t) \<and>
      (\<forall>k. bval (st t) < 2 ^ k \<longrightarrow> BITS (st' v) \<le> k + 7) \<and> bi_tight (st' v))"
  proof (cases p)
    case (Some v)
    have e: "st' = bigint_copy v t (st(t := normalize (st t)))" using st' Some by simp
    note c = copy_out [OF assms(1,2) assms(3) [OF Some] assms(4), folded e]
    show ?thesis using c Some by auto
  qed (use st' assms(4) in simp)
  then show "sized st'" "\<And>u. u \<noteq> t \<Longrightarrow> p \<noteq> Some u \<Longrightarrow> st' u = st u"
    "\<And>v. p = Some v \<Longrightarrow> bi_wf (st' v) \<and> bi_clean (st' v) \<and> bval (st' v) = bval (st t) \<and>
      (\<forall>k. bval (st t) < 2 ^ k \<longrightarrow> BITS (st' v) \<le> k + 7) \<and> bi_tight (st' v)"
    by blast+
qed

lemma bigint_div:
  assumes ab: "a \<notin> div_temps" "b \<notin> div_temps" and qr: "q \<noteq> r" "\<And>v. q = Some v \<or> r = Some v \<Longrightarrow> v \<notin> div_temps"
    and w: "bi_wf (st a)" "bi_wf (st b)" "bi_clean (st b)" "0 < bval (st b)" "BITS (st a) \<le> 1183" "BITS (st b) \<le> 1190" "sized st"
  shows "\<exists>st'. bigint_div q r a b st = (0, st') \<and> sized st' \<and>
    (\<forall>v. v \<notin> div_temps \<longrightarrow> q \<noteq> Some v \<longrightarrow> r \<noteq> Some v \<longrightarrow> st' v = st v) \<and>
    (\<forall>v. r = Some v \<longrightarrow> bi_wf (st' v) \<and> bi_clean (st' v) \<and> bval (st' v) = bval (st a) mod bval (st b) \<and>
      (\<forall>k. bval (st a) mod bval (st b) < 2 ^ k \<longrightarrow> BITS (st' v) \<le> k + 7) \<and> bi_tight (st' v)) \<and>
    (\<forall>v. q = Some v \<longrightarrow> bi_wf (st' v) \<and> bi_clean (st' v) \<and>
      bval (st' v) = take_bit (BITS (st a) div 2 + 1) (bval (st a) div bval (st b)))"
proof -
  define A B where "A = bval (st a)" and "B = bval (st b)"
  note i = div_start [OF ab w(2,3,4,7)]
  have "div_start b st a = st a" using i ab(1) by (auto simp: div_inv_def)
  then obtain st5 where l: "div_loop a b (BITS (div_start b st a)) (div_start b st) = (0, st5)" and I: "div_inv a b st 0 st5"
    using div_loop [OF ab w(1-6) i order_refl] by auto
  have I5: "\<And>v. v \<notin> div_temps \<Longrightarrow> st5 v = st v" "bi_wf (st5 Div_bc)" "bi_wf (st5 Div_rt)" "bi_wf (st5 Div_qt)" "bi_clean (st5 Div_qt)"
    "bval (st5 Div_rt) = A mod B" using I by (auto simp: div_inv_def A_def B_def)
  have q5: "bval (st5 Div_qt) = take_bit (BITS (st a) div 2 + 1) (A div B)"
  proof (rule bit_eqI)
    have "2 * k \<le> BITS (st a) \<longleftrightarrow> k < BITS (st a) div 2 + 1" for k by auto
    then show "bit (bval (st5 Div_qt)) k \<longleftrightarrow> bit (take_bit (BITS (st a) div 2 + 1) (A div B)) k" for k
      using I by (simp add: div_inv_def bval_clean bit_take_bit_iff A_def B_def)
  qed
  have "length (bi_data (st5 v)) = 150" for v
    using I5(1-4) w(7) by (cases "v \<in> div_temps") (auto simp: bi_wf_def sized_def)
  then have s5: "sized st5" by (simp add: sized_def)
  define st6 where "st6 = (case q of None \<Rightarrow> st5 | Some q \<Rightarrow> bigint_copy q Div_qt (st5(Div_qt := normalize (st5 Div_qt))))"
  define st7 where "st7 = (case r of None \<Rightarrow> st6 | Some r \<Rightarrow> bigint_copy r Div_rt (st6(Div_rt := normalize (st6 Div_rt))))"
  have e: "bigint_div q r a b st = (0, st7)"
  proof -
    have "\<not> bigint_iszero (st b)" using w(2,4) by (simp add: bigint_iszero)
    from bigint_div_unfold [OF this qr(1) l] show ?thesis
      unfolding Let_def st6_def [symmetric] st7_def [symmetric] .
  qed
  have I6: "sized st6" "\<And>v. v \<noteq> Div_qt \<Longrightarrow> q \<noteq> Some v \<Longrightarrow> st6 v = st5 v"
    "\<And>v. q = Some v \<Longrightarrow> bi_wf (st6 v) \<and> bi_clean (st6 v) \<and> bval (st6 v) = bval (st5 Div_qt)"
    using copy_out_opt [OF I5(4) _ _ s5 st6_def] qr(2) by blast+
  have "st6 Div_rt = st5 Div_rt" using I6(2) qr(2) by blast
  then have rt: "bi_wf (st6 Div_rt)" "bval (st6 Div_rt) = A mod B" using I5 by simp_all
  have I7: "sized st7" "\<And>v. v \<noteq> Div_rt \<Longrightarrow> r \<noteq> Some v \<Longrightarrow> st7 v = st6 v"
    "\<And>v. r = Some v \<Longrightarrow> bi_wf (st7 v) \<and> bi_clean (st7 v) \<and> bval (st7 v) = A mod B \<and>
      (\<forall>k. A mod B < 2 ^ k \<longrightarrow> BITS (st7 v) \<le> k + 7) \<and> bi_tight (st7 v)"
    using copy_out_opt [OF rt(1) _ _ I6(1) st7_def] qr(2) unfolding rt(2) by blast+
  have Q: "bi_wf (st7 v) \<and> bi_clean (st7 v) \<and> bval (st7 v) = bval (st5 Div_qt)" if "q = Some v" for v
    using I6(3) [OF that] I7(2) [of v] qr that by auto
  have F: "st7 v = st v" if "v \<notin> div_temps" "q \<noteq> Some v" "r \<noteq> Some v" for v
    using that I7(2) I6(2) I5(1) by simp
  show ?thesis
    unfolding A_def [symmetric] B_def [symmetric]
  proof (intro exI conjI)
    show "bigint_div q r a b st = (0, st7)" by (rule e)
  qed (use I7(1,3) Q F q5 in simp_all)
qed

section \<open>Exponentiation\<close>

text \<open>
  What square-and-multiply needs of the arithmetic below it: a register that can be squared and
  multiplied by a fixed number, both modulo \<open>C\<close>, while a condition on the state is kept.
\<close>

locale modular_multiplier =
  fixes ok :: "'s \<Rightarrow> bool" and reg :: "'s \<Rightarrow> nat"
    and square :: "'s \<Rightarrow> 's option" and times :: "'s \<Rightarrow> 's option" and C R :: nat
  assumes square: "ok s \<Longrightarrow> \<exists>s'. square s = Some s' \<and> ok s' \<and> reg s' = reg s * reg s mod C"
    and times: "ok s \<Longrightarrow> \<exists>s'. times s = Some s' \<and> ok s' \<and> reg s' = reg s * R mod C"
begin

primrec power_loop :: "nat \<Rightarrow> nat \<Rightarrow> 's \<Rightarrow> 's option" where
  "power_loop e 0 s = Some s"
| "power_loop e (Suc i) s =
     Option.bind (square s) (\<lambda>s. if bit e i then Option.bind (times s) (power_loop e i) else power_loop e i s)"

lemma power_loop_reg:
  assumes "ok s"
  shows "\<exists>s'. power_loop e n s = Some s' \<and> ok s' \<and>
    reg s' mod C = reg s ^ (2 ^ n) * R ^ take_bit n e mod C \<and> (0 < n \<longrightarrow> reg s' mod C = reg s')"
  using assms
proof (induction n arbitrary: s)
  case (Suc i)
  obtain s1 where s1: "square s = Some s1" "ok s1" "reg s1 = reg s * reg s mod C" using square [OF Suc.prems] by blast
  obtain s2 where s2: "(if bit e i then times s1 else Some s1) = Some s2" "ok s2"
    "reg s2 mod C = reg s * reg s * R ^ of_bool (bit e i) mod C" "reg s2 mod C = reg s2"
    using times [OF s1(2)] s1 by (cases "bit e i") (auto simp: mod_simps)
  obtain s3 where s3: "power_loop e i s2 = Some s3" "ok s3"
    "reg s3 mod C = reg s2 ^ (2 ^ i) * R ^ take_bit i e mod C" "0 < i \<longrightarrow> reg s3 mod C = reg s3"
    using Suc.IH [OF s2(2)] by blast
  have e: "power_loop e (Suc i) s = Some s3" using s1(1) s2(1) s3(1) by (auto split: if_splits)
  have "reg s2 ^ (2 ^ i) mod C = (reg s * reg s * R ^ of_bool (bit e i)) ^ (2 ^ i) mod C"
    using s2(3) by (metis power_mod)
  also have "(reg s * reg s * R ^ of_bool (bit e i)) ^ (2 ^ i) =
      reg s ^ (2 ^ Suc i) * R ^ (2 ^ i * of_bool (bit e i))"
    by (simp add: power_mult_distrib mult.commute flip: power_mult power2_eq_square)
  finally have "reg s3 mod C = reg s ^ (2 ^ Suc i) * R ^ (2 ^ i * of_bool (bit e i)) * R ^ take_bit i e mod C"
    using s3(3) by (metis mod_mult_left_eq)
  also have "\<dots> = reg s ^ (2 ^ Suc i) * R ^ take_bit (Suc i) e mod C"
    by (simp add: take_bit_Suc_from_most power_add mult.assoc)
  finally have r: "reg s3 mod C = reg s ^ (2 ^ Suc i) * R ^ take_bit (Suc i) e mod C" .
  moreover have "reg s3 mod C = reg s3" using s2(4) s3(1,4) by (cases i) auto
  ultimately show ?case using e s3(2) by simp
qed simp

end

lemma on_success_simps [simp]:
  "on_success (Some (0, st)) k = k st" "0 < rv \<Longrightarrow> on_success (Some (rv, st)) k = Some (rv, st)"
  by (simp_all add: on_success_def)

abbreviation temps :: "var set" where
  "temps \<equiv> {Mul_pt, Mul_at, Div_qt, Div_rt, Div_bc, Expmod_xt, Expmod_r}"

text \<open>
  The state of the exponentiation loop: the modulus and the exponent are variables of the
  caller, the two registers are small enough for a product to be divided again.
\<close>

definition expmod_ok :: "var \<Rightarrow> var \<Rightarrow> store \<Rightarrow> nat \<Rightarrow> store \<Rightarrow> bool" where
  "expmod_ok b c st0 R st \<longleftrightarrow>
     b \<notin> temps \<and> c \<notin> temps \<and> bi_wf (st0 b) \<and> bi_wf (st0 c) \<and> bi_clean (st0 c) \<and> 0 < bval (st0 c) \<and> BITS (st0 c) \<le> 584 \<and>
     (\<forall>v. v \<notin> temps \<longrightarrow> st v = st0 v) \<and> sized st \<and>
     bi_wf (st Expmod_xt) \<and> bi_clean (st Expmod_xt) \<and> BITS (st Expmod_xt) \<le> 591 \<and> bi_tight (st Expmod_xt) \<and>
     bi_wf (st Expmod_r) \<and> bi_clean (st Expmod_r) \<and> BITS (st Expmod_r) \<le> 591 \<and> bval (st Expmod_r) = R"

text \<open>\<open>x = x * y % c\<close> on the register, as the loop body does it twice.\<close>

definition mulmod :: "var \<Rightarrow> var \<Rightarrow> store \<Rightarrow> store option" where
  "mulmod y c st =
     Option.bind (bigint_mul Expmod_xt Expmod_xt y st) (\<lambda>(rv, st).
       if rv > 0 then None else
       let (rv, st) = bigint_div None (Some Expmod_xt) Expmod_xt c st in if rv > 0 then None else Some st)"

lemma mulmod_continues:
  assumes "mulmod y c st = Some st'"
  shows "on_success (bigint_mul Expmod_xt Expmod_xt y st) (\<lambda>st.
      on_success (Some (bigint_div None (Some Expmod_xt) Expmod_xt c st)) k) = k st'"
  using assms by (auto simp: mulmod_def on_success_def Let_def split: option.splits if_splits prod.splits bind_splits)

lemma mulmod_ok:
  assumes ok: "expmod_ok b c st0 R st" and y: "y = Expmod_xt \<or> y = Expmod_r"
  shows "\<exists>st'. mulmod y c st = Some st' \<and> expmod_ok b c st0 R st' \<and>
    bval (st' Expmod_xt) = bval (st Expmod_xt) * bval (st y) mod bval (st0 c)"
proof -
  have s: "b \<notin> temps" "c \<notin> temps" "bi_wf (st0 b)" "bi_wf (st0 c)" "bi_clean (st0 c)" "0 < bval (st0 c)" "BITS (st0 c) \<le> 584"
     "\<And>v. v \<notin> temps \<Longrightarrow> st v = st0 v" "sized st"
     "bi_wf (st Expmod_xt)" "BITS (st Expmod_xt) \<le> 591" "bi_wf (st y)" "BITS (st y) \<le> 591"
     "bi_wf (st Expmod_r)" "bi_clean (st Expmod_r)" "BITS (st Expmod_r) \<le> 591" "bval (st Expmod_r) = R"
    using ok y by (auto simp: expmod_ok_def)
  have nt: "Expmod_xt \<notin> {Mul_pt, Mul_at}" "y \<notin> {Mul_pt, Mul_at}" using y by auto
  obtain st1 where m: "bigint_mul Expmod_xt Expmod_xt y st = Some (0, st1)"
    "\<And>v. v \<noteq> Mul_pt \<Longrightarrow> v \<noteq> Mul_at \<Longrightarrow> v \<noteq> Expmod_xt \<Longrightarrow> st1 v = st v"
    "bi_wf (st1 Expmod_xt)" "bval (st1 Expmod_xt) = bval (st Expmod_xt) * bval (st y)"
    "BITS (st1 Expmod_xt) \<le> BITS (st Expmod_xt) + BITS (st y) + 1" "sized st1"
    using bigint_mul [OF s(10,12) nt(1) nt(2) nt(1)] s(9,11,13) unfolding sized_def by auto
  have c1: "st1 c = st0 c" using m(2) [of c] s(2,8) by auto
  have d: "Expmod_xt \<notin> div_temps" "c \<notin> div_temps" "None \<noteq> Some Expmod_xt"
    "\<And>v. None = Some v \<or> Some Expmod_xt = Some v \<Longrightarrow> v \<notin> div_temps" using s(2) by auto
  have w: "bi_wf (st1 c)" "bi_clean (st1 c)" "0 < bval (st1 c)" "BITS (st1 Expmod_xt) \<le> 1183" "BITS (st1 c) \<le> 1190"
    using c1 s m(5) by simp_all
  obtain st2 where st2: "bigint_div None (Some Expmod_xt) Expmod_xt c st1 = (0, st2)" "sized st2"
    "\<And>v. v \<notin> div_temps \<Longrightarrow> v \<noteq> Expmod_xt \<Longrightarrow> st2 v = st1 v"
    "bi_wf (st2 Expmod_xt)" "bi_clean (st2 Expmod_xt)" "bval (st2 Expmod_xt) = bval (st1 Expmod_xt) mod bval (st1 c)"
    "\<And>k. bval (st1 Expmod_xt) mod bval (st1 c) < 2 ^ k \<Longrightarrow> BITS (st2 Expmod_xt) \<le> k + 7" "bi_tight (st2 Expmod_xt)"
    using bigint_div [OF d m(3) w m(6)] by auto
  have "bval (st1 Expmod_xt) mod bval (st1 c) < bval (st1 c)" using w(3) by simp
  also have "\<dots> < 2 ^ BITS (st1 c)" by (rule bval_less)
  finally have "BITS (st2 Expmod_xt) \<le> 591" using st2(7) [of "BITS (st1 c)"] c1 s(7) by simp
  moreover have "mulmod y c st = Some st2" using m(1) st2(1) by (simp add: mulmod_def)
  moreover have "st2 v = st0 v" if "v \<notin> temps" for v using that st2(3) m(2) s(8) by auto
  moreover have "st2 Expmod_r = st Expmod_r" using st2(3) m(2) by auto
  ultimately show ?thesis using s st2(2,4-6,8) m(4) c1 by (auto simp: expmod_ok_def)
qed

interpretation expm: modular_multiplier "expmod_ok b c st0 R" "\<lambda>st. bval (st Expmod_xt)"
    "mulmod Expmod_xt c" "mulmod Expmod_r c" "bval (st0 c)" R for b c st0 R
proof
  show "\<exists>s'. mulmod Expmod_xt c s = Some s' \<and> expmod_ok b c st0 R s' \<and>
      bval (s' Expmod_xt) = bval (s Expmod_xt) * bval (s Expmod_xt) mod bval (st0 c)"
    if "expmod_ok b c st0 R s" for s using mulmod_ok [OF that] by blast
  show "\<exists>s'. mulmod Expmod_r c s = Some s' \<and> expmod_ok b c st0 R s' \<and>
      bval (s' Expmod_xt) = bval (s Expmod_xt) * R mod bval (st0 c)"
    if "expmod_ok b c st0 R s" for s using mulmod_ok [OF that, of Expmod_r] that by (auto simp: expmod_ok_def)
qed

lemma expmod_loop:
  assumes "expmod_ok b c st0 R st" "expm.power_loop c (bval (st0 b)) n st = Some st'"
  shows "expmod_loop b c n st = Some (0, st')"
  using assms
proof (induction n arbitrary: st)
  case (Suc i)
  obtain s1 where s1: "mulmod Expmod_xt c st = Some s1" "expmod_ok b c st0 R s1"
    using mulmod_ok [OF Suc.prems(1)] by blast
  have "s1 b = st0 b" "bi_wf (st0 b)" using s1(2) by (auto simp: expmod_ok_def)
  then have B: "BIT (s1 b) i = 1 \<longleftrightarrow> bit (bval (st0 b)) i" by (simp add: BIT_bval)
  show ?case
  proof (cases "bit (bval (st0 b)) i")
    case True
    obtain s2 where s2: "mulmod Expmod_r c s1 = Some s2" "expmod_ok b c st0 R s2"
      using mulmod_ok [OF s1(2)] by blast
    then have "expm.power_loop c (bval (st0 b)) i s2 = Some st'" using Suc.prems(2) s1 True by simp
    then show ?thesis
      using Suc.IH [OF s2(2)] B True mulmod_continues [OF s1(1)] mulmod_continues [OF s2(1)] by simp
  next
    case False
    then have "expm.power_loop c (bval (st0 b)) i s1 = Some st'" using Suc.prems(2) s1 by simp
    then show ?thesis using Suc.IH [OF s1(2)] B False mulmod_continues [OF s1(1)] by simp
  qed
qed simp

lemma bigint_expmod:
  assumes v: "a \<notin> temps" "b \<notin> temps" "c \<notin> temps" "x \<notin> temps" and st: "sized st"
    and a: "bi_wf (st a)" "BITS (st a) \<le> 1183" and b: "bi_wf (st b)" "0 < BITS (st b)"
    and c: "bi_wf (st c)" "bi_clean (st c)" "0 < bval (st c)" "BITS (st c) \<le> 584"
  shows "\<exists>st'. bigint_expmod x a b c st = Some (0, st') \<and> sized st' \<and> bi_wf (st' x) \<and> bi_clean (st' x) \<and> bi_tight (st' x) \<and>
    bval (st' x) = bval (st a) ^ bval (st b) mod bval (st c) \<and> (\<forall>v. v \<notin> temps \<longrightarrow> v \<noteq> x \<longrightarrow> st' v = st v)"
proof -
  define one where "one = SET_BIT 0 (bigint_zero (st Expmod_xt))"
  have l: "length (bi_data (st Expmod_xt)) = 150" using st by (simp add: sized_def)
  have z: "dval (bigint_zero (st Expmod_xt)) = 0" "BITS (bigint_zero (st Expmod_xt)) = 1" using l by simp_all
  have o: "BITS one = 1" "bi_wf one" using l z by (simp_all add: one_def bi_wf_def)
  have "dval one = 1"
    by (rule bit_eqI) (use l z in \<open>simp add: one_def bit_SET_BIT bit_1_iff del: One_nat_def\<close>)
  then have "bi_clean one" "bval one = 1" using o by (simp_all add: bi_clean_def bval_def)
  moreover have "bi_tight one" using o by (simp add: bi_tight_def)
  ultimately have "bi_clean one" "bval one = 1" "bi_tight one" by simp_all
  note o = o this
  define st1 where "st1 = st(Expmod_xt := one)"
  have s1: "sized st1" using st o(2) by (simp add: st1_def sized_def bi_wf_def)
  have e1: "st1 v = st v" if "v \<notin> temps" for v using that by (auto simp: st1_def)
  have d: "a \<notin> div_temps" "c \<notin> div_temps" "None \<noteq> Some Expmod_r"
    "\<And>v. None = Some v \<or> Some Expmod_r = Some v \<Longrightarrow> v \<notin> div_temps" using v by auto
  have w: "bi_wf (st1 a)" "bi_wf (st1 c)" "bi_clean (st1 c)" "0 < bval (st1 c)" "BITS (st1 a) \<le> 1183" "BITS (st1 c) \<le> 1190"
    using a c v e1 by simp_all
  obtain st2 where st2: "bigint_div None (Some Expmod_r) a c st1 = (0, st2)" "sized st2"
    "\<And>v. v \<notin> div_temps \<Longrightarrow> v \<noteq> Expmod_r \<Longrightarrow> st2 v = st1 v"
    "bi_wf (st2 Expmod_r)" "bi_clean (st2 Expmod_r)" "bval (st2 Expmod_r) = bval (st a) mod bval (st c)"
    "\<And>k. bval (st a) mod bval (st c) < 2 ^ k \<Longrightarrow> BITS (st2 Expmod_r) \<le> k + 7"
    using bigint_div [OF d w s1] e1 v by auto
  define A where "A = bval (st a) mod bval (st c)"
  have "bval (st a) mod bval (st c) < bval (st c)" using c by simp
  also have "\<dots> < 2 ^ BITS (st c)" by (rule bval_less)
  finally have "BITS (st2 Expmod_r) \<le> 591" using st2(7) [of "BITS (st c)"] c by simp
  moreover have e2: "st2 v = st v" if "v \<notin> temps" for v using st2(3) [of v] that e1 by auto
  moreover have x2: "st2 Expmod_xt = one" using st2(3) by (simp add: st1_def)
  ultimately have ok: "expmod_ok b c st A st2"
    using v b c st2 o by (simp add: expmod_ok_def A_def)
  define n where "n = BITS (st b)"
  obtain st3 where st3: "expm.power_loop c (bval (st b)) n st2 = Some st3" "expmod_ok b c st A st3"
    "bval (st3 Expmod_xt) mod bval (st c) = bval (st2 Expmod_xt) ^ (2 ^ n) * A ^ take_bit n (bval (st b)) mod bval (st c)"
    "bval (st3 Expmod_xt) mod bval (st c) = bval (st3 Expmod_xt)"
    using expm.power_loop_reg [OF ok, of "bval (st b)" n] b by (auto simp: n_def)
  have "bval (st3 Expmod_xt) = A ^ bval (st b) mod bval (st c)"
    using st3(3,4) x2 o(4) take_bit_bval [of "st b" n] by (simp add: n_def)
  also have "\<dots> = bval (st a) ^ bval (st b) mod bval (st c)" by (simp add: A_def power_mod)
  finally have val: "bval (st3 Expmod_xt) = bval (st a) ^ bval (st b) mod bval (st c)" .
  have "expmod_loop b c n st2 = Some (0, st3)" using expmod_loop [OF ok st3(1)] .
  then have e: "bigint_expmod x a b c st = Some (0, bigint_copy x Expmod_xt st3)"
    using st2(1) e2 [OF v(2)] by (simp add: bigint_expmod_def Let_def st1_def one_def n_def)
  have p: "x \<noteq> Expmod_xt" "bi_wf (st3 Expmod_xt)" "length (bi_data (st3 x)) = 150"
    using v(4) st3(2) unfolding expmod_ok_def sized_def by blast+
  note cp = bigint_copy [OF p]
  have "length (bi_data (bigint_copy x Expmod_xt st3 v)) = 150" for v
    using cp(1) cp(5) [of v] st3(2) by (cases "v = x") (auto simp: bi_wf_def expmod_ok_def sized_def)
  then show ?thesis using e cp val st3(2) by (auto simp: sized_def expmod_ok_def bi_tight_def)
qed

lemma bigint_expmod_zero:
  assumes "bi_wf (st c)" "bval (st c) = 0" "c \<noteq> Expmod_xt"
  shows "\<exists>st'. bigint_expmod x a b c st = Some (2, st')"
proof -
  define st1 where "st1 = st(Expmod_xt := SET_BIT 0 (bigint_zero (st Expmod_xt)))"
  have "st1 c = st c" using assms(3) by (simp add: st1_def)
  then have "bigint_div None (Some Expmod_r) a c st1 = (2, st1)" using assms bigint_div_errors(1) [of st1 c] by simp
  then show ?thesis by (simp add: bigint_expmod_def Let_def flip: st1_def)
qed

section \<open>Properties\<close>

text \<open>A store whose variables all hold zero but three.\<close>

definition bi_store :: "u8 \<Rightarrow> u8 \<Rightarrow> u8 \<Rightarrow> store" where
  "bi_store a b c = (\<lambda>_. bi_byte 0)(Var 0 := bi_byte a, Var 1 := bi_byte b, Var 2 := bi_byte c)"

lemma bi_store [simp]:
  "bi_store a b c (Var 0) = bi_byte a" "bi_store a b c (Var (Suc 0)) = bi_byte b" "bi_store a b c (Var 2) = bi_byte c"
  "bi_store a b c (Var 3) = bi_byte 0" "sized (bi_store a b c)"
  by (simp_all add: bi_store_def sized_def)

text \<open>
  \<^verbatim>\<open>bigint_add\<close> computes the exact sum, in place or not. It returns 0 exactly when the sum is
  below \<open>2 ^ 1191\<close> and 1 otherwise, writes no other variable, and leaves a well-formed number.
\<close>

theorem bigint_add_exact:
  assumes "bi_wf (st s)" "bi_wf (st a)" "bi_wf (st b)" "s = a \<longrightarrow> bi_clean (st a)" "s = b \<longrightarrow> bi_clean (st b)"
  shows "\<exists>rv st'. bigint_add s a b st = (rv, st') \<and>
    rv = (if bval (st a) + bval (st b) < 2 ^ 1191 then 0 else 1) \<and> (\<forall>v. v \<noteq> s \<longrightarrow> st' v = st v) \<and>
    (rv = 0 \<longrightarrow> bi_wf (st' s) \<and> bval (st' s) = bval (st a) + bval (st b))"
proof -
  obtain rv st' where r: "bigint_add s a b st = (rv, st')" by fastforce
  note a = bigint_add [OF assms r refl]
  show ?thesis
    using a(1-3) unfolding bi_limit_def by (intro exI [of _ rv] exI [of _ st'] conjI r) blast+
qed

lemma bigint_add_exact_witness:
  "\<exists>st'. bigint_add (Var 0) (Var 0) (Var 1) (bi_store 200 100 0) = (0, st') \<and> bval (st' (Var 0)) = 300"
proof -
  define st where "st = bi_store 200 100 0"
  have w: "bi_wf (st (Var 0))" "bi_wf (st (Var 1))" "bi_clean (st (Var 0))" "bi_clean (st (Var 1))"
    and v: "bval (st (Var 0)) + bval (st (Var 1)) = 300" by (simp_all add: st_def)
  have "(300 :: nat) < 2 ^ 10" by simp
  also have "\<dots> \<le> 2 ^ 1191" by (rule power_increasing) simp_all
  finally have lt: "(300 :: nat) < 2 ^ 1191" .
  obtain rv st' where r: "bigint_add (Var 0) (Var 0) (Var 1) st = (rv, st')"
    "rv = (if bval (st (Var 0)) + bval (st (Var 1)) < 2 ^ 1191 then 0 else 1)"
    "rv = 0 \<longrightarrow> bi_wf (st' (Var 0)) \<and> bval (st' (Var 0)) = bval (st (Var 0)) + bval (st (Var 1))"
    using bigint_add_exact [OF w(1) w(1) w(2) impI [OF w(3)] impI [OF w(4)]] by blast
  have "rv = 0" using r(2) unfolding v if_P [OF lt] .
  with r v show ?thesis by (simp add: st_def)
qed

text \<open>
  C21: \<^verbatim>\<open>bigint_mul\<close> returns for all inputs. The result is 0 and the exact product whenever the two
  recorded sizes add up to less than 1192 bits, and 1 otherwise; only the target and the two
  temporaries change.
\<close>

theorem bigint_mul_exact:
  assumes "bi_wf (st a)" "bi_wf (st b)" "a \<notin> {Mul_pt, Mul_at}" "b \<notin> {Mul_pt, Mul_at}" "p \<notin> {Mul_pt, Mul_at}"
    "sized st"
  shows "\<exists>rv st'. bigint_mul p a b st = Some (rv, st') \<and>
    rv = (if BITS (st a) + BITS (st b) < 1192 then 0 else 1) \<and>
    (\<forall>v. v \<notin> {Mul_pt, Mul_at, p} \<longrightarrow> st' v = st v) \<and>
    (rv = 0 \<longrightarrow> bi_wf (st' p) \<and> bi_clean (st' p) \<and> bval (st' p) = bval (st a) * bval (st b))"
  using bigint_mul [OF assms(1-5)] assms(6) unfolding sized_def by blast

lemma bigint_mul_exact_witness:
  "\<exists>st'. bigint_mul (Var 2) (Var 0) (Var 1) (bi_store 200 100 0) = Some (0, st') \<and> bval (st' (Var 2)) = 20000"
  using bigint_mul_exact [of "bi_store 200 100 0" "Var 0" "Var 1" "Var 2"] by auto

text \<open>
  C20: \<^verbatim>\<open>bigint_div\<close> with a remainder variable (the only way the firmware calls it) succeeds and
  leaves \<open>a mod b\<close> there, for a dividend of up to 1183 and a non-zero divisor of up to 1190 bits.
  In particular its assertion \<^verbatim>\<open>r < b\<close> (result 3) never fails and no temporary overflows. The
  remainder may overwrite the dividend or the divisor; all other variables of the caller keep
  their values.
\<close>

theorem bigint_div_remainder:
  assumes "a \<notin> div_temps" "b \<notin> div_temps" "r \<notin> div_temps" "sized st"
    "bi_wf (st a)" "bi_wf (st b)" "bi_clean (st b)" "0 < bval (st b)" "BITS (st a) \<le> 1183" "BITS (st b) \<le> 1190"
  shows "\<exists>st'. bigint_div None (Some r) a b st = (0, st') \<and>
    bi_wf (st' r) \<and> bi_clean (st' r) \<and> bval (st' r) = bval (st a) mod bval (st b) \<and>
    (\<forall>v. v \<notin> div_temps \<longrightarrow> v \<noteq> r \<longrightarrow> st' v = st v)"
  using bigint_div [of a b None "Some r" st] assms by auto

lemma bigint_div_remainder_witness:
  "\<exists>st'. bigint_div None (Some (Var 0)) (Var 0) (Var 1) (bi_store 200 7 0) = (0, st') \<and> bval (st' (Var 0)) = 4"
  using bigint_div_remainder [of "Var 0" "Var 1" "Var 0" "bi_store 200 7 0"] by auto

text \<open>
  C37: the quotient of \<^verbatim>\<open>bigint_div\<close> is only right in its lower half. \<^verbatim>\<open>SET_BIT(&div_qt, i)\<close> does nothing
  while \<open>i\<close> is not below the current size of \<^verbatim>\<open>div_qt\<close>, and that size grows with the loop, so what
  is stored is the quotient modulo \<open>2 ^ (BITS a div 2 + 1)\<close>, exactly.
\<close>

theorem bigint_div_quotient:
  assumes "a \<notin> div_temps" "b \<notin> div_temps" "q \<notin> div_temps" "sized st"
    "bi_wf (st a)" "bi_wf (st b)" "bi_clean (st b)" "0 < bval (st b)" "BITS (st a) \<le> 1183" "BITS (st b) \<le> 1190"
  shows "\<exists>st'. bigint_div (Some q) None a b st = (0, st') \<and> bi_wf (st' q) \<and>
    bval (st' q) = bval (st a) div bval (st b) mod 2 ^ (BITS (st a) div 2 + 1)"
  using bigint_div [of a b "Some q" None st] assms by (auto simp: take_bit_eq_mod)

lemma bigint_div_quotient_witness:
  "\<exists>st'. bigint_div (Some (Var 2)) None (Var 0) (Var 1) (bi_store 200 1 0) = (0, st') \<and>
     bval (st' (Var 2)) = 8 \<and> bval (bi_store 200 1 0 (Var 0)) div bval (bi_store 200 1 0 (Var 1)) = 200"
  using bigint_div_quotient [of "Var 0" "Var 1" "Var 2" "bi_store 200 1 0"] by auto

text \<open>
  C11: \<^verbatim>\<open>bigint_expmod\<close> returns 0 and \<open>a ^ b mod c\<close>, for every modulus of up to 584 bits other than
  zero, every base of up to 1183 bits and every exponent with at least one recorded bit; no other
  variable of the caller changes. The RSA keys of the build tools have 512 bits.
\<close>

theorem bigint_expmod_correct:
  assumes "a \<notin> temps" "b \<notin> temps" "c \<notin> temps" "x \<notin> temps" "sized st"
    "bi_wf (st a)" "BITS (st a) \<le> 1183" "bi_wf (st b)" "0 < BITS (st b)"
    "bi_wf (st c)" "bi_clean (st c)" "0 < bval (st c)" "BITS (st c) \<le> 584"
  shows "\<exists>st'. bigint_expmod x a b c st = Some (0, st') \<and> bi_wf (st' x) \<and> bi_clean (st' x) \<and>
    bval (st' x) = bval (st a) ^ bval (st b) mod bval (st c) \<and> (\<forall>v. v \<notin> temps \<longrightarrow> v \<noteq> x \<longrightarrow> st' v = st v)"
  using bigint_expmod [OF assms] by blast

lemma bigint_expmod_correct_witness:
  "\<exists>st'. bigint_expmod (Var 3) (Var 0) (Var 1) (Var 2) (bi_store 5 3 13) = Some (0, st') \<and> bval (st' (Var 3)) = 8"
  using bigint_expmod_correct [of "Var 0" "Var 1" "Var 2" "Var 3" "bi_store 5 3 13"] by auto

text \<open>
  The errors of \<^verbatim>\<open>bigint_div\<close> and \<^verbatim>\<open>bigint_expmod\<close>: a zero divisor gives 2 and changes nothing, the
  same variable for quotient and remainder (or neither) gives 2 and changes nothing, a zero
  modulus makes the exponentiation return 2.
\<close>

theorem bigint_div_zero:
  assumes "bi_wf (st b)" "bval (st b) = 0" "b \<noteq> Expmod_xt"
  shows "bigint_div q r a b st = (2, st) \<and> bigint_div q q a c st = (2, st) \<and>
    (\<exists>st'. bigint_expmod x a e b st = Some (2, st'))"
  using bigint_div_errors(1) [of st b, OF assms(1,2)] bigint_div_errors(2) [OF refl] bigint_expmod_zero [of st b, OF assms] by blast

lemma bigint_div_zero_witness:
  "bigint_div None (Some (Var 0)) (Var 0) (Var 1) (bi_store 5 0 13) = (2, bi_store 5 0 13)"
  using bigint_div_zero [of "bi_store 5 0 13" "Var 1"] by simp

end
