(* ===== verification/Rsa.thy ===== *)
theory Rsa
  imports Bigint_Arith
begin

text \<open>
  RSA as the firmware and the build use it: \<^verbatim>\<open>rsa_pubkey_decrypt\<close> of \<^verbatim>\<open>src/crypto/rsa.c\<close> on the
  device and \<^verbatim>\<open>expmod\<close> of \<^verbatim>\<open>src/crypto/rsasign.py\<close> on the signing host. The public key is the
  generated file \<^verbatim>\<open>crypto/rsapubkey.c\<close>, so the two key variables are arguments; what the build
  writes into them (\<^verbatim>\<open>rsapubkey.py\<close>: whole bytes, no bits set above them) is the hypothesis
  \<open>rsa_key\<close>.
\<close>

section \<open>The code\<close>

definition rsa_pubkey_decrypt :: "var \<Rightarrow> var \<Rightarrow> var \<Rightarrow> var \<Rightarrow> store \<Rightarrow> (int \<times> store) option" where
  "rsa_pubkey_decrypt pubkey_mod pubkey_exp clear cipher st =
     (if bigint_bits (st cipher) > bigint_bits (st pubkey_mod) then Some (1, st)
      else on_success (bigint_expmod clear cipher pubkey_exp pubkey_mod st) (\<lambda>st. Some (0, st)))"

text \<open>\<^verbatim>\<open>bin(b)[2:]\<close>, most significant digit first.\<close>

fun py_bin :: "nat \<Rightarrow> bool list" where
  "py_bin b = (if b = 0 then [] else py_bin (b div 2) @ [odd b])"

declare py_bin.simps [simp del]

text \<open>The list \<^verbatim>\<open>xs\<close> of \<^verbatim>\<open>expmod\<close> once it has \<open>n\<close> elements: each is the square of the one before.\<close>

primrec py_squares :: "nat \<Rightarrow> nat \<Rightarrow> nat \<Rightarrow> nat list" where
  "py_squares 0 c x = []"
| "py_squares (Suc n) c x = x # py_squares n c (x * x mod c)"

text \<open>\<open>None\<close> is an exception: the assertion fails, or the modulus is zero.\<close>

definition py_expmod :: "nat \<Rightarrow> nat \<Rightarrow> nat \<Rightarrow> nat option" where
  "py_expmod a b c =
     (if \<not> 0 < b \<or> c = 0 then None
      else let bs = py_bin b; xs = py_squares (length bs) c (a mod c)
      in Some (foldl (\<lambda>rv p. if bs ! p then rv * xs ! (length xs - 1 - p) else rv) 1 [0..<length bs] mod c))"

section \<open>The signing host\<close>

lemma length_py_squares [simp]: "length (py_squares n c x) = n"
  by (induction n arbitrary: x) simp_all

lemma py_squares_nth: "i < n \<Longrightarrow> py_squares n c x ! i mod c = x ^ (2 ^ i) mod c"
proof (induction n arbitrary: i x)
  case (Suc n)
  show ?case
  proof (cases i)
    case (Suc k)
    have "py_squares n c (x * x mod c) ! k mod c = (x * x mod c) ^ (2 ^ k) mod c"
      using Suc.IH [of k] Suc.prems Suc by simp
    also have "\<dots> = (x * x) ^ (2 ^ k) mod c" by (rule power_mod)
    also have "(x * x) ^ (2 ^ k) = x ^ (2 ^ i)" using Suc by (simp add: power_mult flip: power2_eq_square)
    finally show ?thesis using Suc by simp
  qed simp
qed simp

lemma py_product:
  fixes a b c :: nat
  assumes "length xs = length bs" "\<And>i. i < length bs \<Longrightarrow> xs ! i mod c = a ^ (2 ^ i) mod c" "k \<le> length bs"
    and "\<And>p. p < length bs \<Longrightarrow> bs ! p = bit b (length bs - 1 - p)"
  shows "foldl (\<lambda>rv p. if bs ! p then rv * xs ! (length xs - 1 - p) else rv) 1 [0..<k] mod c =
    a ^ (2 ^ (length bs - k) * (take_bit (length bs) b div 2 ^ (length bs - k))) mod c"
  using assms(3)
proof (induction k)
  case 0
  then show ?case by (simp add: take_bit_eq_mod)
next
  case (Suc k)
  define n where "n = length bs - Suc k"
  define r where "r = foldl (\<lambda>rv p. if bs ! p then rv * xs ! (length xs - 1 - p) else rv) 1 [0..<k]"
  define t where "t = take_bit (length bs) b"
  have n: "length bs - k = Suc n" "length bs - 1 - k = n" "n < length bs" using Suc.prems by (simp_all add: n_def)
  have r: "r mod c = a ^ (2 ^ Suc n * (t div 2 ^ Suc n)) mod c" using Suc.IH Suc.prems n by (simp add: r_def t_def)
  have "t div 2 ^ n = of_bool (bit b n) + 2 * (t div 2 ^ Suc n)"
    using drop_bit_step [of n t] n(3) by (simp add: drop_bit_eq_div t_def bit_take_bit_iff)
  then have e: "2 ^ n * (t div 2 ^ n) = 2 ^ n * of_bool (bit b n) + 2 ^ Suc n * (t div 2 ^ Suc n)"
    by (simp add: algebra_simps)
  have "(if bs ! k then r * xs ! n else r) mod c = a ^ (2 ^ n * (t div 2 ^ n)) mod c"
  proof (cases "bit b n")
    case True
    have "r * xs ! n mod c = (r mod c) * (xs ! n mod c) mod c" by (rule mod_mult_eq [symmetric])
    also have "\<dots> = a ^ (2 ^ Suc n * (t div 2 ^ Suc n)) * a ^ (2 ^ n) mod c"
      unfolding r assms(2) [OF n(3)] by (simp add: mod_mult_eq)
    finally show ?thesis using assms(4) [of k] Suc.prems n True e by (simp add: power_add mult.commute)
  next
    case False
    then show ?thesis using assms(4) [of k] Suc.prems n e r by (simp add: mult.assoc mult.left_commute)
  qed
  moreover have "foldl (\<lambda>rv p. if bs ! p then rv * xs ! (length xs - 1 - p) else rv) 1 [0..<Suc k] =
      (if bs ! k then r * xs ! n else r)"
    using n(2) assms(1) unfolding r_def by simp
  ultimately show ?case unfolding t_def n_def by (simp only:)
qed

lemma py_bin_bits:
  "p < length (py_bin b) \<Longrightarrow> py_bin b ! p = bit b (length (py_bin b) - 1 - p)" "b < 2 ^ length (py_bin b)"
proof (induction b arbitrary: p rule: py_bin.induct)
  case (1 b)
  { case 1
    show ?case
    proof (cases "b = 0")
      case False
      then have e: "py_bin b = py_bin (b div 2) @ [odd b]" by (simp add: py_bin.simps)
      define n where "n = length (py_bin (b div 2))"
      consider "p < n" | "p = n" using 1 e by (fastforce simp: n_def less_Suc_eq)
      then show ?thesis
      proof cases
        case 1
        then have "py_bin b ! p = bit (b div 2) (n - 1 - p)"
          using "1.IH"(1) [OF False, of p] e by (simp add: nth_append n_def)
        also have "\<dots> = bit b (Suc (n - 1 - p))" by (simp add: bit_Suc)
        finally show ?thesis using 1 e by (simp add: n_def Suc_diff_Suc)
      next
        case 2
        then show ?thesis using e by (simp add: n_def bit_0)
      qed
    qed (use 1 in \<open>simp add: py_bin.simps\<close>) }
  { case 2
    show ?case
    proof (cases "b = 0")
      case False
      then have e: "py_bin b = py_bin (b div 2) @ [odd b]" by (simp add: py_bin.simps)
      have "b div 2 < 2 ^ length (py_bin (b div 2))" using "1.IH"(2) [OF False] .
      then show ?thesis using e by simp
    qed simp }
qed

lemma py_expmod: "0 < b \<Longrightarrow> 0 < c \<Longrightarrow> py_expmod a b c = Some (a ^ b mod c)"
proof -
  assume "0 < b" "0 < c"
  define bs where "bs = py_bin b"
  have t: "take_bit (length bs) b = b"
    using py_bin_bits(2) [of b] by (simp add: bs_def take_bit_nat_eq_self)
  have "py_expmod a b c = Some ((a mod c) ^ b mod c)"
    using py_product [of "py_squares (length bs) c (a mod c)" bs c "a mod c" "length bs" b]
      py_squares_nth [of _ "length bs" c "a mod c"] py_bin_bits(1) [of _ b] t \<open>0 < b\<close> \<open>0 < c\<close>
    unfolding py_expmod_def Let_def bs_def [symmetric] by (simp add: bs_def [symmetric])
  then show ?thesis by (simp add: power_mod)
qed

section \<open>The device\<close>

text \<open>What \<^verbatim>\<open>rsapubkey.py\<close> generates, for a key of up to 584 bits.\<close>

definition rsa_key :: "bigint \<Rightarrow> bigint \<Rightarrow> bool" where
  "rsa_key m e \<longleftrightarrow> bi_wf m \<and> bi_clean m \<and> 0 < bval m \<and> BITS m \<le> 584 \<and> bi_wf e \<and> 0 < BITS e"

lemma rsa_pubkey_decrypt:
  assumes "clear \<notin> temps" "cipher \<notin> temps" "pm \<notin> temps" "pe \<notin> temps" "sized st"
    "rsa_key (st pm) (st pe)" "bi_wf (st cipher)"
  shows "\<exists>st'. rsa_pubkey_decrypt pm pe clear cipher st =
      Some (if BITS (st cipher) \<le> BITS (st pm) then 0 else 1, st') \<and>
    (\<forall>v. v \<notin> temps \<longrightarrow> v \<noteq> clear \<longrightarrow> st' v = st v) \<and>
    (BITS (st cipher) \<le> BITS (st pm) \<longrightarrow> sized st' \<and> bi_wf (st' clear) \<and> bi_clean (st' clear) \<and> bi_tight (st' clear) \<and>
      bval (st' clear) = bval (st cipher) ^ bval (st pe) mod bval (st pm))"
proof (cases "BITS (st cipher) \<le> BITS (st pm)")
  case True
  have "BITS (st cipher) \<le> 1183" using True assms(6) by (simp add: rsa_key_def)
  then obtain st' where "bigint_expmod clear cipher pe pm st = Some (0, st')" "sized st'" "bi_wf (st' clear)"
    "bi_clean (st' clear)" "bi_tight (st' clear)" "bval (st' clear) = bval (st cipher) ^ bval (st pe) mod bval (st pm)"
    "\<forall>v. v \<notin> temps \<longrightarrow> v \<noteq> clear \<longrightarrow> st' v = st v"
    using bigint_expmod [OF assms(2,4,3,1,5,7)] assms(6) unfolding rsa_key_def by (elim conjE) blast
  then show ?thesis using True by (simp add: rsa_pubkey_decrypt_def bigint_bits_def)
qed (auto simp: rsa_pubkey_decrypt_def bigint_bits_def)

end
