(* ===== verification/Uptime.thy ===== *)
theory Uptime
  imports Prelude
begin

text \<open>
  The uptime counter of \<^verbatim>\<open>src/uptime.c\<close>: the SDK clock \<^verbatim>\<open>system_get_time\<close> counts microseconds in
  32 bits, a timer handler counts its wrap-arounds. Every read of the clock is an argument. The
  handler's mail goes out through \<open>smtp_send\<close>; here it is the subject line it would be sent
  with.
\<close>

section \<open>The code\<close>

record uptime_state =
  uptime_high :: u32
  uptime_last :: u32

definition uptime_us :: "uptime_state \<Rightarrow> u32 \<Rightarrow> u64" where
  "uptime_us s now = push_bit 32 (ucast (uptime_high s)) OR ucast now"

definition uptime_days :: "u64 \<Rightarrow> u32" where
  "uptime_days us = ucast ((us div 1000000) div (60*60*24))"

definition fmt_08x :: "u32 \<Rightarrow> u8 list" where
  "fmt_08x w = map (\<lambda>i. ascii ''0123456789abcdef'' ! (unat w div 16 ^ i mod 16)) (rev [0..<8])"

definition uptime_subject :: "u32 \<Rightarrow> u32 \<Rightarrow> u8 list \<Rightarrow> u8 list" where
  "uptime_subject chip_id days subj =
     c_snprintf subj (ascii ''esp8266-'' @ fmt_08x chip_id @ ascii '' day '' @ fmt_u (unat days))"

text \<open>\<open>t1\<close>, \<open>t\<close> and \<open>t2\<close> are the three reads of the clock, \<open>subj\<close> the array on the stack.\<close>

definition uptime_handler ::
    "u32 \<Rightarrow> u8 list \<Rightarrow> u32 \<Rightarrow> u32 \<Rightarrow> u32 \<Rightarrow> uptime_state \<Rightarrow> uptime_state \<times> u8 list option" where
  "uptime_handler chip_id subj t1 t t2 s =
     (let days1 = uptime_days (uptime_us s t1);
          s1 = (if t < uptime_last s then s\<lparr>uptime_high := uptime_high s + 1\<rparr> else s);
          s2 = s1\<lparr>uptime_last := t\<rparr>;
          days2 = uptime_days (uptime_us s2 t2)
      in (s2, if days2 > days1 then Some (uptime_subject chip_id days2 subj) else None))"

section \<open>The true time\<close>

text \<open>
  The state after a handler ran at time \<open>T\<close>, in microseconds since power-up: the low and the high
  half of \<open>T\<close>.
\<close>

definition uptime_at :: "nat \<Rightarrow> uptime_state" where
  "uptime_at T = \<lparr>uptime_high = of_nat (T div 2 ^ 32), uptime_last = of_nat T\<rparr>"

lemma uptime_us_value:
  "uptime_us \<lparr>uptime_high = of_nat h, uptime_last = l\<rparr> (of_nat T) = of_nat (h mod 2 ^ 32 * 2 ^ 32 + T mod 2 ^ 32)"
proof -
  have "ucast (of_nat n :: u32) = (of_nat (n mod 2 ^ 32) :: u64)" for n
  proof -
    have "unat (of_nat n :: u32) = n mod 2 ^ 32" by (simp add: unat_of_nat)
    then show ?thesis by (metis of_nat_unat)
  qed
  then show ?thesis
    by (simp only: uptime_us_def uptime_state.simps) (rule push_or_of_nat, simp)
qed

lemma of_nat_less_u32: "(of_nat a :: u32) < of_nat b \<longleftrightarrow> a mod 2 ^ 32 < b mod 2 ^ 32"
  by (simp add: word_less_nat_alt unat_of_nat)

lemma near_div:
  fixes T T0 :: nat
  assumes "T0 \<le> T" "T - T0 < 2 ^ 32"
  shows "T div 2 ^ 32 = T0 div 2 ^ 32 + of_bool (T mod 2 ^ 32 < T0 mod 2 ^ 32)"
proof -
  define m :: nat where "m = 2 ^ 32"
  define q r q0 r0 where "q = T div m" and "r = T mod m" and "q0 = T0 div m" and "r0 = T0 mod m"
  have e: "T = q * m + r" "T0 = q0 * m + r0" "r < m" "r0 < m" by (simp_all add: q_def r_def q0_def r0_def m_def)
  have a: "T - T0 < m" using assms(2) by (simp add: m_def)
  have "q0 \<le> q" using assms(1) by (simp add: q_def q0_def div_le_mono)
  moreover have "q \<le> q0 + 1"
  proof (rule ccontr)
    assume "\<not> q \<le> q0 + 1"
    then have "(q0 + 2) * m \<le> q * m" by (intro mult_right_mono) simp_all
    then have "q0 * m + 2 * m \<le> q * m" by (simp only: add_mult_distrib)
    then show False using a e by linarith
  qed
  ultimately consider "q = q0" | "q = q0 + 1" by linarith
  then have "q = q0 + of_bool (r < r0)"
  proof cases
    case 1
    then show ?thesis using assms(1) e by simp
  next
    case 2
    then have "q * m = q0 * m + m" by (simp add: add_mult_distrib)
    then have "m + r - r0 < m" using a e by linarith
    then show ?thesis using 2 e by simp
  qed
  then show ?thesis by (simp add: q_def r_def q0_def r0_def m_def)
qed

lemma uptime_handler_state:
  assumes "T0 \<le> T" "T - T0 < 2 ^ 32"
  shows "fst (uptime_handler chip_id subj t1 (of_nat T) t2 (uptime_at T0)) = uptime_at T"
proof -
  have "(of_nat (T div 2 ^ 32) :: u32) =
      (if (of_nat T :: u32) < of_nat T0 then of_nat (T0 div 2 ^ 32) + 1 else of_nat (T0 div 2 ^ 32))"
    unfolding near_div [OF assms] of_nat_less_u32 by simp
  then show ?thesis by (simp add: uptime_handler_def Let_def uptime_at_def)
qed

lemma uptime_us_reading:
  assumes "T0 \<le> T" "T - T0 < 2 ^ 32" "T < 2 ^ 64"
  shows "unat (uptime_us (uptime_at T0) (of_nat T)) = (if T div 2 ^ 32 = T0 div 2 ^ 32 then T else T - 2 ^ 32)"
proof -
  have "T0 div 2 ^ 32 < 2 ^ 32" using assms by (simp add: less_mult_imp_div_less)
  then have "uptime_us (uptime_at T0) (of_nat T) = of_nat (T0 div 2 ^ 32 * 2 ^ 32 + T mod 2 ^ 32)"
    unfolding uptime_at_def uptime_us_value by simp
  moreover have "T0 div 2 ^ 32 * 2 ^ 32 + T mod 2 ^ 32 = (if T div 2 ^ 32 = T0 div 2 ^ 32 then T else T - 2 ^ 32)"
  proof -
    define m q r q0 :: nat where "m = 2 ^ 32" and "q = T div m" and "r = T mod m" and "q0 = T0 div m"
    have "T = q * m + r" by (simp add: q_def r_def)
    moreover have "q = q0 \<or> q = q0 + 1" using near_div [OF assms(1,2)] by (simp add: q_def q0_def m_def)
    ultimately have "q0 * m + r = (if q = q0 then T else T - m)" by (auto simp: add_mult_distrib)
    then show ?thesis by (simp only: m_def q_def r_def q0_def)
  qed
  moreover have "(if T div 2 ^ 32 = T0 div 2 ^ 32 then T else T - 2 ^ 32) < 2 ^ LENGTH(64)" using assms(3) by auto
  ultimately show ?thesis by (simp only: unat_of_nat_small)
qed

text \<open>
  The handler runs at the times \<open>ts\<close> after power-up, each less than a clock period after the one
  before.
\<close>

fun handler_times :: "nat \<Rightarrow> nat list \<Rightarrow> bool" where
  "handler_times T [] = True"
| "handler_times T (t # ts) = (T \<le> t \<and> t - T < 2 ^ 32 \<and> handler_times t ts)"

definition uptime_runs :: "u32 \<Rightarrow> u8 list \<Rightarrow> nat list \<Rightarrow> uptime_state" where
  "uptime_runs chip_id subj ts =
     foldl (\<lambda>s t. fst (uptime_handler chip_id subj (of_nat t) (of_nat t) (of_nat t) s)) \<lparr>uptime_high = 0, uptime_last = 0\<rparr> ts"

lemma uptime_runs:
  assumes "handler_times 0 ts"
  shows "uptime_runs chip_id subj ts = uptime_at (last (0 # ts))"
proof -
  have "foldl (\<lambda>s t. fst (uptime_handler chip_id subj (of_nat t) (of_nat t) (of_nat t) s)) (uptime_at T) ts = uptime_at (last (T # ts))"
    if "handler_times T ts" for T
    using that by (induction ts arbitrary: T) (simp_all add: uptime_handler_state)
  moreover have "\<lparr>uptime_high = 0, uptime_last = 0\<rparr> = uptime_at 0" by (simp add: uptime_at_def)
  ultimately show ?thesis using assms by (simp add: uptime_runs_def)
qed

lemma fmt_08x_length: "length (fmt_08x w) = 8"
  by (simp add: fmt_08x_def)

section \<open>Properties\<close>

text \<open>
  C36: as long as the handler runs at least once per period of the 32-bit clock (the firmware runs
  it every 20 of about 71 minutes), \<^verbatim>\<open>uptime_us\<close> returns the true time since power-up whenever the
  clock has not wrapped since the last run; when it has, and the handler has not run yet, the
  result is exactly one period too small.
\<close>

theorem uptime_reading:
  assumes "handler_times 0 ts" "last (0 # ts) \<le> T" "T - last (0 # ts) < 2 ^ 32" "T < 2 ^ 64"
  shows "unat (uptime_us (uptime_runs chip_id subj ts) (of_nat T)) =
    (if T div 2 ^ 32 = last (0 # ts) div 2 ^ 32 then T else T - 2 ^ 32)"
  using uptime_us_reading [OF assms(2-4)] uptime_runs [OF assms(1)] by simp

lemma uptime_reading_witness:
  "unat (uptime_us (uptime_runs 7 [] [1200000000, 2400000000, 3600000000]) (of_nat 4294967296)) = 0"
  using uptime_reading [of "[1200000000, 2400000000, 3600000000]" 4294967296 7 "[]"] by simp

text \<open>
  The handler's day mail. The subject fits the 64-byte array for every chip and every day, and
  a mail is produced only if the day number grew between the first and the last read.
\<close>

theorem uptime_mail:
  assumes "length subj = 64" "uptime_handler chip_id subj t1 t t2 s = (s', Some m)"
  shows "length m = 64 \<and>
    cstr m = ascii ''esp8266-'' @ fmt_08x chip_id @ ascii '' day '' @ fmt_u (unat (uptime_days (uptime_us s' t2))) \<and>
    uptime_days (uptime_us s t1) < uptime_days (uptime_us s' t2)"
proof -
  define d where "d = uptime_days (uptime_us s' t2)"
  define body where "body = ascii ''esp8266-'' @ fmt_08x chip_id @ ascii '' day '' @ fmt_u (unat d)"
  have m: "m = c_snprintf subj body" and g: "uptime_days (uptime_us s t1) < d"
    using assms(2) by (auto simp: uptime_handler_def Let_def uptime_subject_def body_def d_def split: if_splits)
  have "unat d < 2 ^ 32" using unsigned_less [of d, where ?'a = nat] by simp
  then have "length (fmt_u (unat d)) \<le> 10" by (intro length_fmt_u) simp_all
  then have l: "length body \<le> 31" by (simp add: body_def fmt_08x_length ascii_def)
  have hex: "\<forall>k \<in> set [0..<16]. ascii ''0123456789abcdef'' ! k \<noteq> 0" by (simp add: upt_conv_Cons ascii_def)
  have "0 \<notin> set (fmt_08x chip_id)"
  proof
    assume "0 \<in> set (fmt_08x chip_id)"
    then obtain i where "ascii ''0123456789abcdef'' ! (unat chip_id div 16 ^ i mod 16) = 0" by (auto simp: fmt_08x_def)
    moreover have "unat chip_id div 16 ^ i mod 16 \<in> set [0..<16]" by simp
    ultimately show False using hex by blast
  qed
  moreover have "(0 :: u8) \<notin> {48..57}" by simp
  then have "0 \<notin> set (fmt_u (unat d))" using fmt_u_digits [of "unat d"] by blast
  ultimately have "0 \<notin> set body" by (simp add: body_def ascii_def)
  moreover have "subj \<noteq> []" using assms(1) by auto
  ultimately show ?thesis using cstr_snprintf [of body subj] m l g assms(1) by (simp add: body_def d_def)
qed

lemma uptime_mail_witness:
  "\<exists>m. uptime_handler 255 (replicate 64 0) 0 4 3000000000 \<lparr>uptime_high = 19, uptime_last = 5\<rparr> =
      (\<lparr>uptime_high = 20, uptime_last = 4\<rparr>, Some m) \<and> cstr m = ascii ''esp8266-000000ff day 1''"
proof -
  have h: "uptime_handler 255 (replicate 64 0) 0 4 3000000000 \<lparr>uptime_high = 19, uptime_last = 5\<rparr> =
      (\<lparr>uptime_high = 20, uptime_last = 4\<rparr>, Some (uptime_subject 255 1 (replicate 64 0)))"
    by (simp add: uptime_handler_def uptime_days_def uptime_us_def Let_def)
  have "uptime_days (uptime_us \<lparr>uptime_high = 20, uptime_last = 4\<rparr> 3000000000) = 1"
    by (simp add: uptime_days_def uptime_us_def)
  moreover have "ascii ''esp8266-'' @ fmt_08x 255 @ ascii '' day '' @ fmt_u 1 = ascii ''esp8266-000000ff day 1''"
    by (simp add: fmt_08x_def upt_conv_Cons ascii_def fmt_u.simps)
  ultimately show ?thesis using uptime_mail [OF _ h] h by simp
qed

end
