(* ===== verification/Param.thy ===== *)
theory Param
  imports Prelude
begin

text \<open>
  The parameter storage of \<^verbatim>\<open>src/param.c\<close>: a record of the caller behind a magic number, in one
  flash sector that the SDK reads (\<^verbatim>\<open>system_param_load\<close>) and writes
  (\<^verbatim>\<open>system_param_save_with_protect\<close>). The two SDK calls are arguments, on an arbitrary type of
  flash contents; \<open>param_sdk\<close> is what their documentation promises. \<open>None\<close> is an access
  outside the static buffer \<^verbatim>\<open>param_buf\<close> of 1024 bytes, which the code does not always exclude.
\<close>

section \<open>The code\<close>

text \<open>The flash maps of the SDK; \<open>FLASH_SIZE_OTHER\<close> is any other value.\<close>

datatype flash_size_map =
    FLASH_SIZE_4M_MAP_256_256
  | FLASH_SIZE_2M
  | FLASH_SIZE_8M_MAP_512_512
  | FLASH_SIZE_16M_MAP_512_512
  | FLASH_SIZE_32M_MAP_512_512
  | FLASH_SIZE_16M_MAP_1024_1024
  | FLASH_SIZE_32M_MAP_1024_1024
  | FLASH_SIZE_OTHER nat

text \<open>The \<^verbatim>\<open>switch\<close> that \<^verbatim>\<open>param_store\<close>, \<^verbatim>\<open>param_retrieve\<close> and the OTA handler share.\<close>

fun flash_size_kb :: "flash_size_map \<Rightarrow> nat option" where
  "flash_size_kb FLASH_SIZE_4M_MAP_256_256 = Some (4*1024 div 8)"
| "flash_size_kb FLASH_SIZE_8M_MAP_512_512 = Some (8*1024 div 8)"
| "flash_size_kb FLASH_SIZE_16M_MAP_1024_1024 = Some (16*1024 div 8)"
| "flash_size_kb FLASH_SIZE_16M_MAP_512_512 = Some (16*1024 div 8)"
| "flash_size_kb FLASH_SIZE_32M_MAP_512_512 = Some (32*1024 div 8)"
| "flash_size_kb FLASH_SIZE_32M_MAP_1024_1024 = Some (32*1024 div 8)"
| "flash_size_kb FLASH_SIZE_2M = None"
| "flash_size_kb (FLASH_SIZE_OTHER n) = None"

abbreviation SPI_FLASH_SEC_SIZE :: nat where
  "SPI_FLASH_SEC_SIZE \<equiv> 4096"

definition PARAM_MAGIC :: "u8 list" where
  "PARAM_MAGIC = [0xca, 0xfe, 0xba, 0xbe]"

definition PARAM_SMTP_OFFSET :: nat where
  "PARAM_SMTP_OFFSET = 0"

definition param_sector :: "nat \<Rightarrow> nat" where
  "param_sector size_kb = (size_kb div 2 - 4*3) * 1024 div SPI_FLASH_SEC_SIZE"

text \<open>
  \<open>load sec off n f\<close> and \<open>save sec bytes f\<close> are the SDK calls; \<open>None\<close> is their failure. The
  results are the returned \<^verbatim>\<open>int\<close>, the static buffer and the flash.
\<close>

definition param_store ::
    "(nat \<Rightarrow> nat \<Rightarrow> nat \<Rightarrow> 'f \<Rightarrow> u8 list option) \<Rightarrow> (nat \<Rightarrow> u8 list \<Rightarrow> 'f \<Rightarrow> 'f option) \<Rightarrow>
     flash_size_map \<Rightarrow> nat \<Rightarrow> u8 list \<Rightarrow> u8 list \<Rightarrow> 'f \<Rightarrow> (int \<times> u8 list \<times> 'f) option" where
  "param_store load save fmap offset val param_buf f =
     (case flash_size_kb fmap of
        None \<Rightarrow> Some (1, param_buf, f)
      | Some size_kb \<Rightarrow>
          if length param_buf < length PARAM_MAGIC + length val then Some (1, param_buf, f)
          else case load (param_sector size_kb) 0 (length param_buf) f of
            None \<Rightarrow> Some (1, param_buf, f)
          | Some buf \<Rightarrow>
              if offset + length PARAM_MAGIC + length val \<le> length buf then
                let buf = patch buf offset PARAM_MAGIC;
                    buf = patch buf (offset + length PARAM_MAGIC) val
                in case save (param_sector size_kb) buf f of
                     None \<Rightarrow> Some (1, buf, f)
                   | Some f' \<Rightarrow> Some (0, buf, f')
              else None)"

text \<open>
  \<^verbatim>\<open>os_memcmp(param_buf, PARAM_MAGIC, sizeof(PARAM_MAGIC) != 0)\<close> compares
  \<^verbatim>\<open>sizeof(PARAM_MAGIC) != 0\<close> bytes, that is one.
\<close>

definition param_retrieve ::
    "(nat \<Rightarrow> nat \<Rightarrow> nat \<Rightarrow> 'f \<Rightarrow> u8 list option) \<Rightarrow>
     flash_size_map \<Rightarrow> nat \<Rightarrow> u8 list \<Rightarrow> u8 list \<Rightarrow> 'f \<Rightarrow> (int \<times> u8 list \<times> u8 list) option" where
  "param_retrieve load fmap offset val param_buf f =
     (case flash_size_kb fmap of
        None \<Rightarrow> Some (1, val, param_buf)
      | Some size_kb \<Rightarrow>
          if length PARAM_MAGIC + length val \<le> length param_buf then
            case load (param_sector size_kb) offset (length PARAM_MAGIC + length val) f of
              None \<Rightarrow> Some (1, val, param_buf)
            | Some bs \<Rightarrow>
                let buf = patch param_buf 0 bs in
                if take (of_bool (length PARAM_MAGIC \<noteq> 0)) buf \<noteq> take (of_bool (length PARAM_MAGIC \<noteq> 0)) PARAM_MAGIC
                then Some (1, val, buf)
                else Some (0, take (length val) (drop (length PARAM_MAGIC) buf), buf)
          else None)"

section \<open>The SDK\<close>

text \<open>
  A load returns as many bytes as it was asked for, and after a successful save the sector reads
  back as what was saved.
\<close>

definition param_sdk ::
    "(nat \<Rightarrow> nat \<Rightarrow> nat \<Rightarrow> 'f \<Rightarrow> u8 list option) \<Rightarrow> (nat \<Rightarrow> u8 list \<Rightarrow> 'f \<Rightarrow> 'f option) \<Rightarrow> bool" where
  "param_sdk load save \<longleftrightarrow>
     (\<forall>sec off n f bs. load sec off n f = Some bs \<longrightarrow> length bs = n) \<and>
     (\<forall>sec off n f f' bs. save sec bs f = Some f' \<longrightarrow> off + n \<le> length bs \<longrightarrow>
        load sec off n f' = Some (take n (drop off bs)))"

text \<open>A flash of one sector, for concrete runs.\<close>

definition sector_load :: "nat \<Rightarrow> nat \<Rightarrow> nat \<Rightarrow> (nat \<Rightarrow> u8 list) \<Rightarrow> u8 list option" where
  "sector_load sec off n f = (if off + n \<le> length (f sec) then Some (take n (drop off (f sec))) else None)"

definition sector_save :: "nat \<Rightarrow> u8 list \<Rightarrow> (nat \<Rightarrow> u8 list) \<Rightarrow> (nat \<Rightarrow> u8 list) option" where
  "sector_save sec bs f = Some (f(sec := bs))"

lemma param_sdk_sector: "param_sdk sector_load sector_save"
  by (auto simp: param_sdk_def sector_load_def sector_save_def)

lemma PARAM_MAGIC [simp]: "length PARAM_MAGIC = 4" "take (Suc 0) PARAM_MAGIC = [0xca]" "PARAM_MAGIC \<noteq> []"
  by (simp_all add: PARAM_MAGIC_def)

lemma param_store_saved:
  assumes "param_sdk load save" "length buf0 = 1024" "param_store load save fmap offset val buf0 f = Some (0, buf, f')"
  obtains kb buf1 where "flash_size_kb fmap = Some kb" "load (param_sector kb) 0 1024 f = Some buf1" "length buf1 = 1024"
    "offset + 4 + length val \<le> 1024" "buf = patch buf1 offset (PARAM_MAGIC @ val)" "save (param_sector kb) buf f = Some f'"
proof -
  obtain kb where kb: "flash_size_kb fmap = Some kb"
    using assms(3) by (auto simp: param_store_def split: option.splits)
  obtain buf1 where l: "load (param_sector kb) 0 1024 f = Some buf1"
    using assms(2,3) kb by (auto simp: param_store_def split: option.splits if_splits)
  have len: "length buf1 = 1024" using assms(1) l by (auto simp: param_sdk_def)
  have o: "offset + 4 + length val \<le> 1024"
    using assms(2,3) kb l len by (auto simp: param_store_def split: if_splits)
  define buf' where "buf' = patch buf1 offset (PARAM_MAGIC @ val)"
  have "patch (patch buf1 offset PARAM_MAGIC) (offset + 4) val = buf'"
    using patch_patch [of offset PARAM_MAGIC val buf1] o len by (simp add: buf'_def)
  then have e: "param_store load save fmap offset val buf0 f =
      (case save (param_sector kb) buf' f of None \<Rightarrow> Some (1, buf', f) | Some f' \<Rightarrow> Some (0, buf', f'))"
    using assms(2) kb l len o by (simp add: param_store_def Let_def split: option.split)
  then obtain g where g: "save (param_sector kb) buf' f = Some g" using assms(3) by (cases "save (param_sector kb) buf' f") auto
  then have "buf = buf'" "f' = g" using e assms(3) by simp_all
  then show ?thesis using that [OF kb l len o] g by (simp add: buf'_def)
qed

lemma param_store_retrieve:
  assumes "param_sdk load save" "length buf0 = 1024" "param_store load save fmap offset val buf0 f = Some (0, buf, f')"
    "length val0 = length val" "length pb = 1024"
  shows "length buf = 1024 \<and> (\<exists>buf'. param_retrieve load fmap offset val0 pb f' = Some (0, val, buf'))"
proof -
  obtain kb buf1 where s0: "flash_size_kb fmap = Some kb" "load (param_sector kb) 0 1024 f = Some buf1" "length buf1 = 1024"
    "offset + 4 + length val \<le> 1024" "buf = patch buf1 offset (PARAM_MAGIC @ val)" "save (param_sector kb) buf f = Some f'"
    by (rule param_store_saved [OF assms(1-3)])
  note s = s0(1,3-6)
  have lb: "length buf = 1024" using s by simp
  have "load (param_sector kb) offset (4 + length val) f' = Some (take (4 + length val) (drop offset buf))"
    using assms(1) s(3,5) lb unfolding param_sdk_def by (metis add.assoc)
  also have "take (4 + length val) (drop offset buf) = PARAM_MAGIC @ val"
    using s(2,3) by (simp add: s(4) patch_def)
  finally have "load (param_sector kb) offset (4 + length val0) f' = Some (PARAM_MAGIC @ val)" using assms(4) by simp
  then show ?thesis
    using s(1,3) lb assms(4,5) by (simp add: param_retrieve_def Let_def patch_def)
qed

section \<open>Properties\<close>

text \<open>
  C29: a successful \<^verbatim>\<open>param_store\<close> is read back by \<^verbatim>\<open>param_retrieve\<close> with the same offset and length.
\<close>

theorem param_roundtrip:
  assumes "param_sdk load save" "length buf0 = 1024" "param_store load save fmap offset val buf0 f = Some (0, buf, f')"
    "length val0 = length val"
  shows "\<exists>buf'. param_retrieve load fmap offset val0 buf f' = Some (0, val, buf')"
  using param_store_retrieve [OF assms(1-4)] param_store_retrieve [OF assms(1-4), of buf] by (metis assms(2))

lemma param_roundtrip_witness:
  "\<exists>f' buf buf'. param_store sector_load sector_save FLASH_SIZE_8M_MAP_512_512 PARAM_SMTP_OFFSET (ascii ''abc'') (replicate 1024 0)
      (\<lambda>_. replicate 4096 255) = Some (0, buf, f') \<and>
    param_retrieve sector_load FLASH_SIZE_8M_MAP_512_512 PARAM_SMTP_OFFSET (replicate 3 0) buf f' = Some (0, ascii ''abc'', buf')"
proof -
  define f :: "nat \<Rightarrow> u8 list" where "f = (\<lambda>_. replicate 4096 255)"
  define b where "b = patch (patch (replicate 1024 255) 0 PARAM_MAGIC) 4 (ascii ''abc'')"
  have s: "param_store sector_load sector_save FLASH_SIZE_8M_MAP_512_512 PARAM_SMTP_OFFSET (ascii ''abc'') (replicate 1024 0) f =
      Some (0, b, f(param_sector 1024 := b))"
    by (simp add: param_store_def sector_load_def sector_save_def Let_def b_def f_def ascii_def PARAM_SMTP_OFFSET_def)
  show ?thesis
    using param_roundtrip [OF param_sdk_sector _ s, of "replicate 3 0"] s by (fastforce simp: f_def ascii_def)
qed

text \<open>
  C40: \<^verbatim>\<open>param_retrieve\<close> accepts every stored record whose first byte is that of the magic number,
  whatever the other three are: the call compares \<^verbatim>\<open>sizeof(PARAM_MAGIC) != 0\<close> bytes.
\<close>

theorem param_magic_one_byte:
  assumes "flash_size_kb fmap = Some kb" "length val0 \<le> 1020" "length buf = 1024"
    "load (param_sector kb) offset (4 + length val0) f = Some bs" "length bs = 4 + length val0"
  shows "\<exists>val buf'. param_retrieve load fmap offset val0 buf f = Some (if bs ! 0 = 0xca then 0 else 1, val, buf') \<and>
    (bs ! 0 = 0xca \<longrightarrow> val = drop 4 bs)"
proof -
  obtain b rest where "bs = b # rest" using assms(5) by (cases bs) auto
  then show ?thesis
    using assms by (auto simp: param_retrieve_def Let_def patch_def)
qed

lemma param_magic_one_byte_witness:
  "\<exists>val buf'. param_retrieve sector_load FLASH_SIZE_4M_MAP_256_256 0 [0, 0] (replicate 1024 0) (\<lambda>_. [0xca, 1, 2, 3, 7, 8]) =
     Some (0, val, buf') \<and> val = [7, 8]"
  using param_magic_one_byte [of FLASH_SIZE_4M_MAP_256_256 512 "[0, 0]" "replicate 1024 0" sector_load 0
      "\<lambda>_. [0xca, 1, 2, 3, 7, 8]" "[0xca, 1, 2, 3, 7, 8]"]
  by (simp add: sector_load_def)

end
