(* ===== verification/Log.thy ===== *)
theory Log
  imports Uptime
begin

text \<open>
  Logging, \<^verbatim>\<open>src/log/log.c\<close>, the macros of \<^verbatim>\<open>log.h\<close> and the buffers of \<^verbatim>\<open>private.h\<close>: the levels of
  the six subsystems, the formatting of an entry and the main buffer, which holds the newest
  entries first. The five macros differ in their threshold and name only and are one definition;
  what \<^verbatim>\<open>CRITICAL\<close> does after logging (it loops forever, feeding the watchdog) is the callers'
  business. Messages arrive formatted. The uptime is an argument.
\<close>

section \<open>The code\<close>

definition LEVEL_DEBUG :: u8 where "LEVEL_DEBUG = 10"
definition LEVEL_INFO :: u8 where "LEVEL_INFO = 20"
definition LEVEL_WARNING :: u8 where "LEVEL_WARNING = 30"
definition LEVEL_ERROR :: u8 where "LEVEL_ERROR = 40"
definition LEVEL_CRITICAL :: u8 where "LEVEL_CRITICAL = 50"

lemmas level_defs = LEVEL_DEBUG_def LEVEL_INFO_def LEVEL_WARNING_def LEVEL_ERROR_def LEVEL_CRITICAL_def

text \<open>The level variables \<^verbatim>\<open>CRYPTO_LOG_LEVEL\<close> to \<^verbatim>\<open>SMTP_LOG_LEVEL\<close> and their initial values.\<close>

record log_levels =
  crypto_level :: u8
  driver_level :: u8
  http_level :: u8
  main_level :: u8
  ota_level :: u8
  smtp_level :: u8

definition log_levels0 :: log_levels where
  "log_levels0 = \<lparr>crypto_level = LEVEL_INFO, driver_level = LEVEL_INFO, http_level = LEVEL_INFO,
     main_level = LEVEL_INFO, ota_level = LEVEL_INFO, smtp_level = LEVEL_INFO\<rparr>"

record log_buf =
  log_main :: "u8 list"
  log_line :: "u8 list"
  log_ent :: "u8 list"

definition log_init :: log_buf where
  "log_init = \<lparr>log_main = replicate (4*1024 - 500) 0, log_line = replicate 192 0, log_ent = replicate 256 0\<rparr>"

definition log_raise :: "u8 \<Rightarrow> u8" where
  "log_raise sys =
     (if sys < LEVEL_DEBUG then LEVEL_DEBUG
      else if sys < LEVEL_INFO then LEVEL_INFO
      else if sys < LEVEL_WARNING then LEVEL_WARNING
      else if sys < LEVEL_ERROR then LEVEL_ERROR
      else if sys < LEVEL_CRITICAL then LEVEL_CRITICAL
      else sys)"

definition log_lower :: "u8 \<Rightarrow> u8" where
  "log_lower sys =
     (if sys > LEVEL_CRITICAL then LEVEL_CRITICAL
      else if sys > LEVEL_ERROR then LEVEL_ERROR
      else if sys > LEVEL_WARNING then LEVEL_WARNING
      else if sys > LEVEL_INFO then LEVEL_INFO
      else if sys > LEVEL_DEBUG then LEVEL_DEBUG
      else sys)"

definition log_stamp :: "u64 \<Rightarrow> u8 list" where
  "log_stamp time_us =
     (let time_secs = time_us div 1000000;
          days = (ucast (time_secs div (60*60*24)) :: u32);
          hrs  = (ucast ((time_secs mod (60*60*24)) div (60*60)) :: u8);
          mins = (ucast (((time_secs mod (60*60*24)) mod (60*60)) div 60) :: u8);
          secs = (ucast (((time_secs mod (60*60*24)) mod (60*60)) mod 60) :: u8);
          ms   = (ucast ((time_us mod 1000000) div 1000) :: u16)
      in (if days > 0 then fmt_u (unat days) @ ascii ''d '' else []) @
         fmt_0u 2 (unat hrs) @ ascii '':'' @ fmt_0u 2 (unat mins) @ ascii '':'' @ fmt_0u 2 (unat secs) @
         ascii ''.'' @ fmt_0u 3 (unat ms))"

definition log_text :: "u64 \<Rightarrow> u8 list \<Rightarrow> u8 list \<Rightarrow> nat \<Rightarrow> u8 list \<Rightarrow> u8 list" where
  "log_text time_us level file line mesg =
     log_stamp time_us @ ascii '': '' @ level @ ascii '': '' @ file @ ascii '':'' @ fmt_u line @ ascii '': '' @ mesg @ [10]"

definition log_entry :: "u64 \<Rightarrow> u8 list \<Rightarrow> u8 list \<Rightarrow> nat \<Rightarrow> u8 list \<Rightarrow> log_buf \<Rightarrow> log_buf" where
  "log_entry time_us level file line mesg b =
     (let body = log_text time_us level file line mesg;
          entry = c_snprintf (log_ent b) body;
          entry = (if length body \<ge> length entry
                   then patch entry (length entry - 5) (ascii ''...'' @ [10, 0]) else entry);
          len = c_strlen entry;
          main = patch (log_main b) len (take (length (log_main b) - len) (log_main b));
          main = patch main 0 (take len entry)
      in b\<lparr>log_ent := entry, log_main := main\<rparr>)"

text \<open>
  The macros \<^verbatim>\<open>CRITICAL\<close>, \<^verbatim>\<open>ERROR\<close>, \<^verbatim>\<open>WARNING\<close>, \<^verbatim>\<open>INFO\<close> and \<^verbatim>\<open>DEBUG\<close>: \<open>lvl\<close> is the threshold and \<open>name\<close> the
  name of the macro, \<open>sys\<close> the level of the subsystem, \<open>body\<close> the formatted message.
\<close>

definition log_macro ::
    "u8 \<Rightarrow> u8 list \<Rightarrow> u8 \<Rightarrow> u64 \<Rightarrow> u8 list \<Rightarrow> nat \<Rightarrow> u8 list \<Rightarrow> log_buf \<Rightarrow> log_buf" where
  "log_macro lvl name sys time_us file line body b =
     (if sys \<le> lvl then
        let ln = c_snprintf (log_line b) body;
            ln = (if length body \<ge> length ln then patch ln (length ln - 4) (ascii ''...'' @ [0]) else ln)
        in log_entry time_us name file line (cstr ln) (b\<lparr>log_line := ln\<rparr>)
      else b)"

text \<open>The macros by name, their thresholds and the names they log. \<^verbatim>\<open>CRITICAL\<close> logs like the others and then halts.\<close>

datatype log_kind = CRITICAL | ERROR | WARNING | INFO | DEBUG

fun kind_level :: "log_kind \<Rightarrow> u8" where
  "kind_level CRITICAL = LEVEL_CRITICAL"
| "kind_level ERROR = LEVEL_ERROR"
| "kind_level WARNING = LEVEL_WARNING"
| "kind_level INFO = LEVEL_INFO"
| "kind_level DEBUG = LEVEL_DEBUG"

fun kind_name :: "log_kind \<Rightarrow> u8 list" where
  "kind_name CRITICAL = ascii ''critical''"
| "kind_name ERROR = ascii ''error''"
| "kind_name WARNING = ascii ''warning''"
| "kind_name INFO = ascii ''info''"
| "kind_name DEBUG = ascii ''debug''"

section \<open>Entries\<close>

definition log_wf :: "log_buf \<Rightarrow> bool" where
  "log_wf b \<longleftrightarrow> length (log_main b) = 3596 \<and> length (log_line b) = 192 \<and> length (log_ent b) = 256"

lemma log_wf_init: "log_wf log_init"
  by (simp add: log_wf_def log_init_def)

text \<open>The entry as it appears in the log: cut to 255 characters with an ellipsis.\<close>

definition log_shown :: "u8 list \<Rightarrow> u8 list" where
  "log_shown body = (if length body < 256 then body else take 251 body @ ascii ''...'' @ [10])"

lemma length_log_shown: "length (log_shown body) \<le> 255"
  by (simp add: log_shown_def ascii_def)

lemma cstr_entry:
  assumes "length buf = 256" "0 \<notin> set body"
  defines "e \<equiv> c_snprintf buf body"
  defines "f \<equiv> (if length body \<ge> length e then patch e (length e - 5) (ascii ''...'' @ [10, 0]) else e)"
  shows "cstr f = log_shown body" "length f = 256"
proof -
  have l: "length e = 256" using assms(1) by (simp add: e_def)
  show "length f = 256" using l by (simp add: f_def ascii_def)
  have n: "buf \<noteq> []" using assms(1) by auto
  show "cstr f = log_shown body"
  proof (cases "length body < 256")
    case True
    then have "f = e" using l by (simp add: f_def)
    then show ?thesis using cstr_snprintf [OF assms(2) n] True assms(1) by (simp add: e_def log_shown_def)
  next
    case False
    have "e = take 255 body @ [0]" using assms(1) False n by (simp add: e_def c_snprintf_def patch_def)
    then have "take 251 e = take 251 body" using False by simp
    then have "f = (take 251 body @ ascii ''...'' @ [10]) @ 0 # []"
      using l False by (simp add: f_def patch_def ascii_def)
    moreover have "0 \<notin> set (take 251 body @ ascii ''...'' @ [10])"
      using assms(2) by (auto simp: ascii_def dest: in_set_takeD)
    ultimately show ?thesis using cstr_append False by (simp only: log_shown_def if_False)
  qed
qed

lemma take_append_take: "take n (xs @ take n ys) = take n (xs @ ys)"
  by (simp add: min_def)

lemma take_cstr: "take (c_strlen xs) xs = cstr xs"
  unfolding c_strlen_def cstr_def by (metis takeWhile_eq_take)

lemma log_entry_main:
  assumes "log_wf b" "0 \<notin> set (log_text t level file line mesg)"
  shows "log_wf (log_entry t level file line mesg b)"
    "log_main (log_entry t level file line mesg b) = take 3596 (log_shown (log_text t level file line mesg) @ log_main b)"
proof -
  define body where "body = log_text t level file line mesg"
  define e where "e = (if length body \<ge> length (c_snprintf (log_ent b) body)
     then patch (c_snprintf (log_ent b) body) (length (c_snprintf (log_ent b) body) - 5) (ascii ''...'' @ [10, 0])
     else c_snprintf (log_ent b) body)"
  have w: "length (log_main b) = 3596" "length (log_line b) = 192" "length (log_ent b) = 256" using assms(1) by (simp_all add: log_wf_def)
  have c: "cstr e = log_shown body" "length e = 256"
    using cstr_entry [OF w(3), of body] assms(2) unfolding e_def body_def by simp_all
  define n where "n = c_strlen e"
  have n: "n = length (log_shown body)" "n \<le> 255" "take n e = log_shown body"
    using c length_log_shown [of body] take_cstr [of e] by (simp_all add: n_def c_strlen_def)
  have m: "patch (patch (log_main b) n (take (3596 - n) (log_main b))) 0 (take n e) =
      take 3596 (log_shown body @ log_main b)"
    using w(1) n by (simp add: patch_def)
  have u: "log_entry t level file line mesg b = b\<lparr>log_ent := e, log_main := take 3596 (log_shown body @ log_main b)\<rparr>"
    unfolding log_entry_def Let_def body_def [symmetric] e_def [symmetric] n_def [symmetric] w(1) m ..
  show "log_wf (log_entry t level file line mesg b)"
    "log_main (log_entry t level file line mesg b) = take 3596 (log_shown (log_text t level file line mesg) @ log_main b)"
    using u w c(2) n(2) by (simp_all add: log_wf_def body_def)
qed

lemma log_line_shown:
  assumes "length buf = 192" "0 \<notin> set body"
  defines "e \<equiv> c_snprintf buf body"
  defines "f \<equiv> (if length body \<ge> length e then patch e (length e - 4) (ascii ''...'' @ [0]) else e)"
  shows "cstr f = (if length body < 192 then body else take 188 body @ ascii ''...'')" "length f = 192"
proof -
  have l: "length e = 192" using assms(1) by (simp add: e_def)
  show "length f = 192" using l by (simp add: f_def ascii_def)
  have n: "buf \<noteq> []" using assms(1) by auto
  show "cstr f = (if length body < 192 then body else take 188 body @ ascii ''...'')"
  proof (cases "length body < 192")
    case True
    then have "f = e" using l by (simp add: f_def)
    then show ?thesis using cstr_snprintf [OF assms(2) n] True assms(1) by (simp add: e_def)
  next
    case False
    have "e = take 191 body @ [0]" using assms(1) False n by (simp add: e_def c_snprintf_def patch_def)
    then have "take 188 e = take 188 body" using False by simp
    then have "f = (take 188 body @ ascii ''...'') @ 0 # []" using l False by (simp add: f_def patch_def ascii_def)
    moreover have "0 \<notin> set (take 188 body @ ascii ''...'')"
      using assms(2) by (auto simp: ascii_def dest: in_set_takeD)
    ultimately show ?thesis using cstr_append False by (simp only: if_False)
  qed
qed

lemma no_zero_fmt [simp]: "0 \<notin> set (fmt_u n)" "0 \<notin> set (fmt_0u w n)" "0 \<notin> set (fmt_pu w n)"
proof -
  have "(0 :: u8) \<notin> {48..57}" by simp
  then show "0 \<notin> set (fmt_u n)" "0 \<notin> set (fmt_0u w n)" "0 \<notin> set (fmt_pu w n)"
    using fmt_u_digits [of n] by (auto simp: fmt_0u_def fmt_pu_def)
qed

lemma no_zero_log_text:
  "0 \<notin> set level \<Longrightarrow> 0 \<notin> set file \<Longrightarrow> 0 \<notin> set mesg \<Longrightarrow> 0 \<notin> set (log_text t level file line mesg)"
  by (simp add: log_text_def log_stamp_def Let_def ascii_def)

text \<open>The text that a macro logs for a message, as it appears in the buffer.\<close>

definition log_message :: "u8 list \<Rightarrow> u64 \<Rightarrow> u8 list \<Rightarrow> nat \<Rightarrow> u8 list \<Rightarrow> u8 list" where
  "log_message name t file line body =
     log_shown (log_text t name file line (if length body < 192 then body else take 188 body @ ascii ''...''))"

lemma log_macro_main:
  assumes "log_wf b" "0 \<notin> set name" "0 \<notin> set file" "0 \<notin> set body"
  shows "log_wf (log_macro lvl name sys t file line body b)"
    "log_main (log_macro lvl name sys t file line body b) =
      (if sys \<le> lvl then take 3596 (log_message name t file line body @ log_main b) else log_main b)"
proof -
  define ln where "ln = (if length body \<ge> length (c_snprintf (log_line b) body)
     then patch (c_snprintf (log_line b) body) (length (c_snprintf (log_line b) body) - 4) (ascii ''...'' @ [0])
     else c_snprintf (log_line b) body)"
  have "length (log_line b) = 192" using assms(1) by (simp add: log_wf_def)
  note l = log_line_shown [OF this assms(4), folded ln_def]
  have w: "log_wf (b\<lparr>log_line := ln\<rparr>)" using assms(1) l(2) by (simp add: log_wf_def)
  have z: "0 \<notin> set (log_text t name file line (cstr ln))" by (rule no_zero_log_text [OF assms(2,3) in_set_cstr])
  note e = log_entry_main [OF w z]
  show "log_wf (log_macro lvl name sys t file line body b)"
    "log_main (log_macro lvl name sys t file line body b) =
      (if sys \<le> lvl then take 3596 (log_message name t file line body @ log_main b) else log_main b)"
    using e assms(1) unfolding log_macro_def Let_def ln_def [symmetric] log_message_def l(1) by simp_all
qed

text \<open>A call: the macro, the level of the subsystem at that moment, the uptime, the place and the message.\<close>

record log_call =
  lc_kind :: log_kind
  lc_sys :: u8
  lc_time :: u64
  lc_file :: "u8 list"
  lc_line :: nat
  lc_body :: "u8 list"

definition log_do :: "log_call \<Rightarrow> log_buf \<Rightarrow> log_buf" where
  "log_do c = log_macro (kind_level (lc_kind c)) (kind_name (lc_kind c)) (lc_sys c) (lc_time c) (lc_file c) (lc_line c) (lc_body c)"

definition log_enabled :: "log_call \<Rightarrow> bool" where
  "log_enabled c \<longleftrightarrow> lc_sys c \<le> kind_level (lc_kind c)"

definition log_says :: "log_call \<Rightarrow> u8 list" where
  "log_says c = log_message (kind_name (lc_kind c)) (lc_time c) (lc_file c) (lc_line c) (lc_body c)"

lemma kind_name_text: "0 \<notin> set (kind_name k)"
  by (cases k) (simp_all add: ascii_def)

lemma log_do_main:
  assumes "log_wf b" "0 \<notin> set (lc_file c)" "0 \<notin> set (lc_body c)"
  shows "log_wf (log_do c b)" "log_main (log_do c b) = (if log_enabled c then take 3596 (log_says c @ log_main b) else log_main b)"
  using log_macro_main [OF assms(1) kind_name_text assms(2,3)] by (simp_all add: log_do_def log_enabled_def log_says_def)

section \<open>Properties\<close>

text \<open>
  C28: the log is the newest-first list of the enabled entries. After any sequence of log calls, of any macros and with
  subsystem levels that change in between, the main buffer is the beginning of the texts of exactly those calls whose
  threshold reached the level of their subsystem, the last one first, followed by what it held before, cut to its 3596 bytes;
  each text is one line of at most 255 characters, and all buffers keep their sizes.
\<close>

theorem log_newest_first:
  assumes "log_wf b" "list_all (\<lambda>c. 0 \<notin> set (lc_file c) \<and> 0 \<notin> set (lc_body c)) calls"
  shows "log_wf (fold log_do calls b) \<and>
    log_main (fold log_do calls b) = take 3596 (concat (map log_says (rev (filter log_enabled calls))) @ log_main b) \<and>
    (\<forall>c \<in> set calls. length (log_says c) \<le> 255)"
proof -
  have "log_wf (fold log_do calls b) \<and>
      log_main (fold log_do calls b) = take 3596 (concat (map log_says (rev (filter log_enabled calls))) @ log_main b)"
    using assms
  proof (induction calls arbitrary: b)
    case Nil
    then show ?case by (simp add: log_wf_def)
  next
    case (Cons c calls)
    define front where "front = concat (map log_says (rev (filter log_enabled calls)))"
    have z: "0 \<notin> set (lc_file c)" "0 \<notin> set (lc_body c)" using Cons.prems(2) by simp_all
    note d = log_do_main [OF Cons.prems(1) z]
    have "take 3596 (front @ log_main (log_do c b)) = take 3596 (front @ (if log_enabled c then log_says c else []) @ log_main b)"
      using take_append_take [of 3596 front "log_says c @ log_main b"] by (simp only: d(2) append_assoc append_Nil split: if_split) simp
    then show ?case using Cons.IH [OF d(1)] Cons.prems(2) by (simp add: front_def)
  qed
  then show ?thesis by (simp add: log_says_def log_message_def length_log_shown)
qed

definition log_sample :: "log_call list" where
  "log_sample =
     [\<lparr>lc_kind = ERROR, lc_sys = LEVEL_INFO, lc_time = 1500000, lc_file = ascii ''a.c'', lc_line = 7, lc_body = ascii ''one''\<rparr>,
      \<lparr>lc_kind = DEBUG, lc_sys = LEVEL_INFO, lc_time = 1600000, lc_file = ascii ''a.c'', lc_line = 9, lc_body = ascii ''not shown''\<rparr>,
      \<lparr>lc_kind = DEBUG, lc_sys = LEVEL_DEBUG, lc_time = 90061000000, lc_file = ascii ''a.c'', lc_line = 8, lc_body = ascii ''two''\<rparr>]"

lemma log_newest_first_witness:
  "log_main (fold log_do log_sample log_init) =
   take 3596 (concat [ascii ''1d 01:01:01.000: debug: a.c:8: two'' @ [10], ascii ''00:00:01.500: error: a.c:7: one'' @ [10]] @ replicate 3596 0)"
proof -
  have m: "log_message (ascii ''error'') 1500000 (ascii ''a.c'') 7 (ascii ''one'') = ascii ''00:00:01.500: error: a.c:7: one'' @ [10]"
    "log_message (ascii ''debug'') 90061000000 (ascii ''a.c'') 8 (ascii ''two'') = ascii ''1d 01:01:01.000: debug: a.c:8: two'' @ [10]"
    by code_simp+
  have "map log_says (rev (filter log_enabled log_sample)) =
      [ascii ''1d 01:01:01.000: debug: a.c:8: two'' @ [10], ascii ''00:00:01.500: error: a.c:7: one'' @ [10]]"
    by (simp add: log_sample_def log_enabled_def level_defs log_says_def m)
  moreover have "list_all (\<lambda>c. 0 \<notin> set (lc_file c) \<and> 0 \<notin> set (lc_body c)) log_sample" by (simp add: log_sample_def ascii_def)
  moreover have "log_main log_init = replicate 3596 0" by (simp add: log_init_def)
  ultimately show ?thesis using log_newest_first [OF log_wf_init, of log_sample] by metis
qed

text \<open>
  \<^verbatim>\<open>log_raise\<close> moves a level to the next higher of the five levels and \<^verbatim>\<open>log_lower\<close> to the next lower
  one, from any value; at the end of the scale they do nothing. Lowering undoes raising exactly for
  the four levels below \<^verbatim>\<open>LEVEL_CRITICAL\<close>.
\<close>

theorem log_level_steps:
  "log_raise x = (if x < LEVEL_CRITICAL
     then Min {l \<in> {LEVEL_DEBUG, LEVEL_INFO, LEVEL_WARNING, LEVEL_ERROR, LEVEL_CRITICAL}. x < l} else x) \<and>
   log_lower x = (if x > LEVEL_DEBUG
     then Max {l \<in> {LEVEL_DEBUG, LEVEL_INFO, LEVEL_WARNING, LEVEL_ERROR, LEVEL_CRITICAL}. l < x} else x) \<and>
   (log_lower (log_raise x) = x) = (x \<in> {LEVEL_DEBUG, LEVEL_INFO, LEVEL_WARNING, LEVEL_ERROR})"
proof -
  define S where "S = {LEVEL_DEBUG, LEVEL_INFO, LEVEL_WARNING, LEVEL_ERROR, LEVEL_CRITICAL}"
  have S: "finite S" by (simp add: S_def)
  have r: "log_raise x = (if x < LEVEL_CRITICAL then Min {l \<in> S. x < l} else x)"
  proof (cases "x < LEVEL_CRITICAL")
    case True
    then have "Min {l \<in> S. x < l} = log_raise x"
      using S by (intro Min_eqI) (auto simp: S_def log_raise_def level_defs word_less_nat_alt word_le_nat_alt split: if_splits)
    then show ?thesis using True by simp
  qed (simp add: log_raise_def level_defs word_less_nat_alt)
  have l: "log_lower x = (if x > LEVEL_DEBUG then Max {l \<in> S. l < x} else x)"
  proof (cases "x > LEVEL_DEBUG")
    case True
    then have "Max {l \<in> S. l < x} = log_lower x"
      using S by (intro Max_eqI) (auto simp: S_def log_lower_def level_defs word_less_nat_alt word_le_nat_alt split: if_splits)
    then show ?thesis using True by simp
  qed (simp add: log_lower_def level_defs word_less_nat_alt)
  have "(log_lower (log_raise x) = x) = (x \<in> {LEVEL_DEBUG, LEVEL_INFO, LEVEL_WARNING, LEVEL_ERROR})"
    by (auto simp: log_lower_def log_raise_def level_defs)
  with r l show ?thesis unfolding S_def by blast
qed

end
