(* ===== verification/Smtp.thy ===== *)
theory Smtp
  imports Md5 Base64 Param
begin

text \<open>
  The mail client of \<^verbatim>\<open>src/smtp/smtp.c\<close> and \<^verbatim>\<open>private.h\<close>: the account and its storage, the state
  machine that \<^verbatim>\<open>smtp_send\<close> starts and the network callbacks drive, and the CRAM-MD5 response. The
  results of the SDK calls are arguments (\<open>smtp_sdk\<close>); what the client asks of the network is
  recorded in the field \<open>sm_net\<close>, oldest first. Arrays on the stack that the code does not
  initialise are arguments too. \<open>None\<close> is an access outside an array. Log messages are left out.
\<close>

section \<open>Data\<close>

record smtp_server =
  sv_host :: "u8 list"
  sv_port :: u16
  sv_user :: "u8 list"
  sv_pass :: "u8 list"
  sv_from :: "u8 list"
  sv_to :: "u8 list"

datatype smtp_st =
    SMTP_STATE_FAILED | SMTP_STATE_READY | SMTP_STATE_RESOLVE | SMTP_STATE_CONNECT
  | SMTP_STATE_GREET | SMTP_STATE_CHALLENGE | SMTP_STATE_AUTH | SMTP_STATE_FROM
  | SMTP_STATE_TO | SMTP_STATE_DATA | SMTP_STATE_QUIT | SMTP_STATE_CLOSE

text \<open>The connection argument of the kill timer: \<^verbatim>\<open>&smtp_state.conn\<close> or \<^verbatim>\<open>NULL\<close>.\<close>

datatype conn_arg = Conn | NULL

datatype net_call =
    Resolve "u8 list"
  | Connect "u8 list" u16
  | Send "u8 list"
  | Disconnect conn_arg
  | Delete conn_arg

record smtp_state =
  sm_state :: smtp_st
  sm_ip :: "u8 list"
  sm_port :: u16
  sm_timer :: "conn_arg option"
  sm_inbuf :: "u8 list"
  sm_inbufused :: u16
  sm_outbuf :: "u8 list"
  sm_from :: "u8 list"
  sm_to :: "u8 list"
  sm_subj :: "u8 list"
  sm_body :: "u8 list"
  sm_net :: "net_call list"

datatype dns_result = Dns_ok u32 | Dns_inprogress | Dns_failed

text \<open>The results of the SDK calls; \<open>True\<close> is a nonzero result, that is a failure.\<close>

record smtp_sdk =
  sdk_dns :: dns_result
  sdk_connectcb :: bool
  sdk_reconcb :: bool
  sdk_connect :: bool
  sdk_disconcb :: bool
  sdk_recvcb :: bool
  sdk_sentcb :: bool
  sdk_send :: bool

abbreviation crlf :: "u8 list" where
  "crlf \<equiv> [13, 10]"

section \<open>Starting and stopping\<close>

text \<open>The account as it is laid out in memory; the struct has no padding.\<close>

definition server_bytes :: "smtp_server \<Rightarrow> u8 list" where
  "server_bytes sv = sv_host sv @ [ucast (sv_port sv), ucast (drop_bit 8 (sv_port sv))] @
     sv_user sv @ sv_pass sv @ sv_from sv @ sv_to sv"

definition server_of_bytes :: "u8 list \<Rightarrow> smtp_server" where
  "server_of_bytes bs =
     \<lparr>sv_host = take 64 bs, sv_port = ucast (bs ! 64) OR push_bit 8 (ucast (bs ! 65)),
      sv_user = take 64 (drop 66 bs), sv_pass = take 64 (drop 130 bs),
      sv_from = take 128 (drop 194 bs), sv_to = take 128 (drop 322 bs)\<rparr>"

definition smtp_state0 :: smtp_state where
  "smtp_state0 = \<lparr>sm_state = SMTP_STATE_READY, sm_ip = replicate 4 0, sm_port = 0, sm_timer = None,
     sm_inbuf = replicate 2048 0, sm_inbufused = 0, sm_outbuf = replicate 1024 0,
     sm_from = replicate 128 0, sm_to = replicate 128 0, sm_subj = replicate 128 0,
     sm_body = replicate 512 0, sm_net = []\<rparr>"

text \<open>\<^verbatim>\<open>smtp_init\<close> reads the account with \<^verbatim>\<open>param_retrieve\<close>; without one it stays empty.\<close>

definition smtp_init ::
    "(nat \<Rightarrow> nat \<Rightarrow> nat \<Rightarrow> 'f \<Rightarrow> u8 list option) \<Rightarrow> flash_size_map \<Rightarrow> u8 list \<Rightarrow> 'f \<Rightarrow>
     (smtp_state \<times> smtp_server) option" where
  "smtp_init load fmap param_buf f =
     map_option (\<lambda>(rv, val, buf). (smtp_state0, server_of_bytes val))
       (param_retrieve load fmap PARAM_SMTP_OFFSET (replicate 450 0) param_buf f)"

text \<open>Giving up: the state is \<^verbatim>\<open>SMTP_STATE_FAILED\<close> and the kill timer runs.\<close>

definition smtp_fail :: "conn_arg \<Rightarrow> smtp_state \<Rightarrow> smtp_state" where
  "smtp_fail arg s = s\<lparr>sm_state := SMTP_STATE_FAILED, sm_timer := Some arg\<rparr>"

definition smtp_net :: "net_call \<Rightarrow> smtp_state \<Rightarrow> smtp_state" where
  "smtp_net c s = s\<lparr>sm_net := sm_net s @ [c]\<rparr>"

definition smtp_send_kill :: "conn_arg \<Rightarrow> smtp_state \<Rightarrow> smtp_state" where
  "smtp_send_kill arg s = smtp_net (Delete arg) (smtp_net (Disconnect arg) s)"

definition smtp_send_connect :: "smtp_sdk \<Rightarrow> smtp_server \<Rightarrow> u32 \<Rightarrow> smtp_state \<Rightarrow> smtp_state" where
  "smtp_send_connect sdk sv ip s =
     (let s = s\<lparr>sm_state := SMTP_STATE_CONNECT, sm_port := sv_port sv,
                sm_ip := [ucast ip, ucast (drop_bit 8 ip), ucast (drop_bit 16 ip), ucast (drop_bit 24 ip)]\<rparr>
      in if sdk_connectcb sdk then s\<lparr>sm_state := SMTP_STATE_FAILED\<rparr>
         else if sdk_reconcb sdk then s\<lparr>sm_state := SMTP_STATE_FAILED\<rparr>
         else if sdk_connect sdk then s\<lparr>sm_state := SMTP_STATE_FAILED\<rparr>
         else smtp_net (Connect (sm_ip s) (sm_port s)) s)"

definition smtp_send_dns :: "smtp_sdk \<Rightarrow> smtp_server \<Rightarrow> u32 option \<Rightarrow> smtp_state \<Rightarrow> smtp_state" where
  "smtp_send_dns sdk sv ip s =
     (case ip of None \<Rightarrow> s\<lparr>sm_state := SMTP_STATE_FAILED\<rparr> | Some ip \<Rightarrow> smtp_send_connect sdk sv ip s)"

text \<open>The copies of the four arguments, which are C strings, stop at the first one that does not fit.\<close>

definition smtp_copy :: "u8 list \<Rightarrow> u8 list \<Rightarrow> u8 list option" where
  "smtp_copy buf str = (if length str + 1 > length buf then None else Some (patch buf 0 (str @ [0])))"

definition smtp_send ::
    "smtp_sdk \<Rightarrow> smtp_server \<Rightarrow> u8 list \<Rightarrow> u8 list \<Rightarrow> u8 list \<Rightarrow> u8 list \<Rightarrow> smtp_state \<Rightarrow> smtp_state" where
  "smtp_send sdk sv from to subj body s =
     (if c_strlen (sv_host sv) = 0 then s
      else if sm_state s \<noteq> SMTP_STATE_READY then s
      else (case smtp_copy (sm_from s) from of None \<Rightarrow> s | Some b1 \<Rightarrow>
        (let s1 = s\<lparr>sm_from := b1\<rparr> in
         (case smtp_copy (sm_to s) to of None \<Rightarrow> s1 | Some b2 \<Rightarrow>
           (let s2 = s1\<lparr>sm_to := b2\<rparr> in
            (case smtp_copy (sm_subj s) subj of None \<Rightarrow> s2 | Some b3 \<Rightarrow>
              (let s3 = s2\<lparr>sm_subj := b3\<rparr> in
               (case smtp_copy (sm_body s) body of None \<Rightarrow> s3 | Some b4 \<Rightarrow>
                 (let s4 = smtp_net (Resolve (cstr (sv_host sv))) (s3\<lparr>sm_body := b4, sm_state := SMTP_STATE_RESOLVE\<rparr>) in
                  (case sdk_dns sdk of
                     Dns_ok ip \<Rightarrow> smtp_send_connect sdk sv ip s4
                   | Dns_inprogress \<Rightarrow> s4
                   | Dns_failed \<Rightarrow> s4\<lparr>sm_state := SMTP_STATE_FAILED\<rparr>))))))))))"

section \<open>The dialogue\<close>

definition smtp_send_conn_cb :: "smtp_sdk \<Rightarrow> smtp_state \<Rightarrow> smtp_state" where
  "smtp_send_conn_cb sdk s =
     (if sdk_disconcb sdk then smtp_fail Conn s
      else if sdk_recvcb sdk then smtp_fail Conn s
      else if sdk_sentcb sdk then smtp_fail Conn s
      else let s = s\<lparr>sm_state := SMTP_STATE_GREET\<rparr> in
        if sdk_send sdk then smtp_fail NULL s
        else smtp_net (Send (ascii ''ehlo [127.0.1.1]'' @ crlf)) s)"

text \<open>
  The end of the first line in \<^verbatim>\<open>inbuf\<close>, read as a C string. (The assignment
  \<^verbatim>\<open>inbuf[os_strlen(inbuf)] = 0\<close> before each search changes nothing.)
\<close>

definition smtp_line :: "smtp_state \<Rightarrow> nat option option" where
  "smtp_line s = (if 0 \<in> set (sm_inbuf s) then Some (c_strstr (cstr (sm_inbuf s)) crlf) else None)"

text \<open>
  Dropping the first line, \<open>e\<close> bytes and the line end: the counter is a \<^verbatim>\<open>uint16_t\<close>, and
  \<^verbatim>\<open>inbufused+1\<close> bytes are moved.
\<close>

definition smtp_take :: "nat \<Rightarrow> smtp_state \<Rightarrow> smtp_state option" where
  "smtp_take e s =
     (let used = sm_inbufused s - of_nat (e + 2) in
      if e + 2 + (unat used + 1) \<le> length (sm_inbuf s)
      then Some (s\<lparr>sm_inbufused := used,
                   sm_inbuf := patch (sm_inbuf s) 0 (take (unat used + 1) (drop (e + 2) (sm_inbuf s)))\<rparr>)
      else None)"

text \<open>\<^verbatim>\<open>espconn_send\<close> of the first \<open>n\<close> bytes of \<^verbatim>\<open>outbuf\<close>.\<close>

definition smtp_transmit :: "smtp_sdk \<Rightarrow> nat \<Rightarrow> smtp_state \<Rightarrow> smtp_state option" where
  "smtp_transmit sdk n s =
     (if length (sm_outbuf s) < n then None
      else if sdk_send sdk then Some (smtp_fail NULL s)
      else Some (smtp_net (Send (take n (sm_outbuf s))) s))"

text \<open>\<^verbatim>\<open>outbuf[n] = 0\<close> after a successful transmission, for the log message.\<close>

definition smtp_cut :: "smtp_sdk \<Rightarrow> nat \<Rightarrow> smtp_state \<Rightarrow> smtp_state" where
  "smtp_cut sdk n s = (if sdk_send sdk then s else s\<lparr>sm_outbuf := (sm_outbuf s)[n := 0]\<rparr>)"

lemma smtp_take_less:
  assumes "smtp_take e s = Some s'" "length (sm_inbuf s) \<le> 2048"
  shows "unat (sm_inbufused s') + e + 2 = unat (sm_inbufused s)" "length (sm_inbuf s') = length (sm_inbuf s)"
proof -
  define u where "u = sm_inbufused s - of_nat (e + 2)"
  have l: "e + 2 + (unat u + 1) \<le> length (sm_inbuf s)" and s': "sm_inbufused s' = u"
      "sm_inbuf s' = patch (sm_inbuf s) 0 (take (unat u + 1) (drop (e + 2) (sm_inbuf s)))"
    using assms(1) by (auto simp: smtp_take_def Let_def u_def split: if_splits)
  have e: "unat (of_nat (e + 2) :: u16) = e + 2" using l assms(2) by (intro unat_of_nat_small) simp
  have "sm_inbufused s = u + of_nat (e + 2)" by (simp add: u_def)
  then have "unat (sm_inbufused s) = (unat u + (e + 2)) mod 2 ^ 16" by (simp only: unat_word_ariths e) simp
  then show "unat (sm_inbufused s') + e + 2 = unat (sm_inbufused s)" using l assms(2) s' by simp
  show "length (sm_inbuf s') = length (sm_inbuf s)" using l s' by simp
qed

text \<open>
  The loop over the lines of the greeting; the result says whether the last line was seen. It ends
  because every turn takes a line off the 2048 bytes of the array.
\<close>

function smtp_greet_loop :: "smtp_state \<Rightarrow> (bool \<times> smtp_state) option" where
  "smtp_greet_loop s =
     (if length (sm_inbuf s) \<noteq> 2048 then None
      else case smtp_line s of
        None \<Rightarrow> None
      | Some None \<Rightarrow> Some (False, s)
      | Some (Some e) \<Rightarrow>
          if \<not> (strncmp_eq (ascii ''220'') (sm_inbuf s) 3 \<or> strncmp_eq (ascii ''250'') (sm_inbuf s) 3)
          then Some (False, smtp_fail NULL s)
          else
            case smtp_take e s of
              None \<Rightarrow> None
            | Some s' \<Rightarrow>
                if strncmp_eq (ascii ''250 '') (sm_inbuf s) 4 then Some (True, s')
                else if sm_inbufused s' = 0 then Some (False, s')
                else smtp_greet_loop s')"
  by pat_completeness auto
termination
  by (relation "measure (\<lambda>s. unat (sm_inbufused s))") (auto dest!: smtp_take_less(1))

declare smtp_greet_loop.simps [simp del]

definition smtp_send_greet :: "smtp_sdk \<Rightarrow> smtp_state \<Rightarrow> smtp_state option" where
  "smtp_send_greet sdk s =
     (case smtp_greet_loop s of
        None \<Rightarrow> None
      | Some (False, s1) \<Rightarrow> Some s1
      | Some (True, s1) \<Rightarrow>
          let s2 = s1\<lparr>sm_state := SMTP_STATE_CHALLENGE\<rparr> in
          Some (if sdk_send sdk then smtp_fail NULL s2
                else smtp_net (Send (ascii ''AUTH CRAM-MD5'' @ crlf)) s2))"

text \<open>
  What the handlers of a single reply share: wait for a line, check the code, drop the line, change
  the state and go on with \<open>k\<close>.
\<close>

definition smtp_reply ::
    "u8 list \<Rightarrow> smtp_st \<Rightarrow> (smtp_state \<Rightarrow> smtp_state option) \<Rightarrow> smtp_state \<Rightarrow> smtp_state option" where
  "smtp_reply code st k s =
     (case smtp_line s of
        None \<Rightarrow> None
      | Some None \<Rightarrow> Some s
      | Some (Some e) \<Rightarrow>
          if \<not> strncmp_eq code (sm_inbuf s) 4 then Some (smtp_fail NULL s)
          else (case smtp_take e s of None \<Rightarrow> None | Some s1 \<Rightarrow> k (s1\<lparr>sm_state := st\<rparr>)))"

text \<open>The HMAC key: the password, or its digest if it is longer than a block.\<close>

definition smtp_key :: "md5_state \<Rightarrow> u8 list \<Rightarrow> u8 list option" where
  "smtp_key m0 pass =
     (if 0 \<notin> set pass then None
      else if c_strlen pass > 64
      then map_option (patch (replicate 64 0) 0) (md5 m0 (cstr pass))
      else Some (patch (replicate 64 0) 0 (cstr pass)))"

text \<open>The response, and the contents of the array \<^verbatim>\<open>right\<close>, which serves as a scratch buffer.\<close>

definition smtp_cram :: "md5_state \<Rightarrow> u8 list \<Rightarrow> u8 list \<Rightarrow> u8 list \<Rightarrow> (u8 list \<times> u8 list) option" where
  "smtp_cram m0 key chal right0 =
     (let left = map (\<lambda>b. b XOR 0x5c) key;
          right1 = patch right0 0 (map (\<lambda>b. b XOR 0x36) key);
          right2 = patch right1 64 chal
      in case md5 m0 (take (64 + length chal) right2) of
           None \<Rightarrow> None
         | Some h \<Rightarrow>
             let right3 = patch right2 64 h;
                 right4 = patch right3 0 left
             in map_option (\<lambda>resp. (resp, right4)) (md5 m0 (take (64 + 16) right4)))"

text \<open>
  The block at the end of \<^verbatim>\<open>smtp_send_challenge\<close>: response, encoding and transmission. The challenge
  \<open>chal\<close> is a C string.
\<close>

definition smtp_respond ::
    "smtp_sdk \<Rightarrow> smtp_server \<Rightarrow> md5_state \<Rightarrow> u8 list \<Rightarrow> u8 list \<Rightarrow> smtp_state \<Rightarrow> smtp_state option" where
  "smtp_respond sdk sv m0 right0 chal s =
     (case smtp_key m0 (sv_pass sv) of
        None \<Rightarrow> None
      | Some key \<Rightarrow>
          if 64 + length chal > length right0 then Some (smtp_fail NULL s)
          else
            (case smtp_cram m0 key chal right0 of
               None \<Rightarrow> None
             | Some (resp, right4) \<Rightarrow>
                 let len = c_strlen (sv_user sv) + 33 in
                 if 0 \<notin> set (sv_user sv) then None
                 else if len > length right4 then Some (smtp_fail NULL s)
                 else
                   let right5 = c_snprintf right4 (cstr (sv_user sv) @ ascii '' '' @ concat (map fmt_02x resp));
                       (len2, out) = b64_encode (take len right5) (sm_outbuf s);
                       s1 = s\<lparr>sm_outbuf := out\<rparr>
                   in if len2 < 0 then Some (smtp_fail NULL s1)
                      else if nat len2 + 2 > length out then None
                      else map_option (smtp_cut sdk (nat len2))
                             (smtp_transmit sdk (nat len2 + 2) (s1\<lparr>sm_outbuf := patch out (nat len2) crlf\<rparr>))))"

definition smtp_send_challenge ::
    "smtp_sdk \<Rightarrow> smtp_server \<Rightarrow> md5_state \<Rightarrow> u8 list \<Rightarrow> u8 list \<Rightarrow> smtp_state \<Rightarrow> smtp_state option" where
  "smtp_send_challenge sdk sv m0 chal0 right0 s =
     (case smtp_line s of
        None \<Rightarrow> None
      | Some None \<Rightarrow> Some s
      | Some (Some e) \<Rightarrow>
          if \<not> strncmp_eq (ascii ''334 '') (sm_inbuf s) 4 then Some (smtp_fail NULL s)
          else
            let (len2, chal) = b64_decode (take (e - 4) (drop 4 (sm_inbuf s))) chal0 in
            if len2 < 0 then Some (smtp_fail NULL s)
            else if nat len2 \<ge> length chal then None
            else
              let chal' = chal[nat len2 := 0] in
              (case smtp_take e s of
                 None \<Rightarrow> None
               | Some s1 \<Rightarrow> smtp_respond sdk sv m0 right0 (cstr chal') (s1\<lparr>sm_state := SMTP_STATE_AUTH\<rparr>)))"

text \<open>Formatting a command into \<^verbatim>\<open>outbuf\<close> and sending \<open>n\<close> bytes of it.\<close>

definition smtp_command :: "smtp_sdk \<Rightarrow> u8 list \<Rightarrow> nat \<Rightarrow> smtp_state \<Rightarrow> smtp_state option" where
  "smtp_command sdk body n s = smtp_transmit sdk n (s\<lparr>sm_outbuf := c_snprintf (sm_outbuf s) body\<rparr>)"

definition smtp_send_auth :: "smtp_sdk \<Rightarrow> smtp_state \<Rightarrow> smtp_state option" where
  "smtp_send_auth sdk =
     smtp_reply (ascii ''235 '') SMTP_STATE_FROM (\<lambda>s.
       map_option (smtp_cut sdk (c_strlen (sm_from s) + 12))
         (smtp_command sdk (ascii ''mail FROM:<'' @ cstr (sm_from s) @ ascii ''>'' @ crlf) (c_strlen (sm_from s) + 14) s))"

definition smtp_send_from :: "smtp_sdk \<Rightarrow> smtp_state \<Rightarrow> smtp_state option" where
  "smtp_send_from sdk =
     smtp_reply (ascii ''250 '') SMTP_STATE_TO (\<lambda>s.
       map_option (smtp_cut sdk (c_strlen (sm_to s) + 10))
         (smtp_command sdk (ascii ''rcpt TO:<'' @ cstr (sm_to s) @ ascii ''>'' @ crlf) (c_strlen (sm_to s) + 12) s))"

definition smtp_send_to :: "smtp_sdk \<Rightarrow> smtp_state \<Rightarrow> smtp_state option" where
  "smtp_send_to sdk =
     smtp_reply (ascii ''250 '') SMTP_STATE_DATA (smtp_command sdk (ascii ''data'' @ crlf) 6)"

definition smtp_mail :: "smtp_state \<Rightarrow> u8 list" where
  "smtp_mail s =
     ascii ''From: '' @ cstr (sm_from s) @ crlf @ ascii ''To: '' @ cstr (sm_to s) @ crlf @
     ascii ''Subject: '' @ cstr (sm_subj s) @ crlf @ crlf @ cstr (sm_body s) @ crlf @ ascii ''.'' @ crlf"

definition smtp_send_data :: "smtp_sdk \<Rightarrow> smtp_state \<Rightarrow> smtp_state option" where
  "smtp_send_data sdk =
     smtp_reply (ascii ''354 '') SMTP_STATE_QUIT (\<lambda>s.
       smtp_command sdk (smtp_mail s)
         (6 + c_strlen (sm_from s) + 6 + c_strlen (sm_to s) + 11 + c_strlen (sm_subj s) + 4 + c_strlen (sm_body s) + 5) s)"

definition smtp_send_quit :: "smtp_sdk \<Rightarrow> smtp_state \<Rightarrow> smtp_state option" where
  "smtp_send_quit sdk =
     smtp_reply (ascii ''250 '') SMTP_STATE_CLOSE (smtp_command sdk (ascii ''quit'' @ crlf) 6)"

definition smtp_send_close :: "smtp_state \<Rightarrow> smtp_state option" where
  "smtp_send_close = smtp_reply (ascii ''221 '') SMTP_STATE_READY Some"

definition smtp_send_recv_cb ::
    "smtp_sdk \<Rightarrow> smtp_server \<Rightarrow> md5_state \<Rightarrow> u8 list \<Rightarrow> u8 list \<Rightarrow> u8 list \<Rightarrow> smtp_state \<Rightarrow> smtp_state option" where
  "smtp_send_recv_cb sdk sv m0 chal0 right0 data s =
     (if unat (sm_inbufused s) + length data \<ge> length (sm_inbuf s) then Some (smtp_fail NULL s)
      else
        let s1 = s\<lparr>sm_inbuf := patch (sm_inbuf s) (unat (sm_inbufused s)) data,
                   sm_inbufused := sm_inbufused s + of_nat (length data)\<rparr>
        in case sm_state s of
             SMTP_STATE_GREET \<Rightarrow> smtp_send_greet sdk s1
           | SMTP_STATE_CHALLENGE \<Rightarrow> smtp_send_challenge sdk sv m0 chal0 right0 s1
           | SMTP_STATE_AUTH \<Rightarrow> smtp_send_auth sdk s1
           | SMTP_STATE_FROM \<Rightarrow> smtp_send_from sdk s1
           | SMTP_STATE_TO \<Rightarrow> smtp_send_to sdk s1
           | SMTP_STATE_DATA \<Rightarrow> smtp_send_data sdk s1
           | SMTP_STATE_QUIT \<Rightarrow> smtp_send_quit sdk s1
           | SMTP_STATE_CLOSE \<Rightarrow> smtp_send_close s1
           | _ \<Rightarrow> Some s1)"

end
