(* ===== verification/Smtp_Session.thy ===== *)
theory Smtp_Session
  imports Smtp
begin

text \<open>
  What the mail client does: the CRAM-MD5 response is an HMAC (RFC 2104, RFC 2195), a server that
  answers line by line is sent one complete mail, the arrays are never overrun while replies arrive
  in whole lines, and a failed client recovers exactly if a callback of the SDK is still outstanding. The run in
  which a reply that arrives in two pieces makes the client move 65512 bytes over its state is here too.
\<close>

section \<open>HMAC-MD5\<close>

definition hmac_block :: "u8 list \<Rightarrow> u8 list" where
  "hmac_block K = (let k = (if length K > 64 then md5_spec K else K) in k @ replicate (64 - length k) 0)"

definition hmac_md5 :: "u8 list \<Rightarrow> u8 list \<Rightarrow> u8 list" where
  "hmac_md5 K m =
     md5_spec (map (\<lambda>b. b XOR 0x5c) (hmac_block K) @ md5_spec (map (\<lambda>b. b XOR 0x36) (hmac_block K) @ m))"

lemma length_hmac_block [simp]: "length (hmac_block K) = 64"
  by (simp add: hmac_block_def Let_def length_md5_spec)

lemma smtp_key_hmac:
  assumes "length (md5_buf m0) = 64" "0 \<in> set pass" "length pass < 2 ^ 29"
  shows "smtp_key m0 pass = Some (hmac_block (cstr pass))"
proof -
  have "length (cstr pass) < 2 ^ 29" using assms(3) length_takeWhile_le [of "\<lambda>b. b \<noteq> 0" pass] by (simp add: cstr_def)
  then have m: "md5 m0 (cstr pass) = Some (md5_spec (cstr pass))" by (rule md5_digest [OF assms(1)])
  show ?thesis using assms(2) m
    by (simp add: smtp_key_def c_strlen_def hmac_block_def Let_def patch_def length_md5_spec)
qed

lemma smtp_cram_hmac:
  assumes "length (md5_buf m0) = 64" "length right0 = 256" "length chal \<le> 192"
  shows "\<exists>r. smtp_cram m0 (hmac_block K) chal right0 = Some (hmac_md5 K chal, r) \<and> length r = 256"
proof -
  define ik ok where "ik = map (\<lambda>b. b XOR 0x36) (hmac_block K)" and "ok = map (\<lambda>b. b XOR 0x5c) (hmac_block K)"
  define r2 where "r2 = patch (patch right0 0 ik) 64 chal"
  have k: "length ik = 64" "length ok = 64" by (simp_all add: ik_def ok_def)
  have r2: "length r2 = 256" "take (64 + length chal) r2 = ik @ chal"
    using assms(2,3) k by (simp_all add: r2_def patch_def)
  define h where "h = md5_spec (ik @ chal)"
  have h: "md5 m0 (take (64 + length chal) r2) = Some h"
    unfolding r2(2) h_def by (rule md5_digest [OF assms(1)]) (use assms(3) k in simp)
  define r4 where "r4 = patch (patch r2 64 h) 0 ok"
  have r4: "length r4 = 256" "take (64 + 16) r4 = ok @ h"
    using r2(1) k by (simp_all add: r4_def patch_def h_def length_md5_spec)
  have "md5 m0 (take (64 + 16) r4) = Some (hmac_md5 K chal)"
    unfolding r4(2) by (subst md5_digest [OF assms(1)]) (use k in \<open>simp_all add: hmac_md5_def h_def ik_def ok_def length_md5_spec\<close>)
  then show ?thesis using h r4(1)
    unfolding smtp_cram_def Let_def ik_def [symmetric] ok_def [symmetric] r2_def [symmetric]
    by (simp only: option.case r4_def [symmetric]) simp
qed

section \<open>Well-formed states\<close>

definition c_text :: "nat \<Rightarrow> u8 list \<Rightarrow> bool" where
  "c_text n xs \<longleftrightarrow> length xs = n \<and> 0 \<in> set xs"

lemma c_text_strlen: "c_text n xs \<Longrightarrow> c_strlen xs < n"
proof -
  assume t: "c_text n xs"
  then obtain ys zs where "xs = ys @ 0 # zs" "0 \<notin> set ys" using split_list_first [of 0 xs] by (auto simp: c_text_def)
  then show ?thesis using t cstr_append by (auto simp: c_text_def c_strlen_def)
qed

definition server_wf :: "smtp_server \<Rightarrow> bool" where
  "server_wf sv \<longleftrightarrow> c_text 64 (sv_host sv) \<and> c_text 64 (sv_user sv) \<and> c_text 64 (sv_pass sv) \<and>
     c_text 128 (sv_from sv) \<and> c_text 128 (sv_to sv)"

definition smtp_wf :: "smtp_state \<Rightarrow> bool" where
  "smtp_wf s \<longleftrightarrow> length (sm_inbuf s) = 2048 \<and> sm_inbuf s ! 2047 = 0 \<and> unat (sm_inbufused s) < 2048 \<and>
     length (sm_outbuf s) = 1024 \<and> c_text 128 (sm_from s) \<and> c_text 128 (sm_to s) \<and>
     c_text 128 (sm_subj s) \<and> c_text 512 (sm_body s)"

lemma smtp_wf_init: "smtp_wf smtp_state0"
  by (simp add: smtp_wf_def smtp_state0_def c_text_def)

text \<open>The bytes that have arrived and are not yet dropped.\<close>

definition smtp_held :: "smtp_state \<Rightarrow> u8 list" where
  "smtp_held s = take (unat (sm_inbufused s)) (sm_inbuf s)"

lemma smtp_wf_simps [simp]:
  "smtp_wf (s\<lparr>sm_state := st\<rparr>) = smtp_wf s" "smtp_wf (s\<lparr>sm_timer := tm\<rparr>) = smtp_wf s"
  "smtp_wf (s\<lparr>sm_net := nt\<rparr>) = smtp_wf s" "smtp_wf (smtp_fail a s) = smtp_wf s" "smtp_wf (smtp_net c s) = smtp_wf s"
  by (simp_all add: smtp_wf_def smtp_fail_def smtp_net_def)

lemma smtp_held_simps [simp]:
  "smtp_held (s\<lparr>sm_state := st\<rparr>) = smtp_held s" "smtp_held (s\<lparr>sm_timer := tm\<rparr>) = smtp_held s"
  "smtp_held (s\<lparr>sm_net := nt\<rparr>) = smtp_held s" "smtp_held (smtp_fail a s) = smtp_held s"
  "smtp_held (smtp_net c s) = smtp_held s" "smtp_held (s\<lparr>sm_outbuf := ob\<rparr>) = smtp_held s"
  by (simp_all add: smtp_held_def smtp_fail_def smtp_net_def)

lemma length_smtp_held: "smtp_wf s \<Longrightarrow> length (smtp_held s) = unat (sm_inbufused s)"
  by (simp add: smtp_held_def smtp_wf_def)

definition smtp_arrive :: "u8 list \<Rightarrow> smtp_state \<Rightarrow> smtp_state" where
  "smtp_arrive d s = s\<lparr>sm_inbuf := patch (sm_inbuf s) (unat (sm_inbufused s)) d,
     sm_inbufused := sm_inbufused s + of_nat (length d)\<rparr>"

lemma smtp_arrive:
  assumes "smtp_wf s" "unat (sm_inbufused s) + length d < 2048"
  shows "smtp_wf (smtp_arrive d s)" "smtp_held (smtp_arrive d s) = smtp_held s @ d"
proof -
  have "unat (of_nat (length d) :: u16) = length d" using assms(2) by (intro unat_of_nat_small) simp
  then have u: "unat (sm_inbufused s + of_nat (length d)) = unat (sm_inbufused s) + length d"
    using assms(2) by (simp only: unat_word_ariths) simp
  show "smtp_wf (smtp_arrive d s)" using assms u by (simp add: smtp_wf_def smtp_arrive_def nth_patch)
  show "smtp_held (smtp_arrive d s) = smtp_held s @ d"
    using assms u by (simp add: smtp_held_def smtp_arrive_def smtp_wf_def take_patch_end)
qed

lemma smtp_take:
  assumes "smtp_wf s" "e + 2 \<le> unat (sm_inbufused s)"
  shows "\<exists>ib. smtp_take e s = Some (s\<lparr>sm_inbufused := sm_inbufused s - of_nat (e + 2), sm_inbuf := ib\<rparr>) \<and>
    smtp_wf (s\<lparr>sm_inbufused := sm_inbufused s - of_nat (e + 2), sm_inbuf := ib\<rparr>) \<and>
    smtp_held (s\<lparr>sm_inbufused := sm_inbufused s - of_nat (e + 2), sm_inbuf := ib\<rparr>) = drop (e + 2) (smtp_held s)"
proof -
  define u where "u = sm_inbufused s - of_nat (e + 2)"
  have b: "unat (sm_inbufused s) < 2048" using assms(1) by (simp add: smtp_wf_def)
  have e: "unat (of_nat (e + 2) :: u16) = e + 2" using b assms(2) by (intro unat_of_nat_small) simp
  have u: "unat u = unat (sm_inbufused s) - (e + 2)"
    unfolding u_def using unat_sub [of "of_nat (e + 2)" "sm_inbufused s"] assms(2) e by (simp add: word_le_nat_alt)
  define ib where "ib = patch (sm_inbuf s) 0 (take (unat u + 1) (drop (e + 2) (sm_inbuf s)))"
  have l: "e + 2 + (unat u + 1) \<le> length (sm_inbuf s)" using assms b u by (simp add: smtp_wf_def)
  have nf: "\<not> 2046 < unat (sm_inbufused s) - Suc (Suc e)" using b by linarith
  have w: "smtp_wf (s\<lparr>sm_inbufused := u, sm_inbuf := ib\<rparr>)"
    using assms l b u nf nth_patch [of 0 "take (unat u + 1) (drop (e + 2) (sm_inbuf s))" "sm_inbuf s" 2047]
    by (simp add: smtp_wf_def ib_def)
  have "smtp_held (s\<lparr>sm_inbufused := u, sm_inbuf := ib\<rparr>) = drop (e + 2) (smtp_held s)"
    using assms(1) l u by (simp add: smtp_held_def ib_def patch_def drop_take smtp_wf_def)
  with w show ?thesis using l unfolding smtp_take_def Let_def u_def [symmetric] ib_def [symmetric] by auto
qed

section \<open>Lines\<close>

lemma wf_nul: "smtp_wf s \<Longrightarrow> 0 \<in> set (sm_inbuf s)"
  using nth_mem [of 2047 "sm_inbuf s"] by (simp add: smtp_wf_def)

text \<open>A first line that is held completely is found, whatever follows it in the array.\<close>

lemma smtp_line_held:
  assumes "smtp_wf s" "smtp_held s = l @ u" "0 \<notin> set l" "c_strstr l crlf = Some e"
  shows "smtp_line s = Some (Some e)"
proof -
  have "sm_inbuf s = l @ u @ drop (unat (sm_inbufused s)) (sm_inbuf s)"
    using assms(2) append_take_drop_id [of "unat (sm_inbufused s)" "sm_inbuf s"] by (simp add: smtp_held_def)
  then have "\<exists>v. cstr (sm_inbuf s) = l @ v" using cstr_append_nz [OF assms(3)] by metis
  then show ?thesis using c_strstr_append [OF assms(4)] wf_nul [OF assms(1)] by (auto simp: smtp_line_def)
qed

text \<open>If what is held ends with a line end, no line extends beyond it.\<close>

definition whole_lines :: "u8 list \<Rightarrow> bool" where
  "whole_lines d \<longleftrightarrow> d = [] \<or> (\<exists>v. d = v @ crlf)"

lemma smtp_line_within:
  assumes "smtp_wf s" "whole_lines (smtp_held s)" "smtp_held s \<noteq> []" "smtp_line s = Some (Some e)"
  shows "e + 2 \<le> unat (sm_inbufused s)" "whole_lines (drop (e + 2) (smtp_held s))"
proof -
  define h r where "h = smtp_held s" and "r = drop (unat (sm_inbufused s)) (sm_inbuf s)"
  obtain v where v: "h = v @ crlf" using assms(2,3) by (auto simp: whole_lines_def h_def)
  have i: "sm_inbuf s = h @ r" by (simp add: h_def r_def smtp_held_def)
  have e: "c_strstr (cstr (h @ r)) crlf = Some e" using assms(4) i by (simp add: smtp_line_def split: if_splits)
  have le: "e + 2 \<le> length h \<and> take 2 (drop e h) = crlf"
  proof (cases "0 \<in> set h")
    case True
    have "cstr (h @ r) = cstr h" using True by (auto simp: cstr_def takeWhile_append1)
    then have c: "e + 2 \<le> length (cstr h)" "take 2 (drop e (cstr h)) = crlf"
      using c_strstr_Some [of "cstr h" crlf e] e by (simp_all add: numeral_2_eq_2)
    define g where "g = cstr h"
    obtain t where t: "h = g @ t" unfolding cstr_def g_def by (metis takeWhile_dropWhile_id)
    have "e + 2 \<le> length g" "take 2 (drop e g) = crlf" using c by (simp_all add: g_def)
    then show ?thesis unfolding t by simp
  next
    case False
    then have c: "cstr (h @ r) = h @ cstr r" by (rule cstr_append_nz)
    obtain j where j: "j \<le> length v" "c_strstr h crlf = Some j"
      using c_strstr_exists [of crlf "length v" h] v by auto
    then have "e = j" using c_strstr_append [OF j(2), of "cstr r"] e c by simp
    then show ?thesis using c_strstr_Some [OF j(2)] by (simp add: numeral_2_eq_2)
  qed
  then show "e + 2 \<le> unat (sm_inbufused s)" using length_smtp_held [OF assms(1)] by (simp add: h_def)
  have "e \<le> length v" using le v by simp
  moreover have "e + 2 \<noteq> length v + 1"
  proof
    assume "e + 2 = length v + 1"
    then have "Suc e = length v" by simp
    then have "h ! Suc e = 13" using v by (simp add: nth_append)
    moreover have "h ! Suc e = take 2 (drop e h) ! 1" using conjunct1 [OF le] by simp
    moreover have "take 2 (drop e h) ! 1 = crlf ! 1" by (simp only: le)
    ultimately have "(13 :: u8) = crlf ! 1" by metis
    then show False by simp
  qed
  ultimately have "e + 2 \<le> length v \<or> e = length v" by linarith
  then show "whole_lines (drop (e + 2) (smtp_held s))" using v by (auto simp: whole_lines_def h_def [symmetric])
qed

section \<open>Safety\<close>

text \<open>
  The handlers on a state that holds whole lines, at least one: they return, and the state is again
  well-formed with whole lines.
\<close>

definition smtp_ok :: "smtp_state \<Rightarrow> bool" where
  "smtp_ok s \<longleftrightarrow> smtp_wf s \<and> whole_lines (smtp_held s)"

lemma smtp_ok_simps [simp]:
  "smtp_ok (s\<lparr>sm_state := st\<rparr>) = smtp_ok s" "smtp_ok (s\<lparr>sm_timer := tm\<rparr>) = smtp_ok s"
  "smtp_ok (s\<lparr>sm_net := nt\<rparr>) = smtp_ok s" "smtp_ok (smtp_fail a s) = smtp_ok s" "smtp_ok (smtp_net c s) = smtp_ok s"
  by (simp_all add: smtp_ok_def)

lemma smtp_take_ok:
  assumes "smtp_ok s" "smtp_held s \<noteq> []" "smtp_line s = Some (Some e)"
  shows "\<exists>s'. smtp_take e s = Some s' \<and> smtp_ok s' \<and> sm_outbuf s' = sm_outbuf s \<and> sm_from s' = sm_from s \<and>
    sm_to s' = sm_to s \<and> sm_subj s' = sm_subj s \<and> sm_body s' = sm_body s"
proof -
  have w: "smtp_wf s" "whole_lines (smtp_held s)" using assms(1) by (simp_all add: smtp_ok_def)
  note l = smtp_line_within [OF w assms(2,3)]
  show ?thesis using smtp_take [OF w(1) l(1)] l(2) by (auto simp: smtp_ok_def)
qed

lemma smtp_line_total: "smtp_wf s \<Longrightarrow> \<exists>r. smtp_line s = Some r"
  by (simp add: smtp_line_def wf_nul)

text \<open>What a continuation has to guarantee for the handler to be safe.\<close>

definition keeps_ok :: "(smtp_state \<Rightarrow> smtp_state option) \<Rightarrow> bool" where
  "keeps_ok k \<longleftrightarrow> (\<forall>s. smtp_ok s \<longrightarrow> (\<exists>s'. k s = Some s' \<and> smtp_ok s'))"

lemma smtp_reply_ok:
  assumes "keeps_ok k" "smtp_ok s" "smtp_held s \<noteq> []"
  shows "\<exists>s'. smtp_reply code st k s = Some s' \<and> smtp_ok s'"
proof -
  have w: "smtp_wf s" using assms(2) by (simp add: smtp_ok_def)
  then obtain r where r: "smtp_line s = Some r" using smtp_line_total by blast
  show ?thesis
  proof (cases r)
    case None
    then show ?thesis using r assms(2) by (simp add: smtp_reply_def)
  next
    case (Some e)
    then obtain s1 where "smtp_take e s = Some s1" "smtp_ok s1" using smtp_take_ok [OF assms(2,3)] r by blast
    then show ?thesis using r Some assms(1,2) by (simp add: smtp_reply_def keeps_ok_def)
  qed
qed

lemma smtp_ok_outbuf: "smtp_ok s \<Longrightarrow> length ob = 1024 \<Longrightarrow> smtp_ok (s\<lparr>sm_outbuf := ob\<rparr>)"
  by (simp add: smtp_ok_def smtp_wf_def)

lemma smtp_ok_outlen: "smtp_ok s \<Longrightarrow> length (sm_outbuf s) = 1024"
  by (simp add: smtp_ok_def smtp_wf_def)

lemma smtp_transmit_ok: "smtp_ok s \<Longrightarrow> n \<le> 1024 \<Longrightarrow> \<exists>s'. smtp_transmit sdk n s = Some s' \<and> smtp_ok s'"
  by (simp add: smtp_transmit_def smtp_ok_outlen)

lemma smtp_cut_ok: "smtp_ok s \<Longrightarrow> smtp_ok (smtp_cut sdk n s)"
  by (simp add: smtp_cut_def smtp_ok_outbuf smtp_ok_outlen)

lemma smtp_command_ok: "smtp_ok s \<Longrightarrow> n \<le> 1024 \<Longrightarrow> \<exists>s'. smtp_command sdk body n s = Some s' \<and> smtp_ok s'"
  unfolding smtp_command_def by (rule smtp_transmit_ok) (simp_all add: smtp_ok_outbuf smtp_ok_outlen)

lemma smtp_ok_fields:
  "smtp_ok s \<Longrightarrow> c_strlen (sm_from s) < 128 \<and> c_strlen (sm_to s) < 128 \<and> c_strlen (sm_subj s) < 128 \<and> c_strlen (sm_body s) < 512"
  by (simp add: smtp_ok_def smtp_wf_def c_text_strlen)

lemma keeps_ok_commands:
  "keeps_ok (\<lambda>s. map_option (smtp_cut sdk (c_strlen (sm_from s) + 12))
     (smtp_command sdk (ascii ''mail FROM:<'' @ cstr (sm_from s) @ ascii ''>'' @ crlf) (c_strlen (sm_from s) + 14) s))"
  "keeps_ok (\<lambda>s. map_option (smtp_cut sdk (c_strlen (sm_to s) + 10))
     (smtp_command sdk (ascii ''rcpt TO:<'' @ cstr (sm_to s) @ ascii ''>'' @ crlf) (c_strlen (sm_to s) + 12) s))"
  "keeps_ok (smtp_command sdk txt 6)"
  "keeps_ok (\<lambda>s. smtp_command sdk (smtp_mail s) (6 + c_strlen (sm_from s) + 6 + c_strlen (sm_to s) + 11 +
     c_strlen (sm_subj s) + 4 + c_strlen (sm_body s) + 5) s)"
  "keeps_ok Some"
proof -
  have cut: "\<exists>s'. map_option (smtp_cut sdk m) (smtp_command sdk body n s) = Some s' \<and> smtp_ok s'"
    if "smtp_ok s" "n \<le> 1024" for s m n body
    using smtp_command_ok [OF that, of sdk body] smtp_cut_ok by auto
  show "keeps_ok (\<lambda>s. map_option (smtp_cut sdk (c_strlen (sm_from s) + 12))
     (smtp_command sdk (ascii ''mail FROM:<'' @ cstr (sm_from s) @ ascii ''>'' @ crlf) (c_strlen (sm_from s) + 14) s))"
    unfolding keeps_ok_def by (intro allI impI cut) (use smtp_ok_fields in fastforce)+
  show "keeps_ok (\<lambda>s. map_option (smtp_cut sdk (c_strlen (sm_to s) + 10))
     (smtp_command sdk (ascii ''rcpt TO:<'' @ cstr (sm_to s) @ ascii ''>'' @ crlf) (c_strlen (sm_to s) + 12) s))"
    unfolding keeps_ok_def by (intro allI impI cut) (use smtp_ok_fields in fastforce)+
  show "keeps_ok (smtp_command sdk txt 6)"
    unfolding keeps_ok_def by (intro allI impI smtp_command_ok) simp_all
  show "keeps_ok (\<lambda>s. smtp_command sdk (smtp_mail s) (6 + c_strlen (sm_from s) + 6 + c_strlen (sm_to s) + 11 +
     c_strlen (sm_subj s) + 4 + c_strlen (sm_body s) + 5) s)"
    unfolding keeps_ok_def by (intro allI impI smtp_command_ok) (use smtp_ok_fields in fastforce)+
  show "keeps_ok Some" by (simp add: keeps_ok_def)
qed

lemma smtp_greet_loop_ok:
  "smtp_ok s \<Longrightarrow> smtp_held s \<noteq> [] \<Longrightarrow> \<exists>b s'. smtp_greet_loop s = Some (b, s') \<and> smtp_ok s'"
proof (induction s rule: smtp_greet_loop.induct)
  case (1 s)
  have w: "smtp_wf s" "length (sm_inbuf s) = 2048" using "1.prems" by (simp_all add: smtp_ok_def smtp_wf_def)
  then obtain r where r: "smtp_line s = Some r" using smtp_line_total by blast
  show ?case
  proof (cases r)
    case None
    then show ?thesis using r w "1.prems" by (subst smtp_greet_loop.simps) auto
  next
    case (Some e)
    let ?g = "strncmp_eq (ascii ''220'') (sm_inbuf s) 3 \<or> strncmp_eq (ascii ''250'') (sm_inbuf s) 3"
    let ?d = "strncmp_eq (ascii ''250 '') (sm_inbuf s) 4"
    obtain s1 where s1: "smtp_take e s = Some s1" "smtp_ok s1" using smtp_take_ok [OF "1.prems"] r Some by blast
    have "smtp_held s1 \<noteq> []" if "sm_inbufused s1 \<noteq> 0"
      using that length_smtp_held [of s1] s1(2) by (auto simp: smtp_ok_def unat_eq_zero)
    then have "\<exists>b s'. smtp_greet_loop s1 = Some (b, s') \<and> smtp_ok s'" if "?g" "\<not> ?d" "sm_inbufused s1 \<noteq> 0"
      using "1.IH" [OF _ r Some _ s1(1)] that w(2) s1(2) by blast
    then show ?thesis using r w(2) Some s1 "1.prems"(1) by (subst smtp_greet_loop.simps) auto
  qed
qed

lemma smtp_send_greet_ok:
  assumes "smtp_ok s" "smtp_held s \<noteq> []"
  shows "\<exists>s'. smtp_send_greet sdk s = Some s' \<and> smtp_ok s'"
proof -
  obtain b s1 where "smtp_greet_loop s = Some (b, s1)" "smtp_ok s1" using smtp_greet_loop_ok [OF assms] by blast
  then show ?thesis by (cases b) (simp_all add: smtp_send_greet_def Let_def)
qed

lemma server_wf_strlen: "server_wf sv \<Longrightarrow> c_strlen (sv_user sv) < 64"
  by (simp add: server_wf_def c_text_strlen)

lemma length_hmac_md5 [simp]: "length (hmac_md5 K m) = 16"
  by (simp add: hmac_md5_def length_md5_spec)

text \<open>The text of the response before encoding.\<close>

definition cram_text :: "smtp_server \<Rightarrow> u8 list \<Rightarrow> u8 list" where
  "cram_text sv chal = cstr (sv_user sv) @ ascii '' '' @ concat (map fmt_02x (hmac_md5 (cstr (sv_pass sv)) chal))"

lemma length_hex: "length (concat (map fmt_02x bs)) = 2 * length bs"
  by (induction bs) (simp_all add: fmt_02x_def)

lemma length_cram_text: "length (cram_text sv chal) = c_strlen (sv_user sv) + 33"
  by (simp add: cram_text_def length_hex c_strlen_def ascii_def)

lemma smtp_respond_sends:
  assumes "server_wf sv" "length (md5_buf m0) = 64" "length right0 = 256" "length chal \<le> 127" "smtp_wf s"
  shows "\<exists>ob. length ob = 1024 \<and> smtp_respond sdk sv m0 right0 chal s =
    Some (if sdk_send sdk then smtp_fail NULL (s\<lparr>sm_outbuf := ob\<rparr>)
          else smtp_net (Send (b64_text (cram_text sv chal) @ crlf)) (s\<lparr>sm_outbuf := ob\<rparr>))"
proof -
  have sv: "0 \<in> set (sv_pass sv)" "length (sv_pass sv) = 64" "0 \<in> set (sv_user sv)"
    using assms(1) by (simp_all add: server_wf_def c_text_def)
  have k: "smtp_key m0 (sv_pass sv) = Some (hmac_block (cstr (sv_pass sv)))"
    by (rule smtp_key_hmac [OF assms(2) sv(1)]) (simp add: sv(2))
  obtain r where c: "smtp_cram m0 (hmac_block (cstr (sv_pass sv))) chal right0 = Some (hmac_md5 (cstr (sv_pass sv)) chal, r)"
    and r: "length r = 256" using smtp_cram_hmac [OF assms(2,3), of chal "cstr (sv_pass sv)"] assms(4) by auto
  define t where "t = cram_text sv chal"
  have t: "length t = c_strlen (sv_user sv) + 33" "length t \<le> 96"
    using server_wf_strlen [OF assms(1)] by (simp_all add: t_def length_cram_text)
  have right: "take (c_strlen (sv_user sv) + 33) (c_snprintf r t) = t"
    using r t by (cases r) (simp_all add: c_snprintf_def patch_def)
  define n where "n = length (b64_text t)"
  have n: "n \<le> 132" using t(2) by (simp add: n_def b64_text_length)
  have ob: "length (sm_outbuf s) = 1024" using assms(5) by (simp add: smtp_wf_def)
  have enc: "b64_encode t (sm_outbuf s) = (int n, patch (sm_outbuf s) 0 (b64_text t))"
    using n ob by (simp add: b64_encode_text n_def)
  define out where "out = patch (patch (sm_outbuf s) 0 (b64_text t)) n crlf"
  have out: "length out = 1024" "take (n + 2) out = b64_text t @ crlf" "length (patch (sm_outbuf s) 0 (b64_text t)) = 1024"
    using n ob by (simp_all add: out_def n_def patch_def)
  have "smtp_respond sdk sv m0 right0 chal s =
      map_option (smtp_cut sdk n) (smtp_transmit sdk (n + 2) (s\<lparr>sm_outbuf := out\<rparr>))"
    using k c r sv(3) t n out(3) assms(3,4) right enc
    unfolding smtp_respond_def t_def [unfolded cram_text_def, symmetric]
    by (simp add: Let_def out_def cram_text_def [symmetric] t_def [symmetric])
  also have "\<dots> = Some (smtp_cut sdk n (if sdk_send sdk then smtp_fail NULL (s\<lparr>sm_outbuf := out\<rparr>)
      else smtp_net (Send (b64_text t @ crlf)) (s\<lparr>sm_outbuf := out\<rparr>)))"
    using n out(1,2) by (simp add: smtp_transmit_def)
  finally have "smtp_respond sdk sv m0 right0 chal s =
      Some (if sdk_send sdk then smtp_fail NULL (s\<lparr>sm_outbuf := out\<rparr>)
        else smtp_net (Send (b64_text t @ crlf)) (s\<lparr>sm_outbuf := out[n := 0]\<rparr>))"
    by (simp add: smtp_cut_def smtp_net_def)
  then show ?thesis using out(1) by (intro exI [of _ "if sdk_send sdk then out else out[n := 0]"]) (simp add: t_def)
qed

lemma smtp_send_challenge_ok:
  assumes "server_wf sv" "length (md5_buf m0) = 64" "length chal0 = 128" "length right0 = 256"
    and "smtp_ok s" "smtp_held s \<noteq> []"
  shows "\<exists>s'. smtp_send_challenge sdk sv m0 chal0 right0 s = Some s' \<and> smtp_ok s'"
proof -
  have w: "smtp_wf s" using assms(5) by (simp add: smtp_ok_def)
  then obtain r where r: "smtp_line s = Some r" using smtp_line_total by blast
  show ?thesis
  proof (cases "r = None \<or> \<not> strncmp_eq (ascii ''334 '') (sm_inbuf s) 4")
    case True
    then show ?thesis using r assms(5) by (cases r) (auto simp: smtp_send_challenge_def)
  next
    case False
    then obtain e where e: "r = Some e" by auto
    obtain n chal where d: "b64_decode (take (e - 4) (drop 4 (sm_inbuf s))) chal0 = (n, chal)" by fastforce
    obtain s1 where s1: "smtp_take e s = Some s1" "smtp_ok s1" using smtp_take_ok [OF assms(5,6)] r e by blast
    show ?thesis
    proof (cases "n < 0")
      case True
      then show ?thesis using r e False d assms(5) by (simp add: smtp_send_challenge_def)
    next
      case n: False
      have "nat n \<le> length (take (e - 4) (drop 4 (sm_inbuf s))) div 4 * 3 \<and>
          length (take (e - 4) (drop 4 (sm_inbuf s))) div 4 * 3 \<le> 128 \<and> length chal = 128"
        using b64_decode_short [OF d n] by (simp only: assms(3))
      moreover have "k < 128" if "k \<le> q * 3" "q * 3 \<le> 128" for k q :: nat using that by presburger
      ultimately have l: "length chal = 128" "nat n < 128" by blast+
      define c where "c = cstr (chal[nat n := 0])"
      have "length c \<le> 127"
        using c_text_strlen [of 128 "chal[nat n := 0]"] l by (simp add: c_text_def c_strlen_def c_def set_update_memI)
      then obtain ob where "length ob = 1024" "smtp_respond sdk sv m0 right0 c (s1\<lparr>sm_state := SMTP_STATE_AUTH\<rparr>) =
          Some (if sdk_send sdk then smtp_fail NULL (s1\<lparr>sm_state := SMTP_STATE_AUTH, sm_outbuf := ob\<rparr>)
            else smtp_net (Send (b64_text (cram_text sv c) @ crlf)) (s1\<lparr>sm_state := SMTP_STATE_AUTH, sm_outbuf := ob\<rparr>))"
        using smtp_respond_sends [OF assms(1,2,4), of c "s1\<lparr>sm_state := SMTP_STATE_AUTH\<rparr>" sdk] s1(2)
        by (auto simp: smtp_ok_def)
      then show ?thesis using r e False d n l s1 by (simp add: smtp_send_challenge_def c_def smtp_ok_outbuf)
    qed
  qed
qed

lemma smtp_send_recv_cb_ok:
  assumes "server_wf sv" "length (md5_buf m0) = 64" "length chal0 = 128" "length right0 = 256"
    and "smtp_ok s" "whole_lines data" "data \<noteq> []"
  shows "\<exists>s'. smtp_send_recv_cb sdk sv m0 chal0 right0 data s = Some s' \<and> smtp_ok s'"
proof (cases "unat (sm_inbufused s) + length data \<ge> 2048")
  case True
  moreover have "length (sm_inbuf s) = 2048" using assms(5) by (simp add: smtp_ok_def smtp_wf_def)
  ultimately show ?thesis using assms(5) by (simp add: smtp_send_recv_cb_def)
next
  case False
  have w: "smtp_wf s" using assms(5) by (simp add: smtp_ok_def)
  define s1 where "s1 = smtp_arrive data s"
  have a: "smtp_wf s1" "smtp_held s1 = smtp_held s @ data" using smtp_arrive [OF w] False by (simp_all add: s1_def)
  have s1: "smtp_ok s1" "smtp_held s1 \<noteq> []"
    using a assms(6,7) by (auto simp: smtp_ok_def whole_lines_def)
  note handlers = smtp_send_greet_ok [OF s1, of sdk] smtp_send_challenge_ok [OF assms(1-4) s1, of sdk]
    smtp_reply_ok [OF keeps_ok_commands(1) s1, of "ascii ''235 ''" SMTP_STATE_FROM sdk]
    smtp_reply_ok [OF keeps_ok_commands(2) s1, of "ascii ''250 ''" SMTP_STATE_TO sdk]
    smtp_reply_ok [OF keeps_ok_commands(3) s1, of "ascii ''250 ''" SMTP_STATE_DATA sdk "ascii ''data'' @ crlf"]
    smtp_reply_ok [OF keeps_ok_commands(4) s1, of "ascii ''354 ''" SMTP_STATE_QUIT sdk]
    smtp_reply_ok [OF keeps_ok_commands(3) s1, of "ascii ''250 ''" SMTP_STATE_CLOSE sdk "ascii ''quit'' @ crlf"]
    smtp_reply_ok [OF keeps_ok_commands(5) s1, of "ascii ''221 ''" SMTP_STATE_READY]
  have b: "\<not> 2048 \<le> unat (sm_inbufused s) + length data" "length (sm_inbuf s) = 2048"
    using False w by (simp_all add: smtp_wf_def)
  show ?thesis
    using b handlers s1(1) unfolding smtp_send_recv_cb_def Let_def smtp_arrive_def [symmetric] s1_def [symmetric]
      smtp_send_auth_def smtp_send_from_def smtp_send_to_def smtp_send_data_def smtp_send_quit_def smtp_send_close_def
    by (cases "sm_state s") simp_all
qed

section \<open>Runs\<close>

text \<open>
  The client driven by its callers and the SDK: \<^verbatim>\<open>smtp_send\<close>, the callbacks, and the kill timer. The
  code checks in none of the callbacks that it is expected, so here every one may run in every state, with any result
  of the SDK calls it makes and any data; a step is missing only where the receive callback leaves its
  arrays. The account is the one of the moment, for the setup page changes it in place.
\<close>

datatype smtp_cause = By_caller | By_dns | By_connect | By_receive "u8 list" | By_timer

inductive smtp_step :: "smtp_cause \<Rightarrow> smtp_server \<Rightarrow> smtp_state \<Rightarrow> smtp_state \<Rightarrow> bool" where
  send: "0 \<notin> set from \<union> set to \<union> set subj \<union> set body \<Longrightarrow> smtp_step By_caller sv s (smtp_send sdk sv from to subj body s)"
| dns: "smtp_step By_dns sv s (smtp_send_dns sdk sv ip s)"
| conn: "smtp_step By_connect sv s (smtp_send_conn_cb sdk s)"
| recv: "length (md5_buf m0) = 64 \<Longrightarrow> length chal0 = 128 \<Longrightarrow> length right0 = 256 \<Longrightarrow>
    smtp_send_recv_cb sdk sv m0 chal0 right0 data s = Some s' \<Longrightarrow> smtp_step (By_receive data) sv s s'"
| kill: "sm_timer s = Some arg \<Longrightarrow> smtp_step By_timer sv s (smtp_send_kill arg (s\<lparr>sm_timer := None\<rparr>))"

inductive_cases smtp_step_elims:
  "smtp_step By_caller sv s s'" "smtp_step By_dns sv s s'" "smtp_step By_connect sv s s'"
  "smtp_step (By_receive d) sv s s'" "smtp_step By_timer sv s s'"

text \<open>A run, with the causes of its steps and the accounts in force.\<close>

inductive smtp_run :: "(smtp_cause \<times> smtp_server) list \<Rightarrow> smtp_state \<Rightarrow> smtp_state \<Rightarrow> bool" where
  start: "smtp_run [] s s"
| step: "smtp_run h s s1 \<Longrightarrow> server_wf sv \<Longrightarrow> smtp_step c sv s1 s2 \<Longrightarrow> smtp_run (h @ [(c, sv)]) s s2"

text \<open>Data that arrives in whole lines.\<close>

definition whole_cause :: "smtp_cause \<Rightarrow> bool" where
  "whole_cause c = (case c of By_receive d \<Rightarrow> whole_lines d \<and> d \<noteq> [] | _ \<Rightarrow> True)"

lemma smtp_copy_text: "smtp_copy buf str = Some b \<Longrightarrow> length b = length buf \<and> 0 \<in> set b"
  by (auto simp: smtp_copy_def patch_def split: if_splits)

lemma smtp_send_connect_ok [simp]: "smtp_ok (smtp_send_connect sdk sv ip s) = smtp_ok s"
proof -
  have "smtp_ok (s\<lparr>sm_state := st, sm_port := p, sm_ip := i\<rparr>) = smtp_ok s" for st p i
    by (simp add: smtp_ok_def smtp_wf_def smtp_held_def)
  moreover have "smtp_ok (s\<lparr>sm_port := p, sm_ip := i\<rparr>) = smtp_ok s" for p i
    by (simp add: smtp_ok_def smtp_wf_def smtp_held_def)
  ultimately show ?thesis by (simp add: smtp_send_connect_def Let_def)
qed

lemma smtp_ok_fields_update:
  "smtp_ok s \<Longrightarrow> c_text 128 b \<Longrightarrow> smtp_ok (s\<lparr>sm_from := b\<rparr>)" "smtp_ok s \<Longrightarrow> c_text 128 b \<Longrightarrow> smtp_ok (s\<lparr>sm_to := b\<rparr>)"
  "smtp_ok s \<Longrightarrow> c_text 128 b \<Longrightarrow> smtp_ok (s\<lparr>sm_subj := b\<rparr>)" "smtp_ok s \<Longrightarrow> c_text 512 b \<Longrightarrow> smtp_ok (s\<lparr>sm_body := b\<rparr>)"
  by (simp_all add: smtp_ok_def smtp_wf_def smtp_held_def)

lemma smtp_send_ok: "smtp_ok s \<Longrightarrow> smtp_ok (smtp_send sdk sv from to subj body s)"
proof -
  assume ok: "smtp_ok s"
  have f: "c_text 128 (sm_from s)" "c_text 128 (sm_to s)" "c_text 128 (sm_subj s)" "c_text 512 (sm_body s)"
    using ok by (simp_all add: smtp_ok_def smtp_wf_def)
  have c: "smtp_copy buf str = Some b \<Longrightarrow> c_text n buf \<Longrightarrow> c_text n b" for buf str b n
    using smtp_copy_text by (auto simp: c_text_def)
  show ?thesis using ok f
    by (auto simp: smtp_send_def Let_def smtp_ok_fields_update c split: option.split dns_result.split)
qed

lemma smtp_step_ok: "smtp_step c sv s s' \<Longrightarrow> server_wf sv \<Longrightarrow> whole_cause c \<Longrightarrow> smtp_ok s \<Longrightarrow> smtp_ok s'"
proof (induction rule: smtp_step.induct)
  case (recv m0 chal0 right0 sdk sv data s s')
  then show ?case using smtp_send_recv_cb_ok [of sv m0 chal0 right0 s data sdk] by (auto simp: whole_cause_def)
qed (auto simp: smtp_send_ok smtp_send_dns_def smtp_send_conn_cb_def smtp_send_kill_def Let_def split: option.split)

lemma smtp_ok_init: "smtp_ok smtp_state0"
  by (simp add: smtp_ok_def smtp_wf_init whole_lines_def smtp_held_def) (simp add: smtp_state0_def)

lemma smtp_run_ok: "smtp_run h s s' \<Longrightarrow> list_all (whole_cause \<circ> fst) h \<Longrightarrow> smtp_ok s \<Longrightarrow> smtp_ok s'"
  by (induction rule: smtp_run.induct) (auto intro: smtp_step_ok)

text \<open>Whatever arrives, a step that stays within the arrays keeps their sizes and the strings terminated.\<close>

lemma smtp_take_wf:
  assumes "smtp_take e s = Some s'" "smtp_wf s"
  shows "smtp_wf s'"
proof -
  have "e + 2 \<le> unat (sm_inbufused s)" using smtp_take_less(1) [OF assms(1)] assms(2) by (simp add: smtp_wf_def)
  then show ?thesis using smtp_take [OF assms(2), of e] assms(1) by auto
qed

definition keeps_wf :: "(smtp_state \<Rightarrow> smtp_state option) \<Rightarrow> bool" where
  "keeps_wf k \<longleftrightarrow> (\<forall>s s'. smtp_wf s \<longrightarrow> k s = Some s' \<longrightarrow> smtp_wf s')"

lemma keeps_wfD: "keeps_wf k \<Longrightarrow> smtp_wf s \<Longrightarrow> k s = Some s' \<Longrightarrow> smtp_wf s'"
  by (simp add: keeps_wf_def)

lemma smtp_reply_wf:
  assumes "keeps_wf k"
  shows "keeps_wf (smtp_reply code st k)"
proof -
  have k: "smtp_wf s'" if "k (s1\<lparr>sm_state := st\<rparr>) = Some s'" "smtp_wf s1" for s1 s'
    using keeps_wfD [OF assms _ that(1)] that(2) by simp
  show ?thesis unfolding keeps_wf_def smtp_reply_def
    by (auto split: option.splits if_splits dest: smtp_take_wf intro: k)
qed

lemma smtp_wf_outbuf: "smtp_wf s \<Longrightarrow> length ob = 1024 \<Longrightarrow> smtp_wf (s\<lparr>sm_outbuf := ob\<rparr>)"
  by (simp add: smtp_wf_def)

lemma smtp_wf_outlen: "smtp_wf s \<Longrightarrow> length (sm_outbuf s) = 1024"
  by (simp add: smtp_wf_def)

lemma keeps_wf_commands [simp]:
  "keeps_wf Some" "keeps_wf (smtp_command sdk txt n)"
  "keeps_wf (\<lambda>s. smtp_command sdk (f s) (g s) s)" "keeps_wf (\<lambda>s. map_option (smtp_cut sdk (i s)) (smtp_command sdk (f s) (g s) s))"
  by (auto simp: keeps_wf_def smtp_command_def smtp_transmit_def smtp_cut_def smtp_wf_outbuf smtp_wf_outlen split: if_splits)

lemma smtp_greet_loop_wf: "smtp_greet_loop s = Some (b, s') \<Longrightarrow> smtp_wf s \<Longrightarrow> smtp_wf s'"
proof (induction s rule: smtp_greet_loop.induct)
  case (1 s)
  show ?case using "1.prems" "1.IH"
    by (subst (asm) smtp_greet_loop.simps) (auto split: option.splits if_splits dest: smtp_take_wf)
qed

text \<open>The decoded challenge is a string of at most 127 characters.\<close>

lemma challenge_text:
  assumes "b64_decode d chal0 = (n, chal)" "\<not> n < 0" "\<not> length chal \<le> nat n" "length chal0 = 128"
  shows "length (cstr (chal[nat n := 0])) \<le> 127"
proof -
  have "length chal = 128" using b64_decode_short [OF assms(1,2)] assms(4) by simp
  then show ?thesis using c_text_strlen [of 128 "chal[nat n := 0]"] assms(3) by (simp add: c_text_def c_strlen_def set_update_memI)
qed

text \<open>The challenge handler when it returns: it waits, gives up, or takes the line and responds.\<close>

lemma smtp_send_challenge_cases:
  assumes "server_wf sv" "length (md5_buf m0) = 64" "length chal0 = 128" "length right0 = 256" "smtp_wf s"
    and r: "smtp_send_challenge sdk sv m0 chal0 right0 s = Some s'"
  obtains "s' = s" | "s' = smtp_fail NULL s"
    | e s1 c ob where "smtp_take e s = Some s1" "smtp_wf s1" "length ob = 1024"
      "s' = (if sdk_send sdk then smtp_fail NULL (s1\<lparr>sm_state := SMTP_STATE_AUTH, sm_outbuf := ob\<rparr>)
             else smtp_net (Send (b64_text (cram_text sv c) @ crlf)) (s1\<lparr>sm_state := SMTP_STATE_AUTH, sm_outbuf := ob\<rparr>))"
proof -
  obtain l where l: "smtp_line s = Some l" using r by (auto simp: smtp_send_challenge_def split: option.splits)
  show thesis
  proof (cases "l = None \<or> \<not> strncmp_eq (ascii ''334 '') (sm_inbuf s) 4")
    case True
    then show ?thesis using l r that(1,2) by (cases l) (auto simp: smtp_send_challenge_def)
  next
    case False
    then obtain e where e: "l = Some e" by auto
    obtain n chal where d: "b64_decode (take (e - 4) (drop 4 (sm_inbuf s))) chal0 = (n, chal)" by fastforce
    show ?thesis
    proof (cases "n < 0")
      case True
      then show ?thesis using l e False d r that(2) by (auto simp: smtp_send_challenge_def)
    next
      case n: False
      define c where "c = cstr (chal[nat n := 0])"
      have g: "\<not> length chal \<le> nat n" using l e False d n r by (auto simp: smtp_send_challenge_def Let_def split: if_splits)
      then obtain s1 where s1: "smtp_take e s = Some s1"
        using l e False d n r by (auto simp: smtp_send_challenge_def Let_def split: option.splits)
      have w: "smtp_wf s1" using smtp_take_wf [OF s1 assms(5)] .
      have "length c \<le> 127" using challenge_text [OF d n g assms(3)] by (simp add: c_def)
      then obtain ob where ob: "length ob = 1024" "smtp_respond sdk sv m0 right0 c (s1\<lparr>sm_state := SMTP_STATE_AUTH\<rparr>) =
          Some (if sdk_send sdk then smtp_fail NULL (s1\<lparr>sm_state := SMTP_STATE_AUTH, sm_outbuf := ob\<rparr>)
            else smtp_net (Send (b64_text (cram_text sv c) @ crlf)) (s1\<lparr>sm_state := SMTP_STATE_AUTH, sm_outbuf := ob\<rparr>))"
        using smtp_respond_sends [OF assms(1,2,4), of c "s1\<lparr>sm_state := SMTP_STATE_AUTH\<rparr>" sdk] w by auto
      then show ?thesis using that(3) [OF s1 w ob(1), of c] l e False d n g s1 r by (simp add: smtp_send_challenge_def Let_def c_def)
    qed
  qed
qed

lemma smtp_send_challenge_wf:
  assumes "server_wf sv" "length (md5_buf m0) = 64" "length chal0 = 128" "length right0 = 256" "smtp_wf s"
    and "smtp_send_challenge sdk sv m0 chal0 right0 s = Some s'"
  shows "smtp_wf s'"
  by (rule smtp_send_challenge_cases [OF assms]) (use assms(5) in \<open>auto simp: smtp_wf_outbuf\<close>)

lemma smtp_send_recv_cb_wf:
  assumes "server_wf sv" "length (md5_buf m0) = 64" "length chal0 = 128" "length right0 = 256"
    and "smtp_wf s" "smtp_send_recv_cb sdk sv m0 chal0 right0 data s = Some s'"
  shows "smtp_wf s'"
proof (cases "unat (sm_inbufused s) + length data \<ge> 2048")
  case True
  then show ?thesis using assms(5,6) by (auto simp: smtp_send_recv_cb_def smtp_wf_def smtp_fail_def)
next
  case False
  define s1 where "s1 = smtp_arrive data s"
  have w: "smtp_wf s1" using smtp_arrive(1) [OF assms(5)] False by (simp add: s1_def)
  have b: "length (sm_inbuf s) = 2048" using assms(5) by (simp add: smtp_wf_def)
  have k: "keeps_wf (smtp_send_auth sdk)" "keeps_wf (smtp_send_from sdk)" "keeps_wf (smtp_send_to sdk)"
      "keeps_wf (smtp_send_data sdk)" "keeps_wf (smtp_send_quit sdk)" "keeps_wf smtp_send_close"
    unfolding smtp_send_auth_def smtp_send_from_def smtp_send_to_def smtp_send_data_def smtp_send_quit_def smtp_send_close_def
    by (intro smtp_reply_wf keeps_wf_commands)+
  note k = k [THEN keeps_wfD, OF w]
  have g: "smtp_wf t" if "smtp_send_greet sdk s1 = Some t" for t
    using that smtp_greet_loop_wf [OF _ w] by (auto simp: smtp_send_greet_def Let_def split: option.splits bool.splits)
  show ?thesis using assms(6) b False w k g smtp_send_challenge_wf [OF assms(1-4) w, of sdk s']
    unfolding smtp_send_recv_cb_def Let_def smtp_arrive_def [symmetric] s1_def [symmetric]
    by (cases "sm_state s") (simp_all del: keeps_wf_commands)
qed

lemma smtp_send_connect_wf [simp]: "smtp_wf (smtp_send_connect sdk sv ip s) = smtp_wf s"
  by (simp add: smtp_send_connect_def Let_def smtp_net_def smtp_wf_def)

lemma smtp_send_wf: "smtp_wf s \<Longrightarrow> smtp_wf (smtp_send sdk sv from to subj body s)"
proof -
  assume w: "smtp_wf s"
  then have "smtp_ok (s\<lparr>sm_inbufused := 0\<rparr>)" by (simp add: smtp_ok_def smtp_wf_def smtp_held_def whole_lines_def)
  then have "smtp_wf (smtp_send sdk sv from to subj body (s\<lparr>sm_inbufused := 0\<rparr>))" using smtp_send_ok by (auto simp: smtp_ok_def)
  then show ?thesis using w
    by (auto simp: smtp_send_def Let_def smtp_wf_def smtp_net_def smtp_send_connect_def split: option.splits dns_result.splits if_splits)
qed

lemma smtp_step_wf: "smtp_step c sv s s' \<Longrightarrow> server_wf sv \<Longrightarrow> smtp_wf s \<Longrightarrow> smtp_wf s'"
proof (induction rule: smtp_step.induct)
  case (recv m0 chal0 right0 sdk sv data s s')
  then show ?case using smtp_send_recv_cb_wf by blast
qed (auto simp: smtp_send_wf smtp_send_dns_def smtp_send_conn_cb_def smtp_send_kill_def Let_def split: option.split)

lemma smtp_run_wf: "smtp_run h s s' \<Longrightarrow> smtp_wf s \<Longrightarrow> smtp_wf s'"
  by (induction rule: smtp_run.induct) (auto intro: smtp_step_wf)

section \<open>A complete session\<close>

text \<open>A reply: one line that starts with \<open>code\<close>.\<close>

definition reply_line :: "u8 list \<Rightarrow> u8 list \<Rightarrow> bool" where
  "reply_line code l \<longleftrightarrow> length code = 4 \<and> 0 \<notin> set l \<and> take 4 l = code \<and> c_strstr l crlf = Some (length l - 2)"

definition smtp_code :: "u8 list \<Rightarrow> smtp_state \<Rightarrow> bool" where
  "smtp_code code s = strncmp_eq code (sm_inbuf s) (length code)"

lemma smtp_codes:
  "strncmp_eq (ascii ''220'') (sm_inbuf s) 3 = smtp_code (ascii ''220'') s"
  "strncmp_eq (ascii ''250'') (sm_inbuf s) 3 = smtp_code (ascii ''250'') s"
  "strncmp_eq (ascii ''250 '') (sm_inbuf s) 4 = smtp_code (ascii ''250 '') s"
  "strncmp_eq (ascii ''334 '') (sm_inbuf s) 4 = smtp_code (ascii ''334 '') s"
  by (simp_all add: smtp_code_def ascii_def numeral_eq_Suc)

lemma reply_line_length: "reply_line code l \<Longrightarrow> 4 \<le> length l \<and> (length l - 2) + 2 = length l"
  by (auto simp: reply_line_def)

lemma reply_line_code:
  assumes "smtp_wf s" "smtp_held s = l @ u" "reply_line code l" "length c \<le> 4" "0 \<notin> set c"
  shows "smtp_code c s \<longleftrightarrow> take (length c) code = c"
proof -
  have l: "4 \<le> length l" using reply_line_length [OF assms(3)] by simp
  have i: "sm_inbuf s = l @ u @ drop (unat (sm_inbufused s)) (sm_inbuf s)"
    using assms(2) append_take_drop_id [of "unat (sm_inbufused s)" "sm_inbuf s"] by (simp add: smtp_held_def)
  have "take (length c) (sm_inbuf s) = take (length c) code"
    using assms(3,4) l by (subst i) (auto simp: reply_line_def min_def)
  moreover have "strncmp_eq c (sm_inbuf s) (length c) \<longleftrightarrow> take (length c) c = take (length c) (sm_inbuf s)"
  proof (rule strncmp_eq_prefix)
    have "4 \<le> length (sm_inbuf s)" using assms(1) by (simp add: smtp_wf_def)
    then show "\<forall>k<length c. k < length c \<and> k < length (sm_inbuf s)" using assms(4) by auto
    show "\<forall>k<length c. c ! k \<noteq> 0" using assms(5) by (metis nth_mem)
  qed
  ultimately show ?thesis unfolding smtp_code_def by auto
qed

text \<open>Dropping a reply that is held completely.\<close>

lemma smtp_take_reply:
  assumes "smtp_wf s" "smtp_held s = l @ u" "reply_line code l"
  shows "smtp_line s = Some (Some (length l - 2))"
    "\<exists>ib n. smtp_take (length l - 2) s = Some (s\<lparr>sm_inbufused := n, sm_inbuf := ib\<rparr>) \<and>
       smtp_wf (s\<lparr>sm_inbufused := n, sm_inbuf := ib\<rparr>) \<and> smtp_held (s\<lparr>sm_inbufused := n, sm_inbuf := ib\<rparr>) = u"
proof -
  show "smtp_line s = Some (Some (length l - 2))"
    using smtp_line_held [OF assms(1,2)] assms(3) by (simp add: reply_line_def)
  have "length l - 2 + 2 \<le> unat (sm_inbufused s)"
    using reply_line_length [OF assms(3)] length_smtp_held [OF assms(1)] assms(2) by simp
  then show "\<exists>ib n. smtp_take (length l - 2) s = Some (s\<lparr>sm_inbufused := n, sm_inbuf := ib\<rparr>) \<and>
       smtp_wf (s\<lparr>sm_inbufused := n, sm_inbuf := ib\<rparr>) \<and> smtp_held (s\<lparr>sm_inbufused := n, sm_inbuf := ib\<rparr>) = u"
    using smtp_take [OF assms(1)] reply_line_length [OF assms(3)] assms(2) by fastforce
qed

text \<open>
  \<open>smtp_next st out s s'\<close>: the client went to state \<open>st\<close>, made the calls \<open>out\<close>, holds no unread
  bytes and still has the same mail.
\<close>

definition smtp_next :: "smtp_st \<Rightarrow> net_call list \<Rightarrow> smtp_state \<Rightarrow> smtp_state \<Rightarrow> bool" where
  "smtp_next st out s s' \<longleftrightarrow> smtp_wf s' \<and> smtp_held s' = [] \<and> sm_state s' = st \<and> sm_net s' = sm_net s @ out \<and>
     sm_from s' = sm_from s \<and> sm_to s' = sm_to s \<and> sm_subj s' = sm_subj s \<and> sm_body s' = sm_body s"

lemma smtp_recv_handler:
  assumes "smtp_wf s" "smtp_held s = []" "length d < 2048"
  shows "smtp_wf (smtp_arrive d s)" "smtp_held (smtp_arrive d s) = d" "\<not> unat (sm_inbufused s) + length d \<ge> length (sm_inbuf s)"
  using smtp_arrive [OF assms(1)] length_smtp_held [OF assms(1)] assms by (simp_all add: smtp_wf_def)

lemma smtp_reply_next:
  assumes "smtp_wf s" "smtp_held s = []" "reply_line code d" "length d < 2048" "0 \<notin> set code"
    and k: "\<And>s1. smtp_next st [] s s1 \<Longrightarrow> \<exists>s'. k s1 = Some s' \<and> smtp_next st out s1 s'"
  shows "\<exists>s'. smtp_reply code st k (smtp_arrive d s) = Some s' \<and> smtp_next st out s s'"
proof -
  note a = smtp_recv_handler [OF assms(1,2,4)]
  have h: "smtp_held (smtp_arrive d s) = d @ []" using a(2) by simp
  note t = smtp_take_reply [OF a(1) h assms(3)]
  have c: "strncmp_eq code (sm_inbuf (smtp_arrive d s)) 4"
    using reply_line_code [OF a(1) h assms(3), of code] assms(3,5) by (simp add: smtp_code_def reply_line_def)
  obtain ib n where s1: "smtp_take (length d - 2) (smtp_arrive d s) = Some (smtp_arrive d s\<lparr>sm_inbufused := n, sm_inbuf := ib\<rparr>)"
    "smtp_wf (smtp_arrive d s\<lparr>sm_inbufused := n, sm_inbuf := ib\<rparr>)" "smtp_held (smtp_arrive d s\<lparr>sm_inbufused := n, sm_inbuf := ib\<rparr>) = []"
    using t(2) by blast
  define s2 where "s2 = (smtp_arrive d s\<lparr>sm_inbufused := n, sm_inbuf := ib\<rparr>)\<lparr>sm_state := st\<rparr>"
  have "smtp_wf s2" "smtp_held s2 = []" using s1(2,3) by (simp_all only: s2_def smtp_wf_simps smtp_held_simps)
  then have n2: "smtp_next st [] s s2" by (simp add: smtp_next_def) (simp add: s2_def smtp_arrive_def)
  from k [OF n2] obtain s' where s': "k s2 = Some s'" "smtp_next st out s2 s'" by blast
  have "smtp_reply code st k (smtp_arrive d s) = Some s'"
    unfolding smtp_reply_def using t(1) c s1(1) s'(1) by (simp add: s2_def)
  moreover have "smtp_next st out s s'" using s'(2) n2 by (simp add: smtp_next_def)
  ultimately show ?thesis by blast
qed

lemma smtp_command_next:
  assumes "smtp_next st [] s0 s" "\<not> sdk_send sdk" "length txt \<le> 1023" "n = length txt"
  shows "\<exists>s'. smtp_command sdk txt n s = Some s' \<and> smtp_next st [Send txt] s s' \<and>
    smtp_next st [Send txt] s (smtp_cut sdk m s')"
proof -
  have w: "smtp_wf s" "smtp_held s = []" "sm_state s = st" "length (sm_outbuf s) = 1024"
    using assms(1) by (auto simp: smtp_next_def smtp_wf_def)
  have "take n (c_snprintf (sm_outbuf s) txt) = txt"
    using assms(3,4) w(4) by (cases "sm_outbuf s") (simp_all add: c_snprintf_def patch_def)
  then have c: "smtp_command sdk txt n s = Some (smtp_net (Send txt) (s\<lparr>sm_outbuf := c_snprintf (sm_outbuf s) txt\<rparr>))"
    using assms w(4) by (simp add: smtp_command_def smtp_transmit_def)
  have x: "smtp_next st [Send txt] s (smtp_net (Send txt) (s\<lparr>sm_outbuf := ob\<rparr>))" if "length ob = 1024" for ob
  proof -
    have "smtp_wf (s\<lparr>sm_outbuf := ob\<rparr>)" using w(1) that by (simp add: smtp_wf_def)
    then show ?thesis using w by (simp add: smtp_next_def) (simp add: smtp_net_def)
  qed
  have "smtp_cut sdk m (smtp_net (Send txt) (s\<lparr>sm_outbuf := c_snprintf (sm_outbuf s) txt\<rparr>)) =
      smtp_net (Send txt) (s\<lparr>sm_outbuf := (c_snprintf (sm_outbuf s) txt)[m := 0]\<rparr>)"
    using assms(2) by (intro smtp_state.equality) (simp_all add: smtp_cut_def smtp_net_def)
  then have "smtp_next st [Send txt] s (smtp_cut sdk m (smtp_net (Send txt) (s\<lparr>sm_outbuf := c_snprintf (sm_outbuf s) txt\<rparr>)))"
    using x [of "(c_snprintf (sm_outbuf s) txt)[m := 0]"] w(4) by simp
  then show ?thesis using c x [of "c_snprintf (sm_outbuf s) txt"] w(4) by simp
qed

lemma smtp_greet_loop_lines:
  assumes "list_all (\<lambda>l. \<exists>c \<in> {ascii ''220 '', ascii ''220-'', ascii ''250-''}. reply_line c l) ls"
    and "smtp_wf s" "smtp_held s = concat ls @ u" "u \<noteq> [] \<Longrightarrow> reply_line (ascii ''250 '') u" "concat ls @ u \<noteq> []"
  shows "\<exists>ib n. smtp_greet_loop s = Some (u \<noteq> [], s\<lparr>sm_inbufused := n, sm_inbuf := ib\<rparr>) \<and>
    smtp_wf (s\<lparr>sm_inbufused := n, sm_inbuf := ib\<rparr>) \<and> smtp_held (s\<lparr>sm_inbufused := n, sm_inbuf := ib\<rparr>) = []"
  using assms
proof (induction ls arbitrary: s)
  case Nil
  then have u: "u \<noteq> []" "reply_line (ascii ''250 '') u" "smtp_held s = u @ []" by simp_all
  note t = smtp_take_reply [OF Nil.prems(2) u(3,2)]
  have c: "strncmp_eq (ascii ''250'') (sm_inbuf s) 3" "strncmp_eq (ascii ''250 '') (sm_inbuf s) 4"
    using reply_line_code [OF Nil.prems(2) u(3,2), of "ascii ''250''"] reply_line_code [OF Nil.prems(2) u(3,2), of "ascii ''250 ''"]
    unfolding smtp_codes by (simp_all add: ascii_def)
  have "length (sm_inbuf s) = 2048" using Nil.prems(2) by (simp add: smtp_wf_def)
  then have "smtp_greet_loop s = map_option (Pair True) (smtp_take (length u - 2) s)"
    using t(1) c by (subst smtp_greet_loop.simps) (simp split: option.split)
  then show ?case using t(2) u(1) by force
next
  case (Cons l ls)
  obtain c where c: "c \<in> {ascii ''220 '', ascii ''220-'', ascii ''250-''}" "reply_line c l" using Cons.prems(1) by auto
  have h: "smtp_held s = l @ (concat ls @ u)" using Cons.prems(3) by simp
  note t = smtp_take_reply [OF Cons.prems(2) h c(2)]
  have g: "strncmp_eq (ascii ''220'') (sm_inbuf s) 3 \<or> strncmp_eq (ascii ''250'') (sm_inbuf s) 3"
      "\<not> strncmp_eq (ascii ''250 '') (sm_inbuf s) 4"
    using reply_line_code [OF Cons.prems(2) h c(2), of "ascii ''250''"] reply_line_code [OF Cons.prems(2) h c(2), of "ascii ''250 ''"]
      reply_line_code [OF Cons.prems(2) h c(2), of "ascii ''220''"] c(1)
    unfolding smtp_codes by (auto simp: ascii_def)
  obtain ib n where s1: "smtp_take (length l - 2) s = Some (s\<lparr>sm_inbufused := n, sm_inbuf := ib\<rparr>)"
      "smtp_wf (s\<lparr>sm_inbufused := n, sm_inbuf := ib\<rparr>)" "smtp_held (s\<lparr>sm_inbufused := n, sm_inbuf := ib\<rparr>) = concat ls @ u"
    using t(2) by blast
  define s1 where "s1 = s\<lparr>sm_inbufused := n, sm_inbuf := ib\<rparr>"
  have len: "length (sm_inbuf s) = 2048" using Cons.prems(2) by (simp add: smtp_wf_def)
  have z: "sm_inbufused s1 = 0 \<longleftrightarrow> concat ls @ u = []"
    using length_smtp_held [OF s1(2)] s1(3) by (metis length_0_conv s1_def unat_eq_zero)
  have step: "smtp_greet_loop s = (if sm_inbufused s1 = 0 then Some (False, s1) else smtp_greet_loop s1)"
    using t(1) g len s1(1) by (subst smtp_greet_loop.simps) (simp add: s1_def)
  show ?case
  proof (cases "concat ls @ u = []")
    case True
    then have "smtp_greet_loop s = Some (u \<noteq> [], s1)" "smtp_held s1 = []" using step z s1(3) by (simp_all add: s1_def)
    then show ?thesis using s1(2) unfolding s1_def by blast
  next
    case False
    then obtain ib' n' where "smtp_greet_loop s1 = Some (u \<noteq> [], s1\<lparr>sm_inbufused := n', sm_inbuf := ib'\<rparr>)"
        "smtp_wf (s1\<lparr>sm_inbufused := n', sm_inbuf := ib'\<rparr>)" "smtp_held (s1\<lparr>sm_inbufused := n', sm_inbuf := ib'\<rparr>) = []"
      using Cons.IH [of s1] Cons.prems(1,4) s1(2,3) by (auto simp: s1_def)
    then show ?thesis using step z False by (auto simp: s1_def)
  qed
qed

text \<open>A segment of the greeting: some lines, and in the last segment (\<open>u\<close> not empty) the final one.\<close>

definition greeting :: "u8 list \<Rightarrow> u8 list \<Rightarrow> bool" where
  "greeting d u \<longleftrightarrow> d \<noteq> [] \<and> length d < 2048 \<and> (u \<noteq> [] \<longrightarrow> reply_line (ascii ''250 '') u) \<and>
     (\<exists>ls. d = concat ls @ u \<and>
       list_all (\<lambda>l. \<exists>c \<in> {ascii ''220 '', ascii ''220-'', ascii ''250-''}. reply_line c l) ls)"

lemma smtp_greet_next:
  assumes "smtp_wf s" "smtp_held s = []" "sm_state s = SMTP_STATE_GREET" "greeting d u" "\<not> sdk_send sdk"
  shows "\<exists>s'. smtp_send_recv_cb sdk sv m0 chal0 right0 d s = Some s' \<and>
    (if u = [] then smtp_next SMTP_STATE_GREET [] s s'
     else smtp_next SMTP_STATE_CHALLENGE [Send (ascii ''AUTH CRAM-MD5'' @ crlf)] s s')"
proof -
  have d: "length d < 2048" "d \<noteq> []" using assms(4) by (auto simp: greeting_def)
  note a = smtp_recv_handler [OF assms(1,2) d(1)]
  obtain ls where ls: "d = concat ls @ u" "list_all (\<lambda>l. \<exists>c \<in> {ascii ''220 '', ascii ''220-'', ascii ''250-''}. reply_line c l) ls"
    "u \<noteq> [] \<Longrightarrow> reply_line (ascii ''250 '') u" using assms(4) by (auto simp: greeting_def)
  define s1 where "s1 = smtp_arrive d s"
  obtain ib n where l: "smtp_greet_loop s1 = Some (u \<noteq> [], s1\<lparr>sm_inbufused := n, sm_inbuf := ib\<rparr>)"
      "smtp_wf (s1\<lparr>sm_inbufused := n, sm_inbuf := ib\<rparr>)" "smtp_held (s1\<lparr>sm_inbufused := n, sm_inbuf := ib\<rparr>) = []"
    using smtp_greet_loop_lines [OF ls(2) a(1) _ ls(3)] a(2) ls(1) d(2) unfolding s1_def by blast
  define s2 where "s2 = s1\<lparr>sm_inbufused := n, sm_inbuf := ib\<rparr>"
  have f: "sm_state s2 = SMTP_STATE_GREET" "sm_net s2 = sm_net s" "sm_from s2 = sm_from s" "sm_to s2 = sm_to s"
      "sm_subj s2 = sm_subj s" "sm_body s2 = sm_body s"
    by (simp_all add: s2_def s1_def smtp_arrive_def assms(3))
  have r: "smtp_send_recv_cb sdk sv m0 chal0 right0 d s = smtp_send_greet sdk s1"
    using a(3) assms(3) unfolding smtp_send_recv_cb_def Let_def smtp_arrive_def [symmetric] s1_def [symmetric] by simp
  have g: "smtp_send_greet sdk s1 = Some (if u = [] then s2 else
      smtp_net (Send (ascii ''AUTH CRAM-MD5'' @ crlf)) (s2\<lparr>sm_state := SMTP_STATE_CHALLENGE\<rparr>))"
    using l(1) assms(5) by (simp add: smtp_send_greet_def s2_def Let_def)
  have w: "smtp_wf s2" "smtp_held s2 = []" using l(2,3) by (simp_all add: s2_def)
  show ?thesis using r g w f by (simp add: smtp_next_def) (simp add: smtp_net_def)
qed

lemma c_strstr_crlf: "13 \<notin> set xs \<Longrightarrow> c_strstr (xs @ crlf) crlf = Some (length xs)"
  by (induction xs) (simp_all add: c_strstr.simps)

lemma smtp_challenge_next:
  assumes "server_wf sv" "length (md5_buf m0) = 64" "length chal0 = 128" "length right0 = 256"
    and "smtp_wf s" "smtp_held s = []" "sm_state s = SMTP_STATE_CHALLENGE" "\<not> sdk_send sdk"
    and "0 \<notin> set chal" "length chal \<le> 126"
  shows "\<exists>s'. smtp_send_recv_cb sdk sv m0 chal0 right0 (ascii ''334 '' @ b64_text chal @ crlf) s = Some s' \<and>
    smtp_next SMTP_STATE_AUTH [Send (b64_text (cram_text sv chal) @ crlf)] s s'"
proof -
  define t d where "t = b64_text chal" and "d = ascii ''334 '' @ b64_text chal @ crlf"
  have len: "length t \<le> 168" "length t div 4 * 3 \<le> 128"
    using assms(10) by (simp_all add: t_def b64_text_length)
  have nz: "0 \<notin> set t" "13 \<notin> set t" using b64_text_chars [of chal] by (auto simp: t_def list_all_iff b64_char_def)
  have l: "length d < 2048" "length d - 2 = 4 + length t" using len by (simp_all add: d_def t_def ascii_def)
  have "c_strstr ((ascii ''334 '' @ t) @ crlf) crlf = Some (length (ascii ''334 '' @ t))"
    using nz by (intro c_strstr_crlf) (simp add: ascii_def)
  then have r: "reply_line (ascii ''334 '') d" using nz by (simp add: reply_line_def d_def t_def ascii_def)
  note a = smtp_recv_handler [OF assms(5,6) l(1)]
  define s1 where "s1 = smtp_arrive d s"
  have h: "smtp_held s1 = d @ []" "smtp_wf s1" using a by (simp_all add: s1_def)
  note k = smtp_take_reply [OF h(2,1) r]
  obtain ib n where s2: "smtp_take (length d - 2) s1 = Some (s1\<lparr>sm_inbufused := n, sm_inbuf := ib\<rparr>)"
      "smtp_wf (s1\<lparr>sm_inbufused := n, sm_inbuf := ib\<rparr>)" "smtp_held (s1\<lparr>sm_inbufused := n, sm_inbuf := ib\<rparr>) = []"
    using k(2) by blast
  define s2 where "s2 = s1\<lparr>sm_inbufused := n, sm_inbuf := ib, sm_state := SMTP_STATE_AUTH\<rparr>"
  have i: "sm_inbuf s1 = d @ drop (length d) (sm_inbuf s1)"
    using h length_smtp_held [OF h(2)] append_take_drop_id [of "unat (sm_inbufused s1)" "sm_inbuf s1"]
    by (simp add: smtp_held_def)
  have dec: "b64_decode (take (length d - 2 - 4) (drop 4 (sm_inbuf s1))) chal0 = (int (length chal), patch chal0 0 chal)"
  proof -
    have "take (length d - 2 - 4) (drop 4 (sm_inbuf s1)) = t"
      unfolding l(2) by (subst i) (simp add: d_def t_def ascii_def)
    then show ?thesis using b64_decode_text [of chal chal0] len(2) assms(3) by (simp add: t_def)
  qed
  have ch: "cstr ((patch chal0 0 chal)[length chal := 0]) = chal"
    using assms(3,9,10) cstr_append [of chal]
    by (simp add: patch_def list_update_append upd_conv_take_nth_drop)
  have code: "strncmp_eq (ascii ''334 '') (sm_inbuf s1) 4"
    unfolding smtp_codes using reply_line_code [OF h(2,1) r, of "ascii ''334 ''"] by (simp add: ascii_def)
  have w2: "smtp_wf s2" "smtp_held s2 = []"
  proof -
    have "s2 = (s1\<lparr>sm_inbufused := n, sm_inbuf := ib\<rparr>)\<lparr>sm_state := SMTP_STATE_AUTH\<rparr>" by (simp add: s2_def)
    then show "smtp_wf s2" "smtp_held s2 = []" using s2(2,3) by (simp_all only: smtp_wf_simps smtp_held_simps)
  qed
  obtain ob where ob: "length ob = 1024" "smtp_respond sdk sv m0 right0 chal s2 =
      Some (smtp_net (Send (b64_text (cram_text sv chal) @ crlf)) (s2\<lparr>sm_outbuf := ob\<rparr>))"
    using smtp_respond_sends [OF assms(1,2,4) _ w2(1), of chal sdk] assms(8,10) by auto
  define s3 where "s3 = smtp_net (Send (b64_text (cram_text sv chal) @ crlf)) (s2\<lparr>sm_outbuf := ob\<rparr>)"
  have "smtp_send_challenge sdk sv m0 chal0 right0 s1 = Some s3"
    unfolding smtp_send_challenge_def k(1) using code dec ch assms(3,10) s2(1) ob(2)
    by (simp add: s2_def [symmetric] s3_def)
  then have "smtp_send_recv_cb sdk sv m0 chal0 right0 d s = Some s3"
    using a(3) assms(7) unfolding smtp_send_recv_cb_def Let_def smtp_arrive_def [symmetric] s1_def [symmetric] by simp
  moreover have "smtp_wf s3" "smtp_held s3 = []" using w2 ob(1) by (simp_all add: s3_def) (simp add: smtp_wf_def)
  then have "smtp_next SMTP_STATE_AUTH [Send (b64_text (cram_text sv chal) @ crlf)] s s3"
    by (simp add: smtp_next_def) (simp add: s3_def s2_def s1_def smtp_arrive_def smtp_net_def)
  ultimately show ?thesis unfolding d_def by blast
qed

text \<open>The SDK when nothing fails and the name is in the DNS cache.\<close>

definition sdk_good :: "u32 \<Rightarrow> smtp_sdk" where
  "sdk_good ip = \<lparr>sdk_dns = Dns_ok ip, sdk_connectcb = False, sdk_reconcb = False, sdk_connect = False,
     sdk_disconcb = False, sdk_recvcb = False, sdk_sentcb = False, sdk_send = False\<rparr>"

definition ip_bytes :: "u32 \<Rightarrow> u8 list" where
  "ip_bytes ip = [ucast ip, ucast (drop_bit 8 ip), ucast (drop_bit 16 ip), ucast (drop_bit 24 ip)]"

lemma smtp_copy_fits:
  assumes "length str < length buf" "0 \<notin> set str"
  shows "\<exists>b. smtp_copy buf str = Some b \<and> c_text (length buf) b \<and> cstr b = str"
proof -
  have "patch buf 0 (str @ [0]) = str @ 0 # drop (length str + 1) buf" by (simp add: patch_def)
  then show ?thesis using assms cstr_append [OF assms(2)] by (auto simp: smtp_copy_def c_text_def)
qed

lemma smtp_send_starts:
  assumes "smtp_wf s" "smtp_held s = []" "sm_state s = SMTP_STATE_READY" "0 < c_strlen (sv_host sv)"
    and "length sender < 128" "length recipient < 128" "length subj < 128" "length body < 512"
    and "0 \<notin> set sender" "0 \<notin> set recipient" "0 \<notin> set subj" "0 \<notin> set body"
  shows "\<exists>s'. smtp_send_conn_cb (sdk_good ip) (smtp_send (sdk_good ip) sv sender recipient subj body s) = s' \<and>
    smtp_wf s' \<and> smtp_held s' = [] \<and> sm_state s' = SMTP_STATE_GREET \<and>
    cstr (sm_from s') = sender \<and> cstr (sm_to s') = recipient \<and> cstr (sm_subj s') = subj \<and> cstr (sm_body s') = body \<and>
    sm_net s' = sm_net s @ [Resolve (cstr (sv_host sv)), Connect (ip_bytes ip) (sv_port sv), Send (ascii ''ehlo [127.0.1.1]'' @ crlf)]"
proof -
  have l: "length (sm_from s) = 128" "length (sm_to s) = 128" "length (sm_subj s) = 128" "length (sm_body s) = 512"
    using assms(1) by (simp_all add: smtp_wf_def c_text_def)
  obtain b1 where b1: "smtp_copy (sm_from s) sender = Some b1" "c_text 128 b1" "cstr b1 = sender"
    using smtp_copy_fits [of sender "sm_from s"] l assms by auto
  obtain b2 where b2: "smtp_copy (sm_to s) recipient = Some b2" "c_text 128 b2" "cstr b2 = recipient"
    using smtp_copy_fits [of recipient "sm_to s"] l assms by auto
  obtain b3 where b3: "smtp_copy (sm_subj s) subj = Some b3" "c_text 128 b3" "cstr b3 = subj"
    using smtp_copy_fits [of subj "sm_subj s"] l assms by auto
  obtain b4 where b4: "smtp_copy (sm_body s) body = Some b4" "c_text 512 b4" "cstr b4 = body"
    using smtp_copy_fits [of body "sm_body s"] l assms by auto
  have e: "smtp_send_conn_cb (sdk_good ip) (smtp_send (sdk_good ip) sv sender recipient subj body s) =
      s\<lparr>sm_state := SMTP_STATE_GREET, sm_ip := ip_bytes ip, sm_port := sv_port sv, sm_from := b1, sm_to := b2, sm_subj := b3,
        sm_body := b4, sm_net := sm_net s @ [Resolve (cstr (sv_host sv)), Connect (ip_bytes ip) (sv_port sv),
          Send (ascii ''ehlo [127.0.1.1]'' @ crlf)]\<rparr>"
    using assms(3,4) b1(1) b2(1) b3(1) b4(1)
    by (intro smtp_state.equality)
      (simp_all add: smtp_send_def smtp_send_connect_def smtp_send_conn_cb_def smtp_net_def sdk_good_def ip_bytes_def Let_def)
  have "smtp_wf (s\<lparr>sm_state := SMTP_STATE_GREET, sm_ip := i, sm_port := p, sm_from := b1, sm_to := b2, sm_subj := b3,
      sm_body := b4, sm_net := nt\<rparr>)" "smtp_held (s\<lparr>sm_state := SMTP_STATE_GREET, sm_ip := i, sm_port := p, sm_from := b1,
      sm_to := b2, sm_subj := b3, sm_body := b4, sm_net := nt\<rparr>) = []" for i p nt
    using assms(1,2) b1(2) b2(2) b3(2) b4(2) by (simp_all add: smtp_wf_def smtp_held_def)
  then show ?thesis unfolding e using b1(3) b2(3) b3(3) b4(3) by simp
qed

primrec smtp_recvs ::
    "smtp_sdk \<Rightarrow> smtp_server \<Rightarrow> md5_state \<Rightarrow> u8 list \<Rightarrow> u8 list \<Rightarrow> u8 list list \<Rightarrow> smtp_state \<Rightarrow> smtp_state option" where
  "smtp_recvs sdk sv m0 chal0 right0 [] s = Some s"
| "smtp_recvs sdk sv m0 chal0 right0 (d # ds) s =
     Option.bind (smtp_send_recv_cb sdk sv m0 chal0 right0 d s) (smtp_recvs sdk sv m0 chal0 right0 ds)"

lemma smtp_greet_all:
  assumes "smtp_wf s" "smtp_held s = []" "sm_state s = SMTP_STATE_GREET" "list_all (\<lambda>d. greeting d []) gs" "\<not> sdk_send sdk"
  shows "\<exists>s'. smtp_recvs sdk sv m0 chal0 right0 (gs @ ds) s = smtp_recvs sdk sv m0 chal0 right0 ds s' \<and>
    smtp_next SMTP_STATE_GREET [] s s'"
  using assms
proof (induction gs arbitrary: s)
  case Nil
  then show ?case by (auto simp: smtp_next_def)
next
  case (Cons g gs)
  obtain s1 where s1: "smtp_send_recv_cb sdk sv m0 chal0 right0 g s = Some s1" "smtp_next SMTP_STATE_GREET [] s s1"
    using smtp_greet_next [OF Cons.prems(1-3) _ Cons.prems(5), of g "[]" sv m0 chal0 right0] Cons.prems(4) by auto
  then obtain s' where "smtp_recvs sdk sv m0 chal0 right0 (gs @ ds) s1 = smtp_recvs sdk sv m0 chal0 right0 ds s'"
      "smtp_next SMTP_STATE_GREET [] s1 s'"
    using Cons.IH [of s1] Cons.prems(4,5) by (auto simp: smtp_next_def)
  then show ?case using s1 by (auto simp: smtp_next_def)
qed

text \<open>The states that wait for a single reply, with what they expect and what they send.\<close>

fun smtp_turn :: "smtp_st \<Rightarrow> smtp_state \<Rightarrow> (u8 list \<times> smtp_st \<times> net_call list) option" where
  "smtp_turn SMTP_STATE_AUTH s = Some (ascii ''235 '', SMTP_STATE_FROM, [Send (ascii ''mail FROM:<'' @ cstr (sm_from s) @ ascii ''>'' @ crlf)])"
| "smtp_turn SMTP_STATE_FROM s = Some (ascii ''250 '', SMTP_STATE_TO, [Send (ascii ''rcpt TO:<'' @ cstr (sm_to s) @ ascii ''>'' @ crlf)])"
| "smtp_turn SMTP_STATE_TO s = Some (ascii ''250 '', SMTP_STATE_DATA, [Send (ascii ''data'' @ crlf)])"
| "smtp_turn SMTP_STATE_DATA s = Some (ascii ''354 '', SMTP_STATE_QUIT, [Send (smtp_mail s)])"
| "smtp_turn SMTP_STATE_QUIT s = Some (ascii ''250 '', SMTP_STATE_CLOSE, [Send (ascii ''quit'' @ crlf)])"
| "smtp_turn SMTP_STATE_CLOSE s = Some (ascii ''221 '', SMTP_STATE_READY, [])"
| "smtp_turn _ s = None"

definition smtp_continue :: "smtp_st \<Rightarrow> smtp_sdk \<Rightarrow> smtp_state \<Rightarrow> smtp_state option" where
  "smtp_continue st sdk s =
     (case st of
        SMTP_STATE_AUTH \<Rightarrow> map_option (smtp_cut sdk (c_strlen (sm_from s) + 12))
          (smtp_command sdk (ascii ''mail FROM:<'' @ cstr (sm_from s) @ ascii ''>'' @ crlf) (c_strlen (sm_from s) + 14) s)
      | SMTP_STATE_FROM \<Rightarrow> map_option (smtp_cut sdk (c_strlen (sm_to s) + 10))
          (smtp_command sdk (ascii ''rcpt TO:<'' @ cstr (sm_to s) @ ascii ''>'' @ crlf) (c_strlen (sm_to s) + 12) s)
      | SMTP_STATE_TO \<Rightarrow> smtp_command sdk (ascii ''data'' @ crlf) 6 s
      | SMTP_STATE_DATA \<Rightarrow> smtp_command sdk (smtp_mail s) (6 + c_strlen (sm_from s) + 6 + c_strlen (sm_to s) + 11 +
          c_strlen (sm_subj s) + 4 + c_strlen (sm_body s) + 5) s
      | SMTP_STATE_QUIT \<Rightarrow> smtp_command sdk (ascii ''quit'' @ crlf) 6 s
      | _ \<Rightarrow> Some s)"

lemma smtp_turn_recv:
  assumes "smtp_wf s" "smtp_held s = []" "smtp_turn (sm_state s) s = Some (code, st, out)" "length d < 2048"
  shows "smtp_send_recv_cb sdk sv m0 chal0 right0 d s = smtp_reply code st (smtp_continue (sm_state s) sdk) (smtp_arrive d s)"
  using smtp_recv_handler(3) [OF assms(1,2,4)] assms(3)
  unfolding smtp_send_recv_cb_def Let_def smtp_arrive_def [symmetric]
  by (cases "sm_state s") (auto simp: smtp_continue_def [abs_def] smtp_send_auth_def smtp_send_from_def smtp_send_to_def
    smtp_send_data_def smtp_send_quit_def smtp_send_close_def)

lemma smtp_mail_length:
  "length (smtp_mail s) = 6 + c_strlen (sm_from s) + 6 + c_strlen (sm_to s) + 11 + c_strlen (sm_subj s) + 4 + c_strlen (sm_body s) + 5"
  by (simp add: smtp_mail_def c_strlen_def ascii_def)

lemma smtp_continue_next:
  assumes "smtp_next st [] s s1" "smtp_wf s" "smtp_turn (sm_state s) s = Some (code, st, out)" "\<not> sdk_send sdk"
  shows "\<exists>s'. smtp_continue (sm_state s) sdk s1 = Some s' \<and> smtp_next st out s1 s'"
proof -
  have f: "c_strlen (sm_from s) < 128" "c_strlen (sm_to s) < 128" "c_strlen (sm_subj s) < 128" "c_strlen (sm_body s) < 512"
    using assms(2) by (simp_all add: smtp_wf_def c_text_strlen)
  have e: "sm_from s1 = sm_from s" "sm_to s1 = sm_to s" "sm_subj s1 = sm_subj s" "sm_body s1 = sm_body s"
    using assms(1) by (simp_all add: smtp_next_def)
  have m: "smtp_mail s1 = smtp_mail s" by (simp add: smtp_mail_def e)
  have cmd: "\<exists>s'. smtp_command sdk tx k s1 = Some s' \<and> smtp_next st [Send tx] s1 s'"
    if "length tx \<le> 1023" "k = length tx" for tx k
    using smtp_command_next [OF assms(1,4) that] by blast
  have cut: "\<exists>s'. map_option (smtp_cut sdk j) (smtp_command sdk tx k s1) = Some s' \<and> smtp_next st [Send tx] s1 s'"
    if "length tx \<le> 1023" "k = length tx" for tx k j
    using smtp_command_next [OF assms(1,4) that, of j] by auto
  have l: "length (ascii ''mail FROM:<'' @ cstr (sm_from s) @ ascii ''>'' @ crlf) = c_strlen (sm_from s) + 14"
      "length (ascii ''rcpt TO:<'' @ cstr (sm_to s) @ ascii ''>'' @ crlf) = c_strlen (sm_to s) + 12"
      "length (ascii ''data'' @ crlf) = 6" "length (ascii ''quit'' @ crlf) = 6"
    by (simp_all add: c_strlen_def ascii_def)
  note c = cut [of "ascii ''mail FROM:<'' @ cstr (sm_from s) @ ascii ''>'' @ crlf", OF _ l(1) [symmetric]]
    cut [of "ascii ''rcpt TO:<'' @ cstr (sm_to s) @ ascii ''>'' @ crlf", OF _ l(2) [symmetric]]
    cmd [of "ascii ''data'' @ crlf", OF _ l(3) [symmetric]] cmd [of "ascii ''quit'' @ crlf", OF _ l(4) [symmetric]]
    cmd [of "smtp_mail s", OF _ smtp_mail_length [symmetric]]
  show ?thesis
    using assms(1,3) f c unfolding l smtp_mail_length
    by (cases "sm_state s") (auto simp: smtp_continue_def e m smtp_next_def)
qed

lemma smtp_turn_next:
  assumes "smtp_wf s" "smtp_held s = []" "smtp_turn (sm_state s) s = Some (code, st, out)" "reply_line code d" "length d < 2048"
    and "\<not> sdk_send sdk"
  shows "\<exists>s'. smtp_send_recv_cb sdk sv m0 chal0 right0 d s = Some s' \<and> smtp_next st out s s'"
proof -
  have n: "0 \<notin> set code" using assms(3) by (cases "sm_state s") (auto simp: ascii_def)
  show ?thesis unfolding smtp_turn_recv [OF assms(1-3,5)]
    by (rule smtp_reply_next [OF assms(1,2,4,5) n]) (rule smtp_continue_next [OF _ assms(1,3,6)])
qed

lemma smtp_turns:
  assumes "smtp_wf s" "smtp_held s = []" "sm_state s = SMTP_STATE_AUTH" "\<not> sdk_send sdk"
    and "reply_line (ascii ''235 '') r1" "reply_line (ascii ''250 '') r2" "reply_line (ascii ''250 '') r3"
    and "reply_line (ascii ''354 '') r4" "reply_line (ascii ''250 '') r5" "reply_line (ascii ''221 '') r6"
    and "list_all (\<lambda>r. length r < 2048) [r1, r2, r3, r4, r5, r6]"
  shows "\<exists>s'. smtp_recvs sdk sv m0 chal0 right0 [r1, r2, r3, r4, r5, r6] s = Some s' \<and>
    smtp_next SMTP_STATE_READY [Send (ascii ''mail FROM:<'' @ cstr (sm_from s) @ ascii ''>'' @ crlf),
      Send (ascii ''rcpt TO:<'' @ cstr (sm_to s) @ ascii ''>'' @ crlf), Send (ascii ''data'' @ crlf),
      Send (smtp_mail s), Send (ascii ''quit'' @ crlf)] s s'"
proof -
  have len: "length r1 < 2048" "length r2 < 2048" "length r3 < 2048" "length r4 < 2048" "length r5 < 2048" "length r6 < 2048"
    using assms(11) by simp_all
  have go: "\<exists>s'. smtp_send_recv_cb sdk sv m0 chal0 right0 r t = Some s' \<and> smtp_next st (out0 @ out) s s'"
    if "smtp_next st0 out0 s t" "smtp_turn st0 t = Some (code, st, out)" "reply_line code r" "length r < 2048"
    for st0 out0 t r st out code
  proof -
    have t: "smtp_wf t" "smtp_held t = []" "smtp_turn (sm_state t) t = Some (code, st, out)"
      using that(1,2) by (simp_all add: smtp_next_def)
    from smtp_turn_next [OF t that(3,4) assms(4), of sv m0 chal0 right0]
    show ?thesis using that(1) by (auto simp: smtp_next_def)
  qed
  have 0: "smtp_next SMTP_STATE_AUTH [] s s" using assms(1-3) by (simp add: smtp_next_def)
  have e: "sm_from t = sm_from s" "sm_to t = sm_to s" "smtp_mail t = smtp_mail s" if "smtp_next st out s t" for st out t
    using that by (simp_all add: smtp_next_def smtp_mail_def)
  obtain s1 where s1: "smtp_send_recv_cb sdk sv m0 chal0 right0 r1 s = Some s1" "smtp_next SMTP_STATE_FROM
      ([] @ [Send (ascii ''mail FROM:<'' @ cstr (sm_from s) @ ascii ''>'' @ crlf)]) s s1"
    using go [OF 0 _ assms(5) len(1)] by auto
  obtain s2 where s2: "smtp_send_recv_cb sdk sv m0 chal0 right0 r2 s1 = Some s2" "smtp_next SMTP_STATE_TO
      (([] @ [Send (ascii ''mail FROM:<'' @ cstr (sm_from s) @ ascii ''>'' @ crlf)]) @
       [Send (ascii ''rcpt TO:<'' @ cstr (sm_to s) @ ascii ''>'' @ crlf)]) s s2"
    using go [OF s1(2) _ assms(6) len(2)] e(2) [OF s1(2)] by auto
  obtain s3 where s3: "smtp_send_recv_cb sdk sv m0 chal0 right0 r3 s2 = Some s3" "smtp_next SMTP_STATE_DATA
      ((([] @ [Send (ascii ''mail FROM:<'' @ cstr (sm_from s) @ ascii ''>'' @ crlf)]) @
       [Send (ascii ''rcpt TO:<'' @ cstr (sm_to s) @ ascii ''>'' @ crlf)]) @ [Send (ascii ''data'' @ crlf)]) s s3"
    using go [OF s2(2) _ assms(7) len(3)] by auto
  obtain s4 where s4: "smtp_send_recv_cb sdk sv m0 chal0 right0 r4 s3 = Some s4" "smtp_next SMTP_STATE_QUIT
      (((([] @ [Send (ascii ''mail FROM:<'' @ cstr (sm_from s) @ ascii ''>'' @ crlf)]) @
       [Send (ascii ''rcpt TO:<'' @ cstr (sm_to s) @ ascii ''>'' @ crlf)]) @ [Send (ascii ''data'' @ crlf)]) @ [Send (smtp_mail s)]) s s4"
    using go [OF s3(2) _ assms(8) len(4)] e(3) [OF s3(2)] by auto
  obtain s5 where s5: "smtp_send_recv_cb sdk sv m0 chal0 right0 r5 s4 = Some s5" "smtp_next SMTP_STATE_CLOSE
      ((((([] @ [Send (ascii ''mail FROM:<'' @ cstr (sm_from s) @ ascii ''>'' @ crlf)]) @
       [Send (ascii ''rcpt TO:<'' @ cstr (sm_to s) @ ascii ''>'' @ crlf)]) @ [Send (ascii ''data'' @ crlf)]) @ [Send (smtp_mail s)]) @
       [Send (ascii ''quit'' @ crlf)]) s s5"
    using go [OF s4(2) _ assms(9) len(5)] by auto
  from go [OF s5(2) _ assms(10) len(6)] show ?thesis using s1(1) s2(1) s3(1) s4(1) s5(1) by auto
qed

section \<open>Properties\<close>

text \<open>
  C13: a complete mail. When the account is set up, nothing fails and the server answers each command
  with the expected reply (the greeting in any number of lines and segments, every other reply in a
  segment of its own), the client asks for the server's address, connects, and sends exactly the
  commands of an authenticated SMTP session: the response to the challenge is the Base64 text of the
  user name and the HMAC-MD5 of the challenge under the password, and the message has the given
  sender, recipient, subject and body. Afterwards the client is ready for the next mail.
\<close>

theorem smtp_session:
  assumes "server_wf sv" "0 < c_strlen (sv_host sv)" "length (md5_buf m0) = 64" "length chal0 = 128" "length right0 = 256"
    and "smtp_wf s" "smtp_held s = []" "sm_state s = SMTP_STATE_READY"
    and "length sender < 128" "length recipient < 128" "length subj < 128" "length body < 512"
    and "0 \<notin> set sender" "0 \<notin> set recipient" "0 \<notin> set subj" "0 \<notin> set body"
    and "list_all (\<lambda>d. greeting d []) gs" "greeting g u" "u \<noteq> []" "0 \<notin> set chal" "length chal \<le> 126"
    and "reply_line (ascii ''235 '') r1" "reply_line (ascii ''250 '') r2" "reply_line (ascii ''250 '') r3"
    and "reply_line (ascii ''354 '') r4" "reply_line (ascii ''250 '') r5" "reply_line (ascii ''221 '') r6"
    and "list_all (\<lambda>r. length r < 2048) [r1, r2, r3, r4, r5, r6]"
  shows "\<exists>s'. smtp_recvs (sdk_good ip) sv m0 chal0 right0
      (gs @ [g, ascii ''334 '' @ b64_text chal @ crlf, r1, r2, r3, r4, r5, r6])
      (smtp_send_conn_cb (sdk_good ip) (smtp_send (sdk_good ip) sv sender recipient subj body s)) = Some s' \<and>
    sm_state s' = SMTP_STATE_READY \<and> smtp_held s' = [] \<and> smtp_wf s' \<and>
    sm_net s' = sm_net s @
      [Resolve (cstr (sv_host sv)), Connect (ip_bytes ip) (sv_port sv),
       Send (ascii ''ehlo [127.0.1.1]'' @ crlf),
       Send (ascii ''AUTH CRAM-MD5'' @ crlf),
       Send (b64_text (cstr (sv_user sv) @ ascii '' '' @ concat (map fmt_02x (hmac_md5 (cstr (sv_pass sv)) chal))) @ crlf),
       Send (ascii ''mail FROM:<'' @ sender @ ascii ''>'' @ crlf),
       Send (ascii ''rcpt TO:<'' @ recipient @ ascii ''>'' @ crlf),
       Send (ascii ''data'' @ crlf),
       Send (ascii ''From: '' @ sender @ crlf @ ascii ''To: '' @ recipient @ crlf @ ascii ''Subject: '' @ subj @ crlf @ crlf @
         body @ crlf @ ascii ''.'' @ crlf),
       Send (ascii ''quit'' @ crlf)]"
proof -
  let ?sdk = "sdk_good ip"
  have ns: "\<not> sdk_send ?sdk" by (simp add: sdk_good_def)
  obtain s1 where s1: "smtp_send_conn_cb ?sdk (smtp_send ?sdk sv sender recipient subj body s) = s1"
    "smtp_wf s1" "smtp_held s1 = []" "sm_state s1 = SMTP_STATE_GREET"
    "cstr (sm_from s1) = sender" "cstr (sm_to s1) = recipient" "cstr (sm_subj s1) = subj" "cstr (sm_body s1) = body"
    "sm_net s1 = sm_net s @ [Resolve (cstr (sv_host sv)), Connect (ip_bytes ip) (sv_port sv), Send (ascii ''ehlo [127.0.1.1]'' @ crlf)]"
    using smtp_send_starts [OF assms(6-8,2,9-16), of ip] by blast
  define rest where "rest = [g, ascii ''334 '' @ b64_text chal @ crlf, r1, r2, r3, r4, r5, r6]"
  obtain s2 where s2: "smtp_recvs ?sdk sv m0 chal0 right0 (gs @ rest) s1 = smtp_recvs ?sdk sv m0 chal0 right0 rest s2"
      "smtp_next SMTP_STATE_GREET [] s1 s2"
    using smtp_greet_all [OF s1(2-4) assms(17) ns] by blast
  have w2: "smtp_wf s2" "smtp_held s2 = []" "sm_state s2 = SMTP_STATE_GREET" using s2(2) by (simp_all add: smtp_next_def)
  obtain s3 where s3: "smtp_send_recv_cb ?sdk sv m0 chal0 right0 g s2 = Some s3"
      "smtp_next SMTP_STATE_CHALLENGE [Send (ascii ''AUTH CRAM-MD5'' @ crlf)] s2 s3"
    using smtp_greet_next [OF w2 assms(18) ns, of sv m0 chal0 right0] assms(19) by auto
  have w3: "smtp_wf s3" "smtp_held s3 = []" "sm_state s3 = SMTP_STATE_CHALLENGE" using s3(2) by (simp_all add: smtp_next_def)
  obtain s4 where s4: "smtp_send_recv_cb ?sdk sv m0 chal0 right0 (ascii ''334 '' @ b64_text chal @ crlf) s3 = Some s4"
      "smtp_next SMTP_STATE_AUTH [Send (b64_text (cram_text sv chal) @ crlf)] s3 s4"
    using smtp_challenge_next [OF assms(1,3-5) w3 ns assms(20,21)] by blast
  have w4: "smtp_wf s4" "smtp_held s4 = []" "sm_state s4 = SMTP_STATE_AUTH" using s4(2) by (simp_all add: smtp_next_def)
  obtain s5 where s5: "smtp_recvs ?sdk sv m0 chal0 right0 [r1, r2, r3, r4, r5, r6] s4 = Some s5"
      "smtp_next SMTP_STATE_READY [Send (ascii ''mail FROM:<'' @ cstr (sm_from s4) @ ascii ''>'' @ crlf),
      Send (ascii ''rcpt TO:<'' @ cstr (sm_to s4) @ ascii ''>'' @ crlf), Send (ascii ''data'' @ crlf),
      Send (smtp_mail s4), Send (ascii ''quit'' @ crlf)] s4 s5"
    using smtp_turns [OF w4 ns assms(22-28), of sv m0 chal0 right0] by blast
  have "smtp_recvs ?sdk sv m0 chal0 right0 (gs @ rest) s1 = Some s5"
    using s2(1) s3(1) s4(1) s5(1) by (simp add: rest_def)
  then show ?thesis unfolding s1(1) rest_def
    using s2(2) s3(2) s4(2) s5(2) s1(5-9) by (simp add: smtp_next_def smtp_mail_def cram_text_def)
qed

definition demo_text :: "nat \<Rightarrow> string \<Rightarrow> u8 list" where
  "demo_text n str = ascii str @ replicate (n - length str) 0"

definition demo_server :: smtp_server where
  "demo_server = \<lparr>sv_host = demo_text 64 ''mx'', sv_port = 587, sv_user = demo_text 64 ''tim'', sv_pass = demo_text 64 ''tanstaaf'',
     sv_from = demo_text 128 ''a@b'', sv_to = demo_text 128 ''c@d''\<rparr>"

lemma demo_server: "server_wf demo_server" "cstr (sv_host demo_server) = ascii ''mx''"
  by (simp_all add: demo_server_def server_wf_def c_text_def demo_text_def ascii_def cstr_def)

lemma reply_lineI:
  assumes "length code = 4" "0 \<notin> set (code @ t)" "13 \<notin> set (code @ t)"
  shows "reply_line code (code @ t @ crlf)"
  using assms c_strstr_crlf [of "code @ t"] by (simp add: reply_line_def)

lemma demo_greeting:
  "greeting (ascii ''220 mx'' @ crlf) []" "greeting (ascii ''250-AUTH CRAM-MD5'' @ crlf @ ascii ''250 ok'' @ crlf) (ascii ''250 ok'' @ crlf)"
proof -
  have 1: "reply_line (ascii ''220 '') (ascii ''220 mx'' @ crlf)" using reply_lineI [of "ascii ''220 ''" "ascii ''mx''"] by (simp add: ascii_def)
  have 2: "reply_line (ascii ''250-'') (ascii ''250-AUTH CRAM-MD5'' @ crlf)"
    using reply_lineI [of "ascii ''250-''" "ascii ''AUTH CRAM-MD5''"] by (simp add: ascii_def)
  have 3: "reply_line (ascii ''250 '') (ascii ''250 ok'' @ crlf)" using reply_lineI [of "ascii ''250 ''" "ascii ''ok''"] by (simp add: ascii_def)
  show "greeting (ascii ''220 mx'' @ crlf) []"
    using 1 unfolding greeting_def by (intro conjI exI [of _ "[ascii ''220 mx'' @ crlf]"]) (simp_all add: ascii_def)
  show "greeting (ascii ''250-AUTH CRAM-MD5'' @ crlf @ ascii ''250 ok'' @ crlf) (ascii ''250 ok'' @ crlf)"
    using 2 3 unfolding greeting_def by (intro conjI exI [of _ "[ascii ''250-AUTH CRAM-MD5'' @ crlf]"]) (simp_all add: ascii_def)
qed

lemma smtp_session_witness:
  "\<exists>s'. smtp_recvs (sdk_good 0x0100a8c0) demo_server \<lparr>md5_buf = replicate 64 0, md5_buflen = 0, md5_totallen = 0, md5_h = []\<rparr>
      (replicate 128 0) (replicate 256 0)
      ([ascii ''220 mx'' @ crlf] @ [ascii ''250-AUTH CRAM-MD5'' @ crlf @ ascii ''250 ok'' @ crlf, ascii ''334 '' @ b64_text (ascii ''<1@mx>'') @ crlf,
        ascii ''235 '' @ ascii ''ok'' @ crlf, ascii ''250 '' @ ascii ''ok'' @ crlf, ascii ''250 '' @ ascii ''ok'' @ crlf,
        ascii ''354 '' @ ascii ''go'' @ crlf, ascii ''250 '' @ ascii ''ok'' @ crlf, ascii ''221 '' @ ascii ''bye'' @ crlf])
      (smtp_send_conn_cb (sdk_good 0x0100a8c0) (smtp_send (sdk_good 0x0100a8c0) demo_server
        (ascii ''a@b'') (ascii ''c@d'') (ascii ''hi'') [] smtp_state0)) = Some s' \<and> sm_state s' = SMTP_STATE_READY"
proof -
  have w: "smtp_held smtp_state0 = []" "sm_state smtp_state0 = SMTP_STATE_READY" by (simp_all add: smtp_held_def smtp_state0_def)
  have r: "reply_line (ascii ''235 '') (ascii ''235 '' @ ascii ''ok'' @ crlf)" "reply_line (ascii ''250 '') (ascii ''250 '' @ ascii ''ok'' @ crlf)"
    "reply_line (ascii ''354 '') (ascii ''354 '' @ ascii ''go'' @ crlf)" "reply_line (ascii ''221 '') (ascii ''221 '' @ ascii ''bye'' @ crlf)"
    by (rule reply_lineI; simp add: ascii_def)+
  have "0 < c_strlen (sv_host demo_server)" by (simp add: c_strlen_def demo_server(2) ascii_def)
  note t = smtp_session [OF demo_server(1) this _ _ _ smtp_wf_init w _ _ _ _ _ _ _ _ _ demo_greeting(2) _ _ _ r(1,2,2,3,2,4),
    where gs = "[ascii ''220 mx'' @ crlf]" and sender = "ascii ''a@b''" and recipient = "ascii ''c@d''" and subj = "ascii ''hi''" and body = "[]" and chal = "ascii ''<1@mx>''"
      and ?m0.0 = "\<lparr>md5_buf = replicate 64 0, md5_buflen = 0, md5_totallen = 0, md5_h = []\<rparr>" and ?chal0.0 = "replicate 128 0"
      and ?right0.0 = "replicate 256 0" and ip = "0x0100a8c0"]
  have "list_all (\<lambda>d. greeting d []) [ascii ''220 mx'' @ crlf]" using demo_greeting(1) by simp
  from t [OF _ _ _ _ _ _ _ _ _ _ _ this] show ?thesis by (simp add: ascii_def) blast
qed

text \<open>
  C26: memory safety of the client. After every run in which data arrived in whole lines, whatever the
  server said, whichever SDK call failed, whenever the callbacks came and however the account changed, the receive
  callback returns on the next lines, stays within its arrays and leads to the end of another such run, with
  all strings terminated.
\<close>

theorem smtp_lines_safe:
  assumes "server_wf sv" "smtp_run h smtp_state0 s" "list_all (whole_cause \<circ> fst) h"
    and "length (md5_buf m0) = 64" "length chal0 = 128" "length right0 = 256" "whole_lines data" "data \<noteq> []"
  shows "\<exists>s'. smtp_send_recv_cb sdk sv m0 chal0 right0 data s = Some s' \<and>
    smtp_run (h @ [(By_receive data, sv)]) smtp_state0 s' \<and> smtp_wf s'"
proof -
  have "smtp_ok s" using smtp_run_ok [OF assms(2,3) smtp_ok_init] .
  from smtp_send_recv_cb_ok [OF assms(1,4-6) this assms(7,8), of sdk]
  obtain s' where s': "smtp_send_recv_cb sdk sv m0 chal0 right0 data s = Some s'" "smtp_ok s'" by blast
  then have "smtp_run (h @ [(By_receive data, sv)]) smtp_state0 s'"
    using smtp_run.step [OF assms(2,1) smtp_step.recv [OF assms(4-6) s'(1)]] by simp
  then show ?thesis using s' by (auto simp: smtp_ok_def)
qed

lemma smtp_lines_safe_witness:
  "\<exists>s'. smtp_send_recv_cb (sdk_good 1) demo_server \<lparr>md5_buf = replicate 64 0, md5_buflen = 0, md5_totallen = 0, md5_h = []\<rparr>
     (replicate 128 0) (replicate 256 0) (ascii ''554 no'' @ crlf) smtp_state0 = Some s' \<and> smtp_wf s'"
  using smtp_lines_safe [OF demo_server(1) smtp_run.start,
    of "\<lparr>md5_buf = replicate 64 0, md5_buflen = 0, md5_totallen = 0, md5_h = []\<rparr>" "replicate 128 0" "replicate 256 0" "ascii ''554 no'' @ crlf" "sdk_good 1"]
  by (simp add: whole_lines_def) blast

text \<open>
  C38: the same does not hold for replies that TCP delivers in pieces. After any greeting line
  \<open>220 ...\<close> the three bytes \<open>250\<close> alone make \<^verbatim>\<open>smtp_send_greet\<close> take the rest of the line from the bytes of
  the greeting that are still in the array; the counter \<^verbatim>\<open>inbufused\<close> wraps below zero and
  \<^verbatim>\<open>os_memmove\<close> runs out of the array.
\<close>

theorem smtp_fragment_fault:
  assumes "0 \<notin> set t" "13 \<notin> set t" "length t < 2000"
  shows "smtp_recvs sdk sv m0 chal0 right0 [ascii ''220 '' @ t @ crlf, ascii ''250''] (smtp_state0\<lparr>sm_state := SMTP_STATE_GREET\<rparr>) = None"
proof -
  define s where "s = smtp_state0\<lparr>sm_state := SMTP_STATE_GREET\<rparr>"
  define d where "d = ascii ''220 '' @ t @ crlf"
  have len: "length d = length t + 6" by (simp add: d_def ascii_def)
  have s: "smtp_wf s" "smtp_held s = []" "sm_state s = SMTP_STATE_GREET" "sm_inbufused s = 0" "sm_inbuf s = replicate 2048 0"
    using smtp_wf_init by (simp_all add: s_def) (simp_all add: smtp_held_def smtp_state0_def)
  define s1 where "s1 = smtp_arrive d s"
  note a = smtp_recv_handler [OF s(1,2), of d, folded s1_def]
  have r: "reply_line (ascii ''220 '') d" unfolding d_def using assms by (intro reply_lineI) (simp_all add: ascii_def)
  have h: "smtp_wf s1" "smtp_held s1 = d @ []" using a len assms(3) by simp_all
  note k = smtp_take_reply(1) [OF h r]
  have i1: "sm_inbuf s1 = d @ replicate (2048 - length d) 0" "sm_inbufused s1 = of_nat (length d)"
    using s len assms(3) by (simp_all add: s1_def smtp_arrive_def patch_def)
  define s2 where "s2 = s1\<lparr>sm_inbufused := 0, sm_inbuf := 0 # tl d @ replicate (2048 - length d) 0\<rparr>"
  have take1: "smtp_take (length d - 2) s1 = Some s2"
  proof -
    have "patch (sm_inbuf s1) 0 (take 1 (drop (length d) (sm_inbuf s1))) = 0 # tl d @ replicate (2048 - length d) 0"
    proof -
      have "take 1 (drop (length d) (sm_inbuf s1)) = [0]" using assms(3) len by (simp add: i1)
      then show ?thesis using len by (simp only:) (simp add: i1 patch_def drop_Suc)
    qed
    moreover have "length d - 2 + 2 = length d" "length (sm_inbuf s1) = 2048" using len i1(1) assms(3) by simp_all
    ultimately show ?thesis using i1(2) assms(3) len by (simp only: smtp_take_def Let_def) (simp add: s2_def)
  qed
  have g: "strncmp_eq (ascii ''220'') (sm_inbuf s1) 3" "\<not> strncmp_eq (ascii ''250 '') (sm_inbuf s1) 4"
    using reply_line_code [OF h r, of "ascii ''220''"] reply_line_code [OF h r, of "ascii ''250 ''"]
    unfolding smtp_codes by (simp_all add: ascii_def)
  have "length (sm_inbuf s1) = 2048" using h(1) by (simp add: smtp_wf_def)
  then have "smtp_greet_loop s1 = Some (False, s2)"
    using k take1 g by (subst smtp_greet_loop.simps) (simp add: s2_def)
  then have recv1: "smtp_send_recv_cb sdk sv m0 chal0 right0 d s = Some s2"
    using a(3) s(3) len assms(3) unfolding smtp_send_recv_cb_def Let_def smtp_arrive_def [symmetric] s1_def [symmetric]
    by (simp add: smtp_send_greet_def)
  define s3 where "s3 = smtp_arrive (ascii ''250'') s2"
  have i3: "sm_inbuf s3 = ascii ''250 '' @ t @ crlf @ replicate (2048 - length d) 0" "sm_inbufused s3 = 3"
    using len assms(3) by (simp_all add: s3_def smtp_arrive_def s2_def patch_def d_def ascii_def)
  have "c_strstr (cstr (sm_inbuf s3)) crlf = Some (4 + length t)"
  proof -
    have "2048 - length d = Suc (2047 - length d)" using len assms(3) by simp
    then have "sm_inbuf s3 = ((ascii ''250 '' @ t) @ crlf) @ 0 # replicate (2047 - length d) 0" by (simp add: i3)
    then have "cstr (sm_inbuf s3) = (ascii ''250 '' @ t) @ crlf"
      using cstr_append [of "(ascii ''250 '' @ t) @ crlf" "replicate (2047 - length d) 0"] assms(1) by (simp add: ascii_def)
    then show ?thesis using c_strstr_crlf [of "ascii ''250 '' @ t"] assms(2) by (simp add: ascii_def)
  qed
  then have l3: "smtp_line s3 = Some (Some (4 + length t))" using len assms(3) by (simp add: smtp_line_def i3)
  have take3: "smtp_take (4 + length t) s3 = None"
  proof (rule ccontr)
    assume "smtp_take (4 + length t) s3 \<noteq> None"
    then obtain s4 where "smtp_take (4 + length t) s3 = Some s4" by blast
    moreover have "length (sm_inbuf s3) \<le> 2048" using len assms(3) by (simp add: i3 ascii_def)
    ultimately have "unat (sm_inbufused s4) + (4 + length t) + 2 = unat (sm_inbufused s3)" by (rule smtp_take_less(1))
    then show False by (simp add: i3)
  qed
  have "strncmp_eq (ascii ''250'') (sm_inbuf s3) 3" by (simp add: i3 ascii_def numeral_3_eq_3)
  then have "smtp_greet_loop s3 = None" using l3 take3 by (subst smtp_greet_loop.simps) simp
  then have "smtp_send_recv_cb sdk sv m0 chal0 right0 (ascii ''250'') s2 = None"
    using s(3) len assms(3) unfolding smtp_send_recv_cb_def Let_def smtp_arrive_def [symmetric] s3_def [symmetric]
    by (simp add: smtp_send_greet_def s2_def s1_def smtp_arrive_def ascii_def)
  then show ?thesis using recv1 unfolding s_def d_def by simp
qed

lemma smtp_fragment_fault_witness:
  "smtp_recvs (sdk_good 1) demo_server undefined [] [] [ascii ''220 '' @ ascii ''mx ESMTP'' @ crlf, ascii ''250'']
     (smtp_state0\<lparr>sm_state := SMTP_STATE_GREET\<rparr>) = None"
  by (rule smtp_fragment_fault) (simp_all add: ascii_def)

section \<open>Outstanding callbacks\<close>

text \<open>
  The SDK calls \<^verbatim>\<open>smtp_send_dns\<close> for a lookup in progress and \<^verbatim>\<open>smtp_send_conn_cb\<close> for a connection it
  is opening, once each, or \<^verbatim>\<open>smtp_send_error_cb\<close> (which only logs) instead of the latter. \<open>d\<close> lookups
  and \<open>k\<close> connections are outstanding.
\<close>

definition connects :: "smtp_state \<Rightarrow> smtp_state \<Rightarrow> nat" where
  "connects s s' = (let n = (\<lambda>s. length (filter (\<lambda>c. case c of Connect a p \<Rightarrow> True | _ \<Rightarrow> False) (sm_net s))) in n s' - n s)"

inductive sdk_step :: "nat \<times> nat \<times> smtp_state \<Rightarrow> nat \<times> nat \<times> smtp_state \<Rightarrow> bool" where
  send: "server_wf sv \<Longrightarrow> smtp_step By_caller sv s s' \<Longrightarrow>
    sdk_step (d, k, s) (d + of_bool (sm_state s = SMTP_STATE_READY \<and> sm_state s' = SMTP_STATE_RESOLVE), k + connects s s', s')"
| dns: "server_wf sv \<Longrightarrow> smtp_step By_dns sv s s' \<Longrightarrow> sdk_step (Suc d, k, s) (d, k + connects s s', s')"
| conn: "server_wf sv \<Longrightarrow> smtp_step By_connect sv s s' \<Longrightarrow> sdk_step (d, Suc k, s) (d, k, s')"
| error: "sdk_step (d, Suc k, s) (d, k, s)"
| recv: "server_wf sv \<Longrightarrow> smtp_step (By_receive data) sv s s' \<Longrightarrow> sdk_step (d, k, s) (d, k, s')"
| kill: "server_wf sv \<Longrightarrow> smtp_step By_timer sv s s' \<Longrightarrow> sdk_step (d, k, s) (d, k, s')"

definition net_use :: "net_call \<Rightarrow> bool" where
  "net_use c = (case c of Disconnect a \<Rightarrow> False | Delete a \<Rightarrow> False | _ \<Rightarrow> True)"

lemma smtp_step_failed:
  assumes "smtp_step c sv s s'" "c \<noteq> By_dns" "c \<noteq> By_connect" "sm_state s = SMTP_STATE_FAILED"
  shows "sm_state s' = SMTP_STATE_FAILED \<and> filter net_use (sm_net s') = filter net_use (sm_net s) \<and> connects s s' = 0"
  using assms
proof (cases rule: smtp_step.cases)
  case (recv m0 chal0 right0 sdk data)
  then show ?thesis using assms(4) by (auto simp: smtp_send_recv_cb_def Let_def smtp_fail_def connects_def split: if_splits)
qed (auto simp: smtp_send_def smtp_send_kill_def smtp_net_def net_use_def connects_def)

lemma sdk_step_failed:
  assumes "sdk_step (0, 0, s) (d, k, s')" "sm_state s = SMTP_STATE_FAILED"
  shows "d = 0 \<and> k = 0 \<and> sm_state s' = SMTP_STATE_FAILED \<and> filter net_use (sm_net s') = filter net_use (sm_net s)"
  using assms(1) by (cases rule: sdk_step.cases) (use assms(2) in \<open>auto dest: smtp_step_failed\<close>)

lemma sdk_steps_failed:
  assumes "sdk_step\<^sup>*\<^sup>* (0, 0, s) y" "sm_state s = SMTP_STATE_FAILED"
  shows "\<exists>s'. y = (0, 0, s') \<and> sm_state s' = SMTP_STATE_FAILED \<and> filter net_use (sm_net s') = filter net_use (sm_net s)"
  using assms(1)
proof (induction rule: rtranclp_induct)
  case (step y z)
  then obtain s' where s': "y = (0, 0, s')" "sm_state s' = SMTP_STATE_FAILED" "filter net_use (sm_net s') = filter net_use (sm_net s)" by blast
  obtain d k t where z: "z = (d, k, t)" by (metis prod_cases3)
  show ?case using sdk_step_failed [of s' d k t] step(2) s' z by simp
qed (use assms(2) in simp)

lemma sdk_step_revives:
  "\<exists>d' k' s'. sdk_step (Suc d, k, s) (d', k', s') \<and> sm_state s' = SMTP_STATE_CONNECT"
  "\<exists>d' k' s'. sdk_step (d, Suc k, s) (d', k', s') \<and> sm_state s' = SMTP_STATE_GREET"
proof -
  have "sm_state (smtp_send_dns (sdk_good 1) demo_server (Some 1) s) = SMTP_STATE_CONNECT"
    by (simp add: smtp_send_dns_def smtp_send_connect_def sdk_good_def smtp_net_def)
  then show "\<exists>d' k' s'. sdk_step (Suc d, k, s) (d', k', s') \<and> sm_state s' = SMTP_STATE_CONNECT"
    using sdk_step.dns [OF demo_server(1) smtp_step.dns] by blast
  have "sm_state (smtp_send_conn_cb (sdk_good 1) s) = SMTP_STATE_GREET"
    by (simp add: smtp_send_conn_cb_def sdk_good_def smtp_net_def)
  then show "\<exists>d' k' s'. sdk_step (d, Suc k, s) (d', k', s') \<and> sm_state s' = SMTP_STATE_GREET"
    using sdk_step.conn [OF demo_server(1) smtp_step.conn] by blast
qed

text \<open>
  C39: when a failure is final. A client in \<^verbatim>\<open>SMTP_STATE_FAILED\<close> can get into another state, by whatever calls of
  \<^verbatim>\<open>smtp_send\<close>, data, callbacks and timers, exactly if a DNS lookup or a connection is still outstanding;
  if none is, it stays failed for good and nothing is resolved, connected or sent any more.
\<close>

theorem smtp_failed_final:
  assumes "sm_state s = SMTP_STATE_FAILED"
  shows "((\<exists>d' k' s'. sdk_step\<^sup>*\<^sup>* (d, k, s) (d', k', s') \<and> sm_state s' \<noteq> SMTP_STATE_FAILED) \<longleftrightarrow> 0 < d \<or> 0 < k) \<and>
    (\<forall>d' k' s'. sdk_step\<^sup>*\<^sup>* (0, 0, s) (d', k', s') \<longrightarrow>
       sm_state s' = SMTP_STATE_FAILED \<and> filter net_use (sm_net s') = filter net_use (sm_net s))" (is "(?L \<longleftrightarrow> ?R) \<and> ?F")
proof -
  have final: ?F using sdk_steps_failed [OF _ assms] by fastforce
  have one: "?L" if "sdk_step (d, k, s) (d', k', s')" "sm_state s' \<noteq> SMTP_STATE_FAILED" for d' k' s'
    using r_into_rtranclp [of sdk_step, OF that(1)] that(2) by blast
  have "?L" if "d = Suc e" for e using sdk_step_revives(1) [of e k s] one unfolding that by force
  moreover have "?L" if "k = Suc e" for e using sdk_step_revives(2) [of d e s] one unfolding that by force
  moreover have "\<not> ?L" if "d = 0" "k = 0" using final that by blast
  ultimately show ?thesis using final by (metis gr0_implies_Suc not_gr_zero)
qed

lemma smtp_failed_final_witness:
  "(\<exists>d' k' s'. sdk_step\<^sup>*\<^sup>* (1, 0, smtp_state0\<lparr>sm_state := SMTP_STATE_FAILED\<rparr>) (d', k', s') \<and> sm_state s' \<noteq> SMTP_STATE_FAILED) \<and>
   \<not> (\<exists>d' k' s'. sdk_step\<^sup>*\<^sup>* (0, 0, smtp_state0\<lparr>sm_state := SMTP_STATE_FAILED\<rparr>) (d', k', s') \<and> sm_state s' \<noteq> SMTP_STATE_FAILED)"
  using smtp_failed_final [of "smtp_state0\<lparr>sm_state := SMTP_STATE_FAILED\<rparr>" 1 0]
    smtp_failed_final [of "smtp_state0\<lparr>sm_state := SMTP_STATE_FAILED\<rparr>" 0 0] by simp

lemma server_bytes_inverse:
  assumes "server_wf sv"
  shows "server_of_bytes (server_bytes sv) = sv" "length (server_bytes sv) = 450"
proof -
  have l: "length (sv_host sv) = 64" "length (sv_user sv) = 64" "length (sv_pass sv) = 64"
      "length (sv_from sv) = 128" "length (sv_to sv) = 128"
    using assms by (simp_all add: server_wf_def c_text_def)
  have "ucast (ucast (w :: u16) :: u8) OR push_bit 8 (ucast (ucast (drop_bit 8 w) :: u8)) = w" for w :: u16
    by (rule bit_word_eqI) (auto simp: bit_simps)
  then show "server_of_bytes (server_bytes sv) = sv" using l
    by (intro smtp_server.equality) (simp_all add: server_of_bytes_def server_bytes_def nth_append)
  show "length (server_bytes sv) = 450" using l by (simp add: server_bytes_def)
qed

text \<open>
  The account survives a reboot. What the setup page stores with \<^verbatim>\<open>param_store\<close> is the account that
  \<^verbatim>\<open>smtp_init\<close> finds, and the client starts in the ready state.
\<close>

lemma smtp_account_roundtrip:
  assumes "param_sdk load save" "length buf0 = 1024" "length buf1 = 1024" "server_wf sv"
    and "param_store load save fmap PARAM_SMTP_OFFSET (server_bytes sv) buf0 f = Some (0, buf, f')"
  shows "smtp_init load fmap buf1 f' = Some (smtp_state0, sv)"
proof -
  have "length (replicate 450 (0 :: u8)) = length (server_bytes sv)" using server_bytes_inverse(2) [OF assms(4)] by simp
  then obtain b where "param_retrieve load fmap PARAM_SMTP_OFFSET (replicate 450 0) buf1 f' = Some (0, server_bytes sv, b)"
    using param_store_retrieve [OF assms(1,2,5) _ assms(3)] by blast
  then show ?thesis using server_bytes_inverse(1) [OF assms(4)] by (simp add: smtp_init_def)
qed

end
