(* ===== verification/Smtp_Protocol.thy ===== *)
theory Smtp_Protocol
  imports Smtp_Session
begin

text \<open>
  The abstract protocol of the mail client: an automaton over the states of \<^verbatim>\<open>private.h\<close> whose transitions carry their
  cause, the account in force and what is asked of the network. Every step of the detailed client, whatever its buffers hold, is a
  transition of the automaton, so the calls of every run are a trace of it. The DNS and connect callbacks of the code act in every state, and so do their
  transitions; the order of a dialogue is that of the states after the connection.
\<close>

section \<open>The states in their order\<close>

text \<open>The numbers of \<^verbatim>\<open>private.h\<close>; a dialogue goes upwards.\<close>

fun smtp_number :: "smtp_st \<Rightarrow> int" where
  "smtp_number SMTP_STATE_FAILED = -1"
| "smtp_number SMTP_STATE_READY = 1"
| "smtp_number SMTP_STATE_RESOLVE = 2"
| "smtp_number SMTP_STATE_CONNECT = 3"
| "smtp_number SMTP_STATE_GREET = 4"
| "smtp_number SMTP_STATE_CHALLENGE = 5"
| "smtp_number SMTP_STATE_AUTH = 7"
| "smtp_number SMTP_STATE_FROM = 8"
| "smtp_number SMTP_STATE_TO = 9"
| "smtp_number SMTP_STATE_DATA = 10"
| "smtp_number SMTP_STATE_QUIT = 11"
| "smtp_number SMTP_STATE_CLOSE = 12"

lemma smtp_number_inj: "smtp_number a = smtp_number b \<Longrightarrow> a = b"
  by (cases a; cases b) simp_all

instantiation smtp_st :: linorder
begin

definition less_eq_smtp_st :: "smtp_st \<Rightarrow> smtp_st \<Rightarrow> bool" where
  "less_eq_smtp_st a b \<longleftrightarrow> smtp_number a \<le> smtp_number b"

definition less_smtp_st :: "smtp_st \<Rightarrow> smtp_st \<Rightarrow> bool" where
  "less_smtp_st a b \<longleftrightarrow> smtp_number a < smtp_number b"

instance
  by standard (auto simp: less_eq_smtp_st_def less_smtp_st_def smtp_number_inj)

end

section \<open>The protocol\<close>

text \<open>The next state of the dialogue.\<close>

fun smtp_after :: "smtp_st \<Rightarrow> smtp_st option" where
  "smtp_after SMTP_STATE_GREET = Some SMTP_STATE_CHALLENGE"
| "smtp_after SMTP_STATE_CHALLENGE = Some SMTP_STATE_AUTH"
| "smtp_after SMTP_STATE_AUTH = Some SMTP_STATE_FROM"
| "smtp_after SMTP_STATE_FROM = Some SMTP_STATE_TO"
| "smtp_after SMTP_STATE_TO = Some SMTP_STATE_DATA"
| "smtp_after SMTP_STATE_DATA = Some SMTP_STATE_QUIT"
| "smtp_after SMTP_STATE_QUIT = Some SMTP_STATE_CLOSE"
| "smtp_after _ = None"

text \<open>The command that is sent when a state is entered: the response to a challenge is the one of CRAM-MD5.\<close>

inductive smtp_says :: "smtp_server \<Rightarrow> smtp_st \<Rightarrow> u8 list \<Rightarrow> bool" for sv where
  ehlo: "smtp_says sv SMTP_STATE_GREET (ascii ''ehlo [127.0.1.1]'' @ crlf)"
| auth: "smtp_says sv SMTP_STATE_CHALLENGE (ascii ''AUTH CRAM-MD5'' @ crlf)"
| response: "smtp_says sv SMTP_STATE_AUTH (b64_text (cram_text sv chal) @ crlf)"
| mail_from: "smtp_says sv SMTP_STATE_FROM (ascii ''mail FROM:<'' @ a @ ascii ''>'' @ crlf)"
| rcpt_to: "smtp_says sv SMTP_STATE_TO (ascii ''rcpt TO:<'' @ a @ ascii ''>'' @ crlf)"
| data: "smtp_says sv SMTP_STATE_DATA (ascii ''data'' @ crlf)"
| mail: "smtp_says sv SMTP_STATE_QUIT (ascii ''From: '' @ a @ crlf @ ascii ''To: '' @ b @ crlf @ ascii ''Subject: '' @ c @ crlf @ crlf @ d @ crlf @ ascii ''.'' @ crlf)"
| quit: "smtp_says sv SMTP_STATE_CLOSE (ascii ''quit'' @ crlf)"

inductive smtp_proto :: "smtp_cause \<Rightarrow> smtp_server \<Rightarrow> smtp_st \<Rightarrow> net_call list \<Rightarrow> smtp_st \<Rightarrow> bool" where
  refuse: "smtp_proto By_caller sv st [] st"
| resolve: "smtp_proto By_caller sv SMTP_STATE_READY [Resolve (cstr (sv_host sv))] SMTP_STATE_RESOLVE"
| unresolved: "smtp_proto By_caller sv SMTP_STATE_READY [Resolve (cstr (sv_host sv))] SMTP_STATE_FAILED"
| known: "smtp_proto By_caller sv SMTP_STATE_READY [Resolve (cstr (sv_host sv)), Connect ip (sv_port sv)] SMTP_STATE_CONNECT"
| no_address: "smtp_proto By_dns sv st [] SMTP_STATE_FAILED"
| connect: "smtp_proto By_dns sv st [Connect ip (sv_port sv)] SMTP_STATE_CONNECT"
| unheard: "smtp_proto By_connect sv st [] SMTP_STATE_FAILED"
| greet: "smtp_says sv SMTP_STATE_GREET t \<Longrightarrow> smtp_proto By_connect sv st [Send t] SMTP_STATE_GREET"
| wait: "smtp_proto (By_receive d) sv st [] st"
| give_up: "smtp_proto (By_receive d) sv st [] SMTP_STATE_FAILED"
| say: "smtp_after st = Some st' \<Longrightarrow> smtp_says sv st' t \<Longrightarrow> smtp_proto (By_receive d) sv st [Send t] st'"
| close: "smtp_proto (By_receive d) sv SMTP_STATE_CLOSE [] SMTP_STATE_READY"
| kill: "smtp_proto By_timer sv st [Disconnect a, Delete a] st"

inductive smtp_trace :: "(smtp_cause \<times> smtp_server) list \<Rightarrow> net_call list \<Rightarrow> smtp_st \<Rightarrow> bool" where
  empty: "smtp_trace [] [] SMTP_STATE_READY"
| step: "smtp_trace h cs st \<Longrightarrow> smtp_proto c sv st ds st' \<Longrightarrow> smtp_trace (h @ [(c, sv)]) (cs @ ds) st'"

text \<open>The dialogue goes upwards.\<close>

lemma smtp_after_up: "smtp_after st = Some st' \<Longrightarrow> st < st'"
  by (cases st) (auto simp: less_smtp_st_def)

text \<open>The states of a dialogue up to one of them.\<close>

definition dialogue :: "smtp_st \<Rightarrow> smtp_st list" where
  "dialogue st = filter (\<lambda>t. t \<le> st) [SMTP_STATE_GREET, SMTP_STATE_CHALLENGE, SMTP_STATE_AUTH, SMTP_STATE_FROM, SMTP_STATE_TO,
     SMTP_STATE_DATA, SMTP_STATE_QUIT, SMTP_STATE_CLOSE]"

lemma dialogue_simps [simp]: "dialogue SMTP_STATE_FAILED = []" "dialogue SMTP_STATE_READY = []" "dialogue SMTP_STATE_RESOLVE = []"
  "dialogue SMTP_STATE_CONNECT = []" "dialogue SMTP_STATE_GREET = [SMTP_STATE_GREET]"
  by (simp_all add: dialogue_def less_eq_smtp_st_def)

lemma dialogue_after: "smtp_after st = Some st' \<Longrightarrow> dialogue st' = dialogue st @ [st']"
  by (cases st) (auto simp: dialogue_def less_eq_smtp_st_def)

definition sends :: "net_call list \<Rightarrow> u8 list list" where
  "sends cs = concat (map (\<lambda>c. case c of Send t \<Rightarrow> [t] | _ \<Rightarrow> []) cs)"

lemma sends_simps [simp]: "sends [] = []" "sends (cs @ ds) = sends cs @ sends ds" "sends (c # cs) = (case c of Send t \<Rightarrow> [t] | _ \<Rightarrow> []) @ sends cs"
  by (simp_all add: sends_def)

text \<open>What has been sent last: the commands of the dialogue up to the present state, each once and in order.\<close>

definition said :: "smtp_server set \<Rightarrow> smtp_st \<Rightarrow> net_call list \<Rightarrow> bool" where
  "said svs st cs \<longleftrightarrow> (\<exists>old new. sends cs = old @ new \<and> list_all2 (\<lambda>st t. \<exists>sv \<in> svs. smtp_says sv st t) (dialogue st) new)"

lemma said_none: "dialogue st = [] \<Longrightarrow> said svs st cs"
  by (auto simp: said_def)

lemma says_mono: "list_all2 (\<lambda>st t. \<exists>sv \<in> svs. smtp_says sv st t) sts ts \<Longrightarrow> svs \<subseteq> svs' \<Longrightarrow>
    list_all2 (\<lambda>st t. \<exists>sv \<in> svs'. smtp_says sv st t) sts ts"
  by (auto elim!: list_all2_mono)

lemma said_mono: "said svs st cs \<Longrightarrow> svs \<subseteq> svs' \<Longrightarrow> sends ds = [] \<Longrightarrow> said svs' st (cs @ ds)"
  using says_mono unfolding said_def by (simp only: sends_simps append_Nil2) blast

lemma said_greet: "smtp_says sv SMTP_STATE_GREET t \<Longrightarrow> sv \<in> svs \<Longrightarrow> said svs SMTP_STATE_GREET (cs @ [Send t])"
  unfolding said_def by (intro exI [of _ "sends cs"] exI [of _ "[t]"]) auto

lemma said_next:
  assumes "said svs st cs" "smtp_after st = Some st'" "smtp_says sv st' t" "sv \<in> svs'" "svs \<subseteq> svs'"
  shows "said svs' st' (cs @ [Send t])"
proof -
  obtain old new where "sends cs = old @ new" "list_all2 (\<lambda>st t. \<exists>sv \<in> svs. smtp_says sv st t) (dialogue st) new"
    using assms(1) by (auto simp: said_def)
  moreover from this(2) have "list_all2 (\<lambda>st t. \<exists>sv \<in> svs'. smtp_says sv st t) (dialogue st) new"
    using says_mono assms(5) by blast
  ultimately show ?thesis unfolding said_def
    by (intro exI [of _ old] exI [of _ "new @ [t]"]) (use assms(2-4) in \<open>auto simp: dialogue_after intro!: list_all2_appendI\<close>)
qed

lemma smtp_trace_said: "smtp_trace h cs st \<Longrightarrow> said (snd ` set h) st cs"
proof (induction rule: smtp_trace.induct)
  case (step h cs st c sv ds st')
  define svs where "svs = snd ` set (h @ [(c, sv)])"
  have sub: "snd ` set h \<subseteq> svs" "sv \<in> svs" by (auto simp: svs_def)
  note m = said_mono [OF step.IH sub(1)] and n = said_next [OF step.IH _ _ sub(2,1)]
  from step.hyps(2) have "said svs st' (cs @ ds)"
    by (cases rule: smtp_proto.cases) (use m [of "[]"] m n sub(2) in \<open>simp_all add: said_none said_greet\<close>)
  then show ?case by (simp only: svs_def)
qed (simp add: said_none)

section \<open>The client refines the protocol\<close>

text \<open>The abstraction of a state of the client is its state number, that of a step the new calls.\<close>

definition proto_step :: "smtp_cause \<Rightarrow> smtp_server \<Rightarrow> smtp_state \<Rightarrow> smtp_state \<Rightarrow> bool" where
  "proto_step c sv s s' \<longleftrightarrow> (\<exists>cs. sm_net s' = sm_net s @ cs \<and> smtp_proto c sv (sm_state s) cs (sm_state s'))"

lemma proto_stepI: "sm_net s' = sm_net s @ cs \<Longrightarrow> smtp_proto c sv (sm_state s) cs (sm_state s') \<Longrightarrow> proto_step c sv s s'"
  by (auto simp: proto_step_def)

abbreviation received :: "u8 list \<Rightarrow> smtp_server \<Rightarrow> smtp_state \<Rightarrow> smtp_state \<Rightarrow> bool" where
  "received d \<equiv> proto_step (By_receive d)"

lemma proto_same: "sm_net s' = sm_net s \<Longrightarrow> sm_state s' = sm_state s \<or> sm_state s' = SMTP_STATE_FAILED \<Longrightarrow> received d sv s s'"
  by (auto intro!: proto_stepI [of _ _ "[]"] intro: smtp_proto.wait smtp_proto.give_up)

lemma proto_fail: "received d sv s (smtp_fail a s1)" if "sm_net s1 = sm_net s"
  using that by (intro proto_same) (simp_all add: smtp_fail_def)

text \<open>What a handler does after the line has been taken: it sends the command of the state \<open>st\<close> or gives up.\<close>

definition speaks :: "smtp_server \<Rightarrow> smtp_st \<Rightarrow> smtp_state \<Rightarrow> smtp_state \<Rightarrow> bool" where
  "speaks sv st s s' \<longleftrightarrow> (sm_state s' = st \<and> (\<exists>t. smtp_says sv st t \<and> sm_net s' = sm_net s @ [Send t])) \<or>
     (sm_state s' = SMTP_STATE_FAILED \<and> sm_net s' = sm_net s)"

lemma speaks_proto:
  assumes "speaks sv st s1 s'" "sm_net s1 = sm_net s" "smtp_after (sm_state s) = Some st"
  shows "received d sv s s'"
  using assms by (auto simp: speaks_def proto_step_def intro: smtp_proto.say smtp_proto.give_up)

lemma speaks_cut: "speaks sv st s s' \<Longrightarrow> speaks sv st s (smtp_cut sdk n s')"
  by (simp add: speaks_def smtp_cut_def)

lemma speaks_net: "smtp_says sv st t \<Longrightarrow> sm_state s1 = st \<Longrightarrow> sm_net s1 = sm_net s \<Longrightarrow>
    speaks sv st s (if b then smtp_fail a s1 else smtp_net (Send t) s1)"
  by (auto simp: speaks_def smtp_fail_def smtp_net_def)

lemma speaks_command:
  assumes "smtp_wf s" "sm_state s = st" "smtp_says sv st t" "length t \<le> 1023" "smtp_command sdk t (length t) s = Some s'"
  shows "speaks sv st s s'"
proof -
  have "take (length t) (c_snprintf (sm_outbuf s) t) = t" using smtp_wf_outlen [OF assms(1)] assms(4)
    by (cases "sm_outbuf s") (simp_all add: c_snprintf_def patch_def)
  then have "s' = (if sdk_send sdk then smtp_fail NULL (s\<lparr>sm_outbuf := c_snprintf (sm_outbuf s) t\<rparr>)
      else smtp_net (Send t) (s\<lparr>sm_outbuf := c_snprintf (sm_outbuf s) t\<rparr>))"
    using assms(5) by (auto simp: smtp_command_def smtp_transmit_def split: if_splits)
  then show ?thesis using assms(2,3) by (simp add: speaks_net)
qed

lemma smtp_take_frame: "smtp_take e s = Some s' \<Longrightarrow> sm_net s' = sm_net s \<and> sm_state s' = sm_state s"
  by (auto simp: smtp_take_def Let_def split: if_splits)

lemma reply_proto:
  assumes "smtp_wf s" "smtp_after (sm_state s) = Some st" "smtp_reply code st k s = Some s'"
    and "\<And>s1. smtp_wf s1 \<Longrightarrow> sm_state s1 = st \<Longrightarrow> k s1 = Some s' \<Longrightarrow> speaks sv st s1 s'"
  shows "received d sv s s'"
proof -
  obtain r where r: "smtp_line s = Some r" using smtp_line_total assms(1) by blast
  show ?thesis
  proof (cases "r = None \<or> \<not> strncmp_eq code (sm_inbuf s) 4")
    case True
    then show ?thesis using r assms(3) by (cases r) (auto simp: smtp_reply_def proto_fail intro: proto_same)
  next
    case False
    then obtain e where e: "r = Some e" by auto
    then obtain s1 where s1: "smtp_take e s = Some s1" "k (s1\<lparr>sm_state := st\<rparr>) = Some s'"
      using assms(3) r False by (auto simp: smtp_reply_def split: option.splits)
    then have "speaks sv st (s1\<lparr>sm_state := st\<rparr>) s'" using assms(4) smtp_take_wf [OF s1(1) assms(1)] by simp
    then show ?thesis by (rule speaks_proto) (use smtp_take_frame [OF s1(1)] assms(2) in simp_all)
  qed
qed

text \<open>The handlers.\<close>

lemma greet_loop_frame:
  "smtp_greet_loop s = Some (b, s') \<Longrightarrow> sm_net s' = sm_net s \<and> (sm_state s' = sm_state s \<or> \<not> b \<and> sm_state s' = SMTP_STATE_FAILED)"
proof (induction s rule: smtp_greet_loop.induct)
  case (1 s)
  show ?case
  proof (cases "smtp_line s")
    case None
    then show ?thesis using "1.prems" by (simp add: smtp_greet_loop.simps [of s] split: if_splits)
  next
    case r: (Some r)
    show ?thesis
    proof (cases r)
      case None
      then show ?thesis using "1.prems" r by (auto simp: smtp_greet_loop.simps [of s] split: if_splits)
    next
      case e: (Some e)
      show ?thesis
      proof (cases "smtp_take e s")
        case None
        then show ?thesis using "1.prems" r e by (auto simp: smtp_greet_loop.simps [of s] smtp_fail_def split: if_splits)
      next
        case t: (Some s1)
        show ?thesis using "1.prems" "1.IH" [OF _ r e _ t] smtp_take_frame [OF t] r e t
          by (auto simp: smtp_greet_loop.simps [of s] smtp_fail_def split: if_splits)
      qed
    qed
  qed
qed

lemma greet_proto:
  assumes "smtp_send_greet sdk s = Some s'" "sm_state s = SMTP_STATE_GREET"
  shows "received d sv s s'"
proof -
  obtain b s1 where l: "smtp_greet_loop s = Some (b, s1)" using assms(1) by (auto simp: smtp_send_greet_def split: option.splits)
  note f = greet_loop_frame [OF l]
  show ?thesis
  proof (cases b)
    case True
    then have "s' = (if sdk_send sdk then smtp_fail NULL (s1\<lparr>sm_state := SMTP_STATE_CHALLENGE\<rparr>)
        else smtp_net (Send (ascii ''AUTH CRAM-MD5'' @ crlf)) (s1\<lparr>sm_state := SMTP_STATE_CHALLENGE\<rparr>))"
      using assms(1) l by (simp add: smtp_send_greet_def Let_def)
    then have "speaks sv SMTP_STATE_CHALLENGE s1 s'" using speaks_net [OF smtp_says.auth] by simp
    then show ?thesis by (rule speaks_proto) (use f assms(2) in simp_all)
  next
    case False
    then show ?thesis using assms(1) l f by (intro proto_same) (auto simp: smtp_send_greet_def)
  qed
qed

lemma challenge_proto:
  assumes "server_wf sv" "length (md5_buf m0) = 64" "length chal0 = 128" "length right0 = 256" "smtp_wf s"
    and "smtp_send_challenge sdk sv m0 chal0 right0 s = Some s'" "sm_state s = SMTP_STATE_CHALLENGE"
  shows "received d sv s s'"
proof (rule smtp_send_challenge_cases [OF assms(1-6)])
  fix e s1 c ob
  assume t: "smtp_take e s = Some s1" and "s' = (if sdk_send sdk then smtp_fail NULL (s1\<lparr>sm_state := SMTP_STATE_AUTH, sm_outbuf := ob\<rparr>)
      else smtp_net (Send (b64_text (cram_text sv c) @ crlf)) (s1\<lparr>sm_state := SMTP_STATE_AUTH, sm_outbuf := ob\<rparr>))"
  then have "speaks sv SMTP_STATE_AUTH s1 s'" using speaks_net [OF smtp_says.response] by simp
  then show ?thesis by (rule speaks_proto) (use smtp_take_frame [OF t] assms(7) in simp_all)
qed (simp_all add: proto_same proto_fail)

lemma smtp_wf_fields:
  "smtp_wf s \<Longrightarrow> c_strlen (sm_from s) < 128 \<and> c_strlen (sm_to s) < 128 \<and> c_strlen (sm_subj s) < 128 \<and> c_strlen (sm_body s) < 512"
  by (simp add: smtp_wf_def c_text_strlen)

lemma cut_command:
  assumes "map_option (smtp_cut sdk m) (smtp_command sdk t n s) = Some s'" "n = length t" "length t \<le> 1023" "smtp_wf s" "sm_state s = st" "smtp_says sv st t"
  shows "speaks sv st s s'"
proof -
  obtain s1 where s1: "smtp_command sdk t (length t) s = Some s1" "s' = smtp_cut sdk m s1" using assms(1,2) by auto
  show ?thesis unfolding s1(2) by (intro speaks_cut speaks_command [OF assms(4-6,3) s1(1)])
qed

lemma plain_command:
  assumes "smtp_command sdk t n s = Some s'" "n = length t" "length t \<le> 1023" "smtp_wf s" "sm_state s = st" "smtp_says sv st t"
  shows "speaks sv st s s'"
  using speaks_command [OF assms(4-6,3)] assms(1,2) by simp

lemma commands_proto:
  assumes "smtp_wf s"
  shows "sm_state s = SMTP_STATE_AUTH \<Longrightarrow> smtp_send_auth sdk s = Some s' \<Longrightarrow> received d sv s s'"
    and "sm_state s = SMTP_STATE_FROM \<Longrightarrow> smtp_send_from sdk s = Some s' \<Longrightarrow> received d sv s s'"
    and "sm_state s = SMTP_STATE_TO \<Longrightarrow> smtp_send_to sdk s = Some s' \<Longrightarrow> received d sv s s'"
    and "sm_state s = SMTP_STATE_DATA \<Longrightarrow> smtp_send_data sdk s = Some s' \<Longrightarrow> received d sv s s'"
    and "sm_state s = SMTP_STATE_QUIT \<Longrightarrow> smtp_send_quit sdk s = Some s' \<Longrightarrow> received d sv s s'"
proof -
  show "sm_state s = SMTP_STATE_AUTH \<Longrightarrow> smtp_send_auth sdk s = Some s' \<Longrightarrow> received d sv s s'"
    unfolding smtp_send_auth_def
    by (rule reply_proto [OF assms, where st = SMTP_STATE_FROM], simp, assumption, erule cut_command)
      (use smtp_wf_fields in \<open>fastforce simp: c_strlen_def ascii_def intro: smtp_says.mail_from [unfolded ascii_def, simplified]\<close>)+
  show "sm_state s = SMTP_STATE_FROM \<Longrightarrow> smtp_send_from sdk s = Some s' \<Longrightarrow> received d sv s s'"
    unfolding smtp_send_from_def
    by (rule reply_proto [OF assms, where st = SMTP_STATE_TO], simp, assumption, erule cut_command)
      (use smtp_wf_fields in \<open>fastforce simp: c_strlen_def ascii_def intro: smtp_says.rcpt_to [unfolded ascii_def, simplified]\<close>)+
  show "sm_state s = SMTP_STATE_TO \<Longrightarrow> smtp_send_to sdk s = Some s' \<Longrightarrow> received d sv s s'"
    unfolding smtp_send_to_def
    by (rule reply_proto [OF assms, where st = SMTP_STATE_DATA], simp, assumption, erule plain_command)
      (auto simp: smtp_says.data, simp_all add: ascii_def)
  show "sm_state s = SMTP_STATE_QUIT \<Longrightarrow> smtp_send_quit sdk s = Some s' \<Longrightarrow> received d sv s s'"
    unfolding smtp_send_quit_def
    by (rule reply_proto [OF assms, where st = SMTP_STATE_CLOSE], simp, assumption, erule plain_command)
      (auto simp: smtp_says.quit, simp_all add: ascii_def)
  have l: "length (smtp_mail s) = 6 + c_strlen (sm_from s) + 6 + c_strlen (sm_to s) + 11 + c_strlen (sm_subj s) + 4 + c_strlen (sm_body s) + 5" for s
    by (simp add: smtp_mail_def c_strlen_def ascii_def)
  moreover have "length (smtp_mail s) \<le> 1023" if "smtp_wf s" for s using smtp_wf_fields [OF that] by (simp add: l)
  moreover have "smtp_says sv SMTP_STATE_QUIT (smtp_mail s)" for s unfolding smtp_mail_def by (rule smtp_says.mail)
  ultimately show "sm_state s = SMTP_STATE_DATA \<Longrightarrow> smtp_send_data sdk s = Some s' \<Longrightarrow> received d sv s s'"
    unfolding smtp_send_data_def
    by - (rule reply_proto [OF assms, where st = SMTP_STATE_QUIT], simp, assumption, erule plain_command, simp_all)
qed

lemma close_proto:
  assumes "smtp_send_close s = Some s'" "sm_state s = SMTP_STATE_CLOSE"
  shows "received d sv s s'"
proof -
  have "sm_net s' = sm_net s \<and> (sm_state s' = sm_state s \<or> sm_state s' = SMTP_STATE_FAILED \<or> sm_state s' = SMTP_STATE_READY)"
    using assms(1) by (auto simp: smtp_send_close_def smtp_reply_def smtp_fail_def split: option.splits if_splits dest: smtp_take_frame)
  then show ?thesis using assms(2) smtp_proto.close by (auto intro: proto_same proto_stepI [of _ _ "[]"])
qed

lemma recv_proto:
  assumes "server_wf sv" "length (md5_buf m0) = 64" "length chal0 = 128" "length right0 = 256"
    and "smtp_wf s" "smtp_send_recv_cb sdk sv m0 chal0 right0 data s = Some s'"
  shows "received d sv s s'"
proof (cases "unat (sm_inbufused s) + length data \<ge> 2048")
  case True
  then show ?thesis using assms(5,6) by (auto simp: smtp_send_recv_cb_def smtp_wf_def proto_fail)
next
  case False
  have b: "length (sm_inbuf s) = 2048" using assms(5) by (simp add: smtp_wf_def)
  define s1 where "s1 = smtp_arrive data s"
  have w: "smtp_wf s1" using smtp_arrive(1) [OF assms(5)] False by (simp add: s1_def)
  have f: "sm_state s1 = sm_state s" "sm_net s1 = sm_net s" by (simp_all add: s1_def smtp_arrive_def)
  have "received d sv s1 s'"
    using assms(6) b False f(1) greet_proto [of sdk s1 s'] challenge_proto [OF assms(1-4) w, of sdk s'] commands_proto [OF w, of sdk s'] close_proto [of s1 s']
      proto_same [of s1 s1]
    unfolding smtp_send_recv_cb_def Let_def smtp_arrive_def [symmetric] s1_def [symmetric] by (cases "sm_state s") simp_all
  then show ?thesis by (simp add: proto_step_def f)
qed

lemma connect_proto:
  "sm_state (smtp_send_connect sdk sv ip s) = SMTP_STATE_FAILED \<and> sm_net (smtp_send_connect sdk sv ip s) = sm_net s \<or>
   sm_state (smtp_send_connect sdk sv ip s) = SMTP_STATE_CONNECT \<and> (\<exists>a. sm_net (smtp_send_connect sdk sv ip s) = sm_net s @ [Connect a (sv_port sv)])"
  by (simp add: smtp_send_connect_def Let_def smtp_net_def)

lemma send_proto: "proto_step By_caller sv s (smtp_send sdk sv from to subj body s)"
proof (cases "c_strlen (sv_host sv) = 0 \<or> sm_state s \<noteq> SMTP_STATE_READY \<or> smtp_copy (sm_from s) from = None \<or> smtp_copy (sm_to s) to = None \<or>
    smtp_copy (sm_subj s) subj = None \<or> smtp_copy (sm_body s) body = None")
  case True
  then show ?thesis by (intro proto_stepI [where cs = "[]"]) (auto simp: smtp_send_def Let_def smtp_proto.refuse split: option.split)
next
  case False
  then obtain b1 b2 b3 b4 where b: "smtp_copy (sm_from s) from = Some b1" "smtp_copy (sm_to s) to = Some b2"
    "smtp_copy (sm_subj s) subj = Some b3" "smtp_copy (sm_body s) body = Some b4" by auto
  define s4 where "s4 = smtp_net (Resolve (cstr (sv_host sv))) (s\<lparr>sm_from := b1, sm_to := b2, sm_subj := b3, sm_body := b4, sm_state := SMTP_STATE_RESOLVE\<rparr>)"
  have n: "sm_net s4 = sm_net s @ [Resolve (cstr (sv_host sv))]" "sm_state s4 = SMTP_STATE_RESOLVE" by (simp_all add: s4_def smtp_net_def)
  have e: "smtp_send sdk sv from to subj body s = (case sdk_dns sdk of Dns_ok ip \<Rightarrow> smtp_send_connect sdk sv ip s4 | Dns_inprogress \<Rightarrow> s4 | Dns_failed \<Rightarrow> s4\<lparr>sm_state := SMTP_STATE_FAILED\<rparr>)"
    unfolding s4_def using False b by (simp add: smtp_send_def Let_def split: dns_result.split)
  have r: "sm_state s = SMTP_STATE_READY" using False by simp
  show ?thesis unfolding e proto_step_def r using n connect_proto [of sdk sv _ s4]
    by (cases "sdk_dns sdk") (fastforce intro: smtp_proto.intros)+
qed

lemma dns_proto: "proto_step By_dns sv s (smtp_send_dns sdk sv ip s)"
proof (cases ip)
  case None
  then show ?thesis by (intro proto_stepI [where cs = "[]"]) (simp_all add: smtp_send_dns_def smtp_proto.no_address)
next
  case (Some a)
  then show ?thesis using connect_proto [of sdk sv a s] unfolding proto_step_def smtp_send_dns_def
    by (auto intro: smtp_proto.no_address smtp_proto.connect)
qed

lemma conn_proto: "proto_step By_connect sv s (smtp_send_conn_cb sdk s)"
  unfolding proto_step_def smtp_send_conn_cb_def Let_def
  by (auto simp: smtp_fail_def smtp_net_def intro: smtp_proto.unheard smtp_proto.greet smtp_says.ehlo)

lemma kill_proto: "proto_step By_timer sv s (smtp_send_kill arg (s\<lparr>sm_timer := None\<rparr>))"
  by (rule proto_stepI [where cs = "[Disconnect arg, Delete arg]"]) (simp_all add: smtp_send_kill_def smtp_net_def smtp_proto.kill)

lemma step_proto: "smtp_step c sv s s' \<Longrightarrow> server_wf sv \<Longrightarrow> smtp_wf s \<Longrightarrow> proto_step c sv s s'"
  by (induction rule: smtp_step.induct) (blast intro: send_proto dns_proto conn_proto recv_proto kill_proto)+

section \<open>Property\<close>

text \<open>
  C14: the mail client refines its protocol. In every run, with callbacks at any time, data in any pieces and accounts that change,
  the calls to the network are, in their order, a trace of the protocol automaton with the same causes and accounts that ends in the
  client's state: a mail is looked up and connected for in the ready state only, or by the DNS callback; the greeting is
  sent by the connect callback; every other command is sent on receipt of data, on entering its state and with its
  exact form. So in a dialogue, and in particular when the mail itself is sent, the last things sent are the commands of the
  dialogue up to there, each once and in order from the greeting on, the CRAM-MD5 response among them.
\<close>

theorem smtp_refines_protocol:
  assumes "smtp_run h smtp_state0 s"
  shows "smtp_trace h (sm_net s) (sm_state s) \<and> said (snd ` set h) (sm_state s) (sm_net s)"
proof -
  have "smtp_trace h (sm_net s) (sm_state s)" if "s0 = smtp_state0" "smtp_run h s0 s" for s0
    using that(2,1)
  proof (induction rule: smtp_run.induct)
    case (start s0)
    then show ?case by (simp add: smtp_state0_def smtp_trace.empty)
  next
    case (step h s0 s1 sv c s2)
    have "smtp_wf s1" using smtp_run_wf [OF step(1)] step.prems smtp_wf_init by simp
    then have "proto_step c sv s1 s2" using step_proto step(2,3) by blast
    then show ?case using smtp_trace.step [OF step.IH] step.prems by (auto simp: proto_step_def)
  qed
  then show ?thesis using assms smtp_trace_said by blast
qed

theorem smtp_refines_protocol_witness:
  "smtp_trace [(By_caller, demo_server), (By_dns, demo_server), (By_connect, demo_server)]
     [Resolve (ascii ''mx''), Connect [1, 0, 0, 0] (sv_port demo_server), Send (ascii ''ehlo [127.0.1.1]'' @ crlf)] SMTP_STATE_GREET"
proof -
  define s1 where "s1 = smtp_send ((sdk_good 1)\<lparr>sdk_dns := Dns_inprogress\<rparr>) demo_server (ascii ''a'') (ascii ''b'') [] [] smtp_state0"
  define s2 where "s2 = smtp_send_dns (sdk_good 1) demo_server (Some 1) s1"
  define s3 where "s3 = smtp_send_conn_cb (sdk_good 1) s2"
  have "smtp_step By_caller demo_server smtp_state0 s1" unfolding s1_def by (rule smtp_step.send) (simp add: ascii_def)
  then have "smtp_run [(By_caller, demo_server)] smtp_state0 s1" using smtp_run.step [OF smtp_run.start demo_server(1)] by fastforce
  from smtp_run.step [OF this demo_server(1) smtp_step.dns, of "sdk_good 1" "Some 1"]
  have "smtp_run [(By_caller, demo_server), (By_dns, demo_server)] smtp_state0 s2" by (simp add: s2_def)
  from smtp_run.step [OF this demo_server(1) smtp_step.conn, of "sdk_good 1"]
  have r: "smtp_run [(By_caller, demo_server), (By_dns, demo_server), (By_connect, demo_server)] smtp_state0 s3" by (simp add: s3_def)
  have "sm_net s1 = [Resolve (ascii ''mx'')]" using demo_server(2)
    by (simp add: s1_def smtp_send_def smtp_copy_def smtp_state0_def Let_def smtp_net_def c_strlen_def ascii_def)
  then have "sm_net s3 = [Resolve (ascii ''mx''), Connect [1, 0, 0, 0] (sv_port demo_server), Send (ascii ''ehlo [127.0.1.1]'' @ crlf)]"
    "sm_state s3 = SMTP_STATE_GREET"
    by (simp_all add: s3_def s2_def smtp_send_dns_def smtp_send_connect_def smtp_send_conn_cb_def sdk_good_def smtp_net_def)
  then show ?thesis using smtp_refines_protocol [OF r] by simp
qed

end
