(* ===== verification/Http_Base.thy ===== *)
theory Http_Base
  imports Log Smtp Sha256 Bigint
begin

text \<open>
  What the HTTP server's functions share, \<^verbatim>\<open>src/http/private.h\<close>: the client record, the output buffer,
  the state that the URL handlers reach, and the macros that may leave the enclosing function. A
  statement maps the state to \<open>Go\<close> (fall through), \<open>Return\<close> (return from the function) or
  \<open>Fault\<close> (access outside an array); a function body is a list of statements. Calls of the SDK
  are recorded in \<open>w_calls\<close>, oldest first; its results come from \<open>http_env\<close>. Log messages are
  left out.
\<close>

section \<open>Control flow\<close>

datatype 'w flow = Fault | Return int 'w | Go 'w

type_synonym 'w stm = "'w \<Rightarrow> 'w flow"

primrec block :: "'w stm list \<Rightarrow> 'w stm" where
  "block [] w = Go w"
| "block (s # ss) w = (case s w of Go w' \<Rightarrow> block ss w' | Return r w' \<Rightarrow> Return r w' | Fault \<Rightarrow> Fault)"

definition RETURN :: "int \<Rightarrow> 'w stm" where
  "RETURN r w = Return r w"

definition IF :: "('w \<Rightarrow> bool) \<Rightarrow> 'w stm list \<Rightarrow> 'w stm list \<Rightarrow> 'w stm" where
  "IF c a b w = (if c w then block a w else block b w)"

text \<open>The result of a function: every body returns.\<close>

definition result :: "'w flow \<Rightarrow> (int \<times> 'w) option" where
  "result f = (case f of Return r w \<Rightarrow> Some (r, w) | _ \<Rightarrow> None)"

section \<open>State\<close>

datatype http_st = HTTP_STATE_HEADERS | HTTP_STATE_POSTDATA | HTTP_STATE_RESPONSE

datatype http_method = HTTP_METHOD_GET | HTTP_METHOD_POST

record http_client =
  hc_inuse :: bool
  hc_conn :: nat
  hc_state :: http_st
  hc_method :: http_method
  hc_url :: "u8 list"
  hc_host :: "u8 list"
  hc_buf :: "u8 list"
  hc_bufused :: u16
  hc_postused :: u32
  hc_postlen :: u32

text \<open>A client record after \<^verbatim>\<open>os_bzero\<close>.\<close>

definition http_client0 :: http_client where
  "http_client0 = \<lparr>hc_inuse = False, hc_conn = 0, hc_state = HTTP_STATE_HEADERS, hc_method = HTTP_METHOD_GET,
     hc_url = replicate 256 0, hc_host = replicate 64 0, hc_buf = replicate 2048 0, hc_bufused = 0,
     hc_postused = 0, hc_postlen = 0\<rparr>"

record ota_state =
  ota_client :: "nat option"
  ota_sha256 :: sha256_state
  ota_hash1 :: "u8 list"
  ota_hash2 :: "u8 list"
  ota_newaddr_beg :: u32
  ota_newaddr_cur :: u32
  ota_appsize :: u32
  ota_secbuf :: "u8 list"
  ota_secused :: u16
  ota_hash3 :: "u8 list"

type_synonym flash = "nat \<Rightarrow> u8"

datatype http_call =
    Espconn_send nat "u8 list"
  | Recv_hold nat
  | Recv_unhold nat
  | Arm_reset nat
  | Arm_smtp_param nat
  | Arm_ota_reboot nat
  | Wifi_set_config "u8 list" "u8 list"
  | Wifi_disconnect
  | Wifi_connect
  | Upgrade_flag_finish
  | System_restart
  | System_upgrade_reboot

text \<open>
  The client that a handler works on is \<open>w_client\<close>, with the number \<open>w_id\<close> of its slot; the other
  fields are the variables that the handlers share. The big integers are the store of the RSA
  component.
\<close>

record http_world =
  w_client :: http_client
  w_id :: nat
  w_outbuf :: "u8 list"
  w_outbuflen :: nat
  w_log :: log_buf
  w_levels :: log_levels
  w_uptime :: uptime_state
  w_smtp :: smtp_server
  w_ota :: ota_state
  w_store :: store
  w_flash :: flash
  w_calls :: "http_call list"

text \<open>
  The SDK's answers during one call of a handler. The flash operations take a sector number or an
  address; \<open>None\<close> is a result other than \<^verbatim>\<open>SPI_FLASH_RESULT_OK\<close>. \<open>env_build\<close> is the build date that
  the compiler inserts, and the sizes are those of the arrays in the SDK's \<^verbatim>\<open>struct station_config\<close>.
\<close>

record http_env =
  env_time :: u32
  env_build :: "u8 list"
  env_userbin_check :: u8
  env_userbin_addr :: u32
  env_flash_map :: flash_size_map
  env_ssid_size :: nat
  env_password_size :: nat
  env_wifi_set_config :: bool
  env_erase :: "nat \<Rightarrow> flash \<Rightarrow> flash option"
  env_write :: "nat \<Rightarrow> u8 list \<Rightarrow> flash \<Rightarrow> flash option"
  env_read :: "nat \<Rightarrow> nat \<Rightarrow> flash \<Rightarrow> u8 list option"

type_synonym http_stm = "http_world stm"

definition call :: "http_call \<Rightarrow> http_stm" where
  "call c w = Go (w\<lparr>w_calls := w_calls w @ [c]\<rparr>)"

section \<open>Macros\<close>

definition HTTP_IGNORE_POSTDATA :: http_stm where
  "HTTP_IGNORE_POSTDATA w =
     (let c = w_client w in
      if hc_state c = HTTP_STATE_POSTDATA then
        let len = min (ucast (hc_bufused c)) (hc_postlen c - hc_postused c) :: u32;
            c1 = c\<lparr>hc_postused := hc_postused c + len,
                   hc_buf := patch (hc_buf c) 0 (take (unat (hc_bufused c) - unat len) (drop (unat len) (hc_buf c))),
                   hc_bufused := hc_bufused c - ucast len\<rparr>
        in if hc_postused c1 = hc_postlen c1 then Go (w\<lparr>w_client := c1\<lparr>hc_state := HTTP_STATE_RESPONSE\<rparr>\<rparr>)
           else Return 0 (w\<lparr>w_client := c1\<rparr>)
      else Go w)"

text \<open>\<open>src\<close> is a C string; it is stored with its NUL.\<close>

definition HTTP_OUTBUF_APPEND :: "u8 list \<Rightarrow> http_stm" where
  "HTTP_OUTBUF_APPEND src w =
     (if length src \<ge> length (w_outbuf w) - w_outbuflen w then Return 0 w
      else Go (w\<lparr>w_outbuf := patch (w_outbuf w) (w_outbuflen w) (src @ [0]),
                 w_outbuflen := w_outbuflen w + length src\<rparr>))"

definition HTTP_OUTBUF_PRINTF :: "u8 list \<Rightarrow> http_stm" where
  "HTTP_OUTBUF_PRINTF body w =
     (if length body \<ge> 128 then Return 0 w
      else if length body \<ge> length (w_outbuf w) - w_outbuflen w then Return 0 w
      else Go (w\<lparr>w_outbuf := patch (w_outbuf w) (w_outbuflen w) (body @ [0]),
                 w_outbuflen := w_outbuflen w + length body\<rparr>))"

text \<open>\<^verbatim>\<open>espconn_send(client->conn, http_outbuf, http_outbuflen)\<close>; a failure is only logged.\<close>

definition SEND :: http_stm where
  "SEND w = call (Espconn_send (hc_conn (w_client w)) (take (w_outbuflen w) (w_outbuf w))) w"

text \<open>
  The way the handlers with a variable body end: \<^verbatim>\<open>os_snprintf(http_outbuf+77, 5, "%4u", end-beg)\<close> and
  \<^verbatim>\<open>http_outbuf[81] = '\r'\<close>.
\<close>

definition PATCH_LENGTH :: "nat \<Rightarrow> http_stm" where
  "PATCH_LENGTH beg w =
     (let b1 = patch (w_outbuf w) 77 (c_snprintf (take 5 (drop 77 (w_outbuf w))) (fmt_pu 4 (w_outbuflen w - beg)))
      in Go (w\<lparr>w_outbuf := b1[81 := 13]\<rparr>))"

text \<open>Source lines that end in \<^verbatim>\<open>\r\n\<close> and in \<^verbatim>\<open>\n\<close>.\<close>

definition rn :: "string \<Rightarrow> u8 list" where
  "rn s = ascii s @ [13, 10]"

definition nl :: "string \<Rightarrow> u8 list" where
  "nl s = ascii s @ [10]"

text \<open>The bytes that a string in \<^verbatim>\<open>client->url\<close> runs over: the arrays of the struct are adjacent.\<close>

definition url_mem :: "http_client \<Rightarrow> u8 list" where
  "url_mem c = hc_url c @ hc_host c @ hc_buf c"

definition url_has :: "string \<Rightarrow> http_world \<Rightarrow> bool" where
  "url_has needle w \<longleftrightarrow> c_strstr (cstr (url_mem (w_client w))) (ascii needle) \<noteq> None"

end
