(* ===== verification/Url_Decode.thy ===== *)
theory Url_Decode
  imports Prelude
begin

text \<open>
  Percent decoding, \<^verbatim>\<open>url_decode\<close> of \<^verbatim>\<open>src/http/utils.c\<close>: a table of escapes that is applied again and
  again, one occurrence per entry and turn, until none of them occurs. The function works in place:
  \<open>bs\<close> is the memory from the start of the string on and \<open>l\<close> the variable of that name, the bytes
  of the string with its NUL. \<open>None\<close> is a \<^verbatim>\<open>memmove\<close> of a negative size.
\<close>

section \<open>The code\<close>

definition url_map :: "(u8 list \<times> u8) list" where
  "url_map = map (\<lambda>(e, c). (ascii e, of_char c))
     ([(''%20'', CHR '' ''), (''%21'', CHR ''!''), (''%22'', CHR 0x22), (''%23'', CHR ''#''),
       (''%24'', CHR ''$''), (''%25'', CHR ''%''), (''%26'', CHR ''&''), (''%27'', CHR 0x27),
       (''%28'', CHR ''(''), (''%29'', CHR '')''), (''%2A'', CHR ''*''), (''%2a'', CHR ''*''),
       (''%2B'', CHR ''+''), (''%2b'', CHR ''+''), (''%2C'', CHR '',''), (''%2c'', CHR '','')] @
      [(''%2D'', CHR ''-''), (''%2d'', CHR ''-''), (''%2E'', CHR ''.''), (''%2e'', CHR ''.''),
       (''%2F'', CHR ''/''), (''%2f'', CHR ''/''), (''%3A'', CHR '':''), (''%3a'', CHR '':''),
       (''%3B'', CHR '';''), (''%3b'', CHR '';''), (''%3C'', CHR ''<''), (''%3c'', CHR ''<''),
       (''%3D'', CHR ''=''), (''%3d'', CHR ''=''), (''%3E'', CHR ''>''), (''%3e'', CHR ''>''),
       (''%3F'', CHR ''?''), (''%3f'', CHR ''?''), (''%40'', CHR ''@'')] @
      [(''%5B'', CHR ''[''), (''%5b'', CHR ''[''), (''%5C'', CHR 0x5c), (''%5c'', CHR 0x5c),
       (''%5D'', CHR '']''), (''%5d'', CHR '']''), (''%5E'', CHR ''^''), (''%5e'', CHR ''^''),
       (''%5F'', CHR ''_''), (''%5f'', CHR ''_''), (''%60'', CHR 0x60),
       (''%7B'', CHR ''{''), (''%7b'', CHR ''{''), (''%7C'', CHR ''|''), (''%7c'', CHR ''|''),
       (''%7D'', CHR ''}''), (''%7d'', CHR ''}''), (''%7E'', CHR ''~''), (''%7e'', CHR ''~'')])"

fun url_decode_entry :: "u8 list \<times> u8 \<Rightarrow> u8 list \<times> nat \<times> bool \<Rightarrow> (u8 list \<times> nat \<times> bool) option" where
  "url_decode_entry (enc, ch) (bs, l, f) =
     (case c_strstr (cstr bs) enc of
        None \<Rightarrow> Some (bs, l, f)
      | Some p \<Rightarrow>
          if l < p + 3 then None
          else Some (patch bs p (ch # take (l - (p + 3)) (drop (p + 3) bs)), l - 2, True))"

primrec url_decode_pass :: "(u8 list \<times> u8) list \<Rightarrow> u8 list \<times> nat \<times> bool \<Rightarrow> (u8 list \<times> nat \<times> bool) option" where
  "url_decode_pass [] st = Some st"
| "url_decode_pass (e # es) st = Option.bind (url_decode_entry e st) (url_decode_pass es)"

lemma url_decode_pass_less:
  "url_decode_pass es (bs, l, f) = Some (bs', l', f') \<Longrightarrow> l' \<le> l \<and> (f' \<longrightarrow> f \<or> l' < l)"
proof (induction es arbitrary: bs l f)
  case (Cons e es)
  obtain enc ch where e: "e = (enc, ch)" by fastforce
  show ?case
  proof (cases "c_strstr (cstr bs) enc")
    case None
    then have "url_decode_pass es (bs, l, f) = Some (bs', l', f')" using Cons.prems e by simp
    then show ?thesis by (rule Cons.IH)
  next
    case (Some p)
    then have "\<not> l < p + 3" using Cons.prems e by (auto split: if_splits)
    then have l: "url_decode_pass es (patch bs p (ch # take (l - (p + 3)) (drop (p + 3) bs)), l - 2, True) = Some (bs', l', f')"
      "2 < l" using Cons.prems e Some by auto
    then show ?thesis using Cons.IH [OF l(1)] by auto
  qed
qed simp

function url_decode_loop :: "u8 list \<Rightarrow> nat \<Rightarrow> u8 list option" where
  "url_decode_loop bs l =
     (case url_decode_pass url_map (bs, l, False) of
        None \<Rightarrow> None
      | Some (bs', l', f) \<Rightarrow> if f then url_decode_loop bs' l' else Some bs')"
  by pat_completeness auto
termination
  by (relation "measure snd") (auto dest: url_decode_pass_less)

declare url_decode_loop.simps [simp del]

definition url_decode :: "u8 list \<Rightarrow> u8 list option" where
  "url_decode bs = url_decode_loop bs (c_strlen bs + 1)"

section \<open>On strings\<close>

text \<open>The same on the string itself, without the memory around it.\<close>

fun dec_entry :: "u8 list \<times> u8 \<Rightarrow> u8 list \<times> bool \<Rightarrow> u8 list \<times> bool" where
  "dec_entry (enc, ch) (s, f) =
     (case c_strstr s enc of None \<Rightarrow> (s, f) | Some p \<Rightarrow> (take p s @ ch # drop (p + 3) s, True))"

definition dec_pass :: "(u8 list \<times> u8) list \<Rightarrow> u8 list \<times> bool \<Rightarrow> u8 list \<times> bool" where
  "dec_pass es st = fold dec_entry es st"

lemma url_map_wf: "\<forall>(enc, ch) \<in> set url_map. length enc = 3 \<and> enc ! 0 = 37 \<and> enc ! 1 \<noteq> 37 \<and> enc ! 2 \<noteq> 37 \<and> ch \<noteq> 0 \<and> 0 \<notin> set enc"
  by (simp add: url_map_def ascii_def)

lemma url_map_inj: "(enc, c) \<in> set url_map \<Longrightarrow> (enc, d) \<in> set url_map \<Longrightarrow> c = d"
proof -
  have "distinct (map fst url_map)" by (simp add: url_map_def ascii_def)
  then show "(enc, c) \<in> set url_map \<Longrightarrow> (enc, d) \<in> set url_map \<Longrightarrow> c = d" by (metis eq_key_imp_eq_value)
qed

text \<open>\<open>holds bs l s\<close>: the memory starts with the string \<open>s\<close>, and \<open>l\<close> counts it with its NUL.\<close>

definition dec_holds :: "u8 list \<Rightarrow> nat \<Rightarrow> u8 list \<Rightarrow> bool" where
  "dec_holds bs l s \<longleftrightarrow> l = length s + 1 \<and> 0 \<notin> set s \<and> (\<exists>r. bs = s @ 0 # r)"

lemma url_decode_entry_string:
  assumes "dec_holds bs l s" "length enc = 3" "ch \<noteq> 0"
  shows "\<exists>bs' l'. url_decode_entry (enc, ch) (bs, l, f) = Some (bs', l', snd (dec_entry (enc, ch) (s, f))) \<and>
    dec_holds bs' l' (fst (dec_entry (enc, ch) (s, f))) \<and> length bs' = length bs \<and> drop l bs' = drop l bs"
proof -
  obtain r where r: "bs = s @ 0 # r" "0 \<notin> set s" "l = length s + 1" using assms(1) by (auto simp: dec_holds_def)
  have c: "cstr bs = s" using r cstr_append by simp
  show ?thesis
  proof (cases "c_strstr s enc")
    case None
    then show ?thesis using c assms(1) by simp
  next
    case (Some p)
    then have p: "p + 3 \<le> length s" using c_strstr_Some assms(2) by fastforce
    define t where "t = take p s @ ch # drop (p + 3) s"
    have b: "patch bs p (ch # take (l - (p + 3)) (drop (p + 3) bs)) = t @ 0 # drop (length s - 1) (s @ 0 # r)"
    proof -
      have n: "l - (p + 3) = length (drop (p + 3) s) + 1" using p r(3) by simp
      have "take (l - (p + 3)) (drop (p + 3) bs) = drop (p + 3) s @ [0]"
        unfolding n using p by (simp add: r(1))
      moreover have "Suc (Suc (length s - 3)) = length s - Suc 0" using p by simp
      ultimately show ?thesis using p by (simp add: r(1) patch_def t_def)
    qed
    have "0 \<notin> set t" using r(2) assms(3) by (auto simp: t_def dest: in_set_takeD in_set_dropD)
    then have "dec_holds (t @ 0 # drop (length s - 1) (s @ 0 # r)) (l - 2) t"
      using p r(3) by (auto simp: dec_holds_def t_def)
    moreover have "drop l (t @ 0 # drop (length s - 1) (s @ 0 # r)) = drop l bs"
    proof -
      have n: "length (t @ [0]) = length s - 1" using p by (simp add: t_def)
      have d: "drop m (xs @ ys) = drop (m - length xs) ys" if "length xs \<le> m" for m and xs ys :: "u8 list"
        using that by simp
      have "drop l ((t @ [0]) @ drop (length s - 1) bs) = drop (l - (length s - 1)) (drop (length s - 1) bs)"
        by (subst d) (use n r(3) in simp_all)
      also have "\<dots> = drop l bs" using r(3) by simp
      finally show ?thesis by (simp add: r(1))
    qed
    ultimately show ?thesis using Some c p r b by (simp add: t_def)
  qed
qed

lemma url_decode_pass_string:
  assumes "dec_holds bs l s" "\<forall>(enc, ch) \<in> set es. length enc = 3 \<and> ch \<noteq> 0"
  shows "\<exists>bs' l'. url_decode_pass es (bs, l, f) = Some (bs', l', snd (dec_pass es (s, f))) \<and>
    dec_holds bs' l' (fst (dec_pass es (s, f))) \<and> length bs' = length bs \<and> drop l bs' = drop l bs"
  using assms
proof (induction es arbitrary: bs l s f)
  case (Cons e es)
  obtain enc ch where e: "e = (enc, ch)" by fastforce
  obtain s1 f1 where d: "dec_entry (enc, ch) (s, f) = (s1, f1)" by fastforce
  obtain bs1 l1 where 1: "url_decode_entry (enc, ch) (bs, l, f) = Some (bs1, l1, f1)" "dec_holds bs1 l1 s1"
      "length bs1 = length bs" "drop l bs1 = drop l bs"
    using url_decode_entry_string [OF Cons.prems(1), of enc ch f] Cons.prems(2) e d by auto
  obtain bs' l' where 2: "url_decode_pass es (bs1, l1, f1) = Some (bs', l', snd (dec_pass es (s1, f1)))"
      "dec_holds bs' l' (fst (dec_pass es (s1, f1)))" "length bs' = length bs1" "drop l1 bs' = drop l1 bs1"
    using Cons.IH [OF 1(2), of f1] Cons.prems(2) by auto
  have "l1 \<le> l" using 1(1) by (auto split: option.splits if_splits)
  then have "drop l bs' = drop l bs" using 1(4) 2(4) by (metis drop_drop le_add_diff_inverse2)
  then show ?case using 1 2 d by (simp add: e dec_pass_def)
qed (simp add: dec_pass_def)

function dec_loop :: "u8 list \<Rightarrow> u8 list" where
  "dec_loop s = (case dec_pass url_map (s, False) of (t, f) \<Rightarrow> if f \<and> length t < length s then dec_loop t else t)"
  by pat_completeness auto
termination
  by (relation "measure length") auto

declare dec_loop.simps [simp del]

lemma dec_pass_length:
  "dec_pass es (s, f) = (t, g) \<Longrightarrow> \<forall>(enc, ch) \<in> set es. length enc = 3 \<Longrightarrow> length t \<le> length s \<and> (g \<longrightarrow> f \<or> length t < length s)"
proof (induction es arbitrary: s f)
  case (Cons e es)
  obtain enc ch where e: "e = (enc, ch)" by fastforce
  show ?case
  proof (cases "c_strstr s enc")
    case None
    then show ?thesis using Cons e by (simp add: dec_pass_def)
  next
    case (Some p)
    then have "p + 3 \<le> length s" using c_strstr_Some Cons.prems(2) e by fastforce
    then show ?thesis using Cons.IH [of "take p s @ ch # drop (p + 3) s" True] Cons.prems Some e by (auto simp: dec_pass_def)
  qed
qed (simp add: dec_pass_def)

lemma dec_loop_unfold: "dec_loop s = (case dec_pass url_map (s, False) of (t, f) \<Rightarrow> if f then dec_loop t else t)"
proof -
  obtain t f where p: "dec_pass url_map (s, False) = (t, f)" by fastforce
  have "\<forall>(enc, ch) \<in> set url_map. length enc = 3" using url_map_wf by auto
  then have "f \<longrightarrow> length t < length s" using dec_pass_length [OF p] by auto
  then show ?thesis using p by (subst dec_loop.simps) simp
qed

lemma url_map_entries: "\<forall>(enc, ch) \<in> set url_map. length enc = 3 \<and> ch \<noteq> 0"
  using url_map_wf by fast

lemma url_decode_loop_string:
  "dec_holds bs l s \<Longrightarrow> \<exists>bs' l'. url_decode_loop bs l = Some bs' \<and> dec_holds bs' l' (dec_loop s) \<and>
     length bs' = length bs \<and> drop l bs' = drop l bs"
proof (induction bs l arbitrary: s rule: url_decode_loop.induct)
  case (1 bs l)
  obtain t f where p: "dec_pass url_map (s, False) = (t, f)" by fastforce
  obtain bs1 l1 where 2: "url_decode_pass url_map (bs, l, False) = Some (bs1, l1, f)" "dec_holds bs1 l1 t"
      "length bs1 = length bs" "drop l bs1 = drop l bs"
    using url_decode_pass_string [OF "1.prems" url_map_entries, of False] p by auto
  show ?case
  proof (cases f)
    case True
    from "1.IH" [OF 2(1) refl refl True 2(2)] obtain bs' l' where
      3: "url_decode_loop bs1 l1 = Some bs'" "dec_holds bs' l' (dec_loop t)" "length bs' = length bs1" "drop l1 bs' = drop l1 bs1" by blast
    have "l1 \<le> l" using url_decode_pass_less [OF 2(1)] by simp
    then have "drop l bs' = drop l bs" using 2(4) 3(4) by (metis drop_drop le_add_diff_inverse2)
    then show ?thesis using True 2 3 p by (subst url_decode_loop.simps, subst dec_loop_unfold) auto
  next
    case False
    then show ?thesis using 2 p by (subst url_decode_loop.simps, subst dec_loop_unfold) auto
  qed
qed

lemma url_decode_string:
  assumes "bs = s @ 0 # r" "0 \<notin> set s"
  shows "\<exists>r'. url_decode bs = Some (dec_loop s @ 0 # r') \<and> 0 \<notin> set (dec_loop s) \<and>
    length (dec_loop s @ 0 # r') = length bs \<and> drop (length s + 1) (dec_loop s @ 0 # r') = r"
proof -
  have h: "dec_holds bs (length s + 1) s" using assms by (auto simp: dec_holds_def)
  have l: "c_strlen bs + 1 = length s + 1" using assms cstr_append by (simp add: c_strlen_def)
  show ?thesis using url_decode_loop_string [OF h] assms(1) unfolding url_decode_def l by (auto simp: dec_holds_def)
qed

section \<open>Encoded texts\<close>

text \<open>
  A text as a browser encodes it, piece by piece: a piece is a character other than \<^verbatim>\<open>%\<close> and what
  stands for it, the character itself or one of its escapes.
\<close>

definition enc_piece :: "u8 list \<times> u8 \<Rightarrow> bool" where
  "enc_piece p \<longleftrightarrow> snd p \<noteq> 37 \<and> snd p \<noteq> 0 \<and> (fst p = [snd p] \<or> p \<in> set url_map)"

abbreviation enc_flat :: "(u8 list \<times> u8) list \<Rightarrow> u8 list" where
  "enc_flat ps \<equiv> concat (map fst ps)"

lemma length3: "length xs = 3 \<Longrightarrow> xs = [xs ! 0, xs ! 1, xs ! 2]"
  by (simp add: list_eq_iff_nth_eq All_less_Suc numeral_3_eq_3 numeral_2_eq_2)

lemma strstr_pieces:
  assumes "list_all enc_piece ps" "(enc, ch) \<in> set url_map" "c_strstr (enc_flat ps) enc = Some p"
  shows "\<exists>qs rs. ps = qs @ (enc, ch) # rs \<and> p = length (enc_flat qs)"
  using assms(1,3)
proof (induction ps arbitrary: p)
  case Nil
  have "length enc = 3" using assms(2) url_map_wf by auto
  then show ?case using Nil.prems(2) by (auto simp: c_strstr.simps split: if_splits)
next
  case (Cons x ps)
  obtain tx c where x: "x = (tx, c)" by fastforce
  have e: "length enc = 3" "enc ! 0 = 37" using assms(2) url_map_wf by auto
  have other: "c_strstr (b # bs) enc = map_option Suc (c_strstr bs enc)" if "b \<noteq> 37" for b bs
    using that e length3 [OF e(1)] by (subst c_strstr.simps) (auto simp: numeral_3_eq_3)
  have skip: "\<exists>qs rs. x # ps = qs @ (enc, ch) # rs \<and> p = length (enc_flat qs)"
    if k1: "c_strstr (enc_flat ps) enc = Some k" and k2: "p = length tx + k" for k
  proof -
    obtain qs rs where "ps = qs @ (enc, ch) # rs" "k = length (enc_flat qs)"
      using Cons.IH [OF _ k1] Cons.prems(1) by auto
    then show ?thesis using k2 x by (intro exI [of _ "x # qs"] exI [of _ rs]) simp
  qed
  show ?case
  proof (cases "x \<in> set url_map")
    case True
    then have t: "length tx = 3" "tx ! 0 = 37" "tx ! 1 \<noteq> 37" "tx ! 2 \<noteq> 37" using x url_map_wf by auto
    obtain a b where tx: "tx = [37, a, b]" "a \<noteq> 37" "b \<noteq> 37" using length3 [OF t(1)] t(2-4) by metis
    show ?thesis
    proof (cases "tx = enc")
      case True
      then have "c = ch" using \<open>x \<in> set url_map\<close> assms(2) x url_map_inj by blast
      moreover have "p = 0" using Cons.prems(2) True x e(1) by (subst (asm) c_strstr.simps) simp
      ultimately show ?thesis using True x by (intro exI [of _ "[]"] exI [of _ ps]) simp
    next
      case False
      have "take 3 (tx @ enc_flat ps) \<noteq> enc" using False t(1) by simp
      then have "c_strstr (tx @ enc_flat ps) enc = map_option Suc (c_strstr (tl tx @ enc_flat ps) enc)"
        using e(1) by (subst c_strstr.simps) (simp add: tx(1))
      also have "\<dots> = map_option (\<lambda>k. Suc (Suc (Suc k))) (c_strstr (enc_flat ps) enc)"
        using other tx(2,3) by (simp add: tx(1) option.map_comp comp_def)
      finally obtain k where "c_strstr (enc_flat ps) enc = Some k" "p = length tx + k"
        using Cons.prems(2) x t(1) by auto
      then show ?thesis by (rule skip)
    qed
  next
    case False
    then have "tx = [c]" "c \<noteq> 37" using Cons.prems(1) x by (auto simp: enc_piece_def)
    then show ?thesis using Cons.prems(2) x other skip by auto
  qed
qed

definition escapes :: "(u8 list \<times> u8) list \<Rightarrow> nat" where
  "escapes ps = length (filter (\<lambda>p. p \<in> set url_map) ps)"

lemma raw_not_escape: "([c], d) \<notin> set url_map"
  using url_map_wf by auto

lemma dec_pass_pieces:
  assumes "list_all enc_piece ps" "set es \<subseteq> set url_map" "dec_pass es (enc_flat ps, f) = (t, g)"
  shows "\<exists>qs. t = enc_flat qs \<and> list_all enc_piece qs \<and> map snd qs = map snd ps \<and> escapes qs \<le> escapes ps \<and>
    (\<not> g \<longrightarrow> \<not> f \<and> (\<forall>(enc, ch) \<in> set es. (enc, ch) \<notin> set ps)) \<and> (g \<longrightarrow> f \<or> escapes qs < escapes ps)"
  using assms
proof (induction es arbitrary: ps f)
  case Nil
  then show ?case by (auto simp: dec_pass_def)
next
  case (Cons e es)
  obtain enc ch where e: "e = (enc, ch)" "(enc, ch) \<in> set url_map" using Cons.prems(2) by (cases e) auto
  show ?case
  proof (cases "c_strstr (enc_flat ps) enc")
    case None
    have "(enc, ch) \<notin> set ps"
    proof
      assume "(enc, ch) \<in> set ps"
      then obtain qs rs where "ps = qs @ (enc, ch) # rs" by (metis split_list)
      then have "\<exists>j \<le> length (enc_flat qs). c_strstr (enc_flat ps) enc = Some j" by (intro c_strstr_exists) simp_all
      then show False using None by simp
    qed
    moreover have "dec_pass es (enc_flat ps, f) = (t, g)" using Cons.prems(3) None e by (simp add: dec_pass_def)
    ultimately show ?thesis using Cons.IH [OF Cons.prems(1)] Cons.prems(2) e by auto
  next
    case (Some p)
    obtain qs rs where q: "ps = qs @ (enc, ch) # rs" "p = length (enc_flat qs)"
      using strstr_pieces [OF Cons.prems(1) e(2) Some] by blast
    define ps' where "ps' = qs @ ([ch], ch) # rs"
    have len: "length enc = 3" using e(2) url_map_wf by auto
    have "dec_entry (enc, ch) (enc_flat ps, f) = (enc_flat ps', True)"
      using Some len unfolding q by (simp add: ps'_def)
    then have d: "dec_pass es (enc_flat ps', True) = (t, g)" using Cons.prems(3) e by (simp add: dec_pass_def)
    have "enc_piece ([ch], ch)" using Cons.prems(1) by (auto simp: q(1) enc_piece_def [of "(enc, ch)"] enc_piece_def [of "([ch], ch)"])
    then have w: "list_all enc_piece ps'" using Cons.prems(1) by (simp add: q(1) ps'_def)
    have n: "escapes ps' < escapes ps" using e(2) raw_not_escape by (simp add: escapes_def q(1) ps'_def)
    obtain us where "t = enc_flat us" "list_all enc_piece us" "map snd us = map snd ps'" "escapes us \<le> escapes ps'" "g"
      using Cons.IH [OF w _ d] Cons.prems(2) by auto
    then show ?thesis using n by (intro exI [of _ us]) (simp add: q(1) ps'_def)
  qed
qed

lemma dec_loop_pieces: "list_all enc_piece ps \<Longrightarrow> dec_loop (enc_flat ps) = map snd ps"
proof (induction "escapes ps" arbitrary: ps rule: less_induct)
  case less
  obtain t g where d: "dec_pass url_map (enc_flat ps, False) = (t, g)" by fastforce
  from dec_pass_pieces [OF less.prems _ d] obtain qs where
    q: "t = enc_flat qs" "list_all enc_piece qs" "map snd qs = map snd ps" "escapes qs \<le> escapes ps"
      "\<not> g \<longrightarrow> (\<forall>(enc, ch) \<in> set url_map. (enc, ch) \<notin> set ps)" "g \<longrightarrow> escapes qs < escapes ps" by auto
  show ?case
  proof (cases g)
    case True
    then show ?thesis using d q less.hyps [of qs] by (subst dec_loop_unfold) simp
  next
    case False
    have "p \<notin> set url_map" if "p \<in> set ps" for p using q(5) False that by (cases p) auto
    then have "\<forall>p \<in> set ps. fst p = [snd p]" using less.prems by (auto simp: list_all_iff enc_piece_def)
    then have "enc_flat ps = map snd ps" by (induction ps) auto
    moreover have "t = enc_flat ps"
    proof -
      have n: "c_strstr (enc_flat ps) enc = None" if "(enc, ch) \<in> set url_map" for enc ch
        using strstr_pieces [OF less.prems that] \<open>\<And>p. p \<in> set ps \<Longrightarrow> p \<notin> set url_map\<close> that by (cases "c_strstr (enc_flat ps) enc") auto
      have "dec_pass es (enc_flat ps, f) = (enc_flat ps, f)" if "set es \<subseteq> set url_map" for es f
        using that n by (induction es) (auto simp: dec_pass_def)
      then show ?thesis using d by simp
    qed
    ultimately show ?thesis using d False by (subst dec_loop_unfold) simp
  qed
qed

section \<open>Properties\<close>

text \<open>
  \<^verbatim>\<open>url_decode\<close> undoes percent encoding. For every text without \<^verbatim>\<open>%\<close> and NUL, each character written as
  itself or as one of the escapes of the table, the call ends, the string in memory is the text,
  and the memory behind the original string is untouched.
\<close>

theorem url_decode_roundtrip:
  assumes "list_all enc_piece ps"
  shows "\<exists>r'. url_decode (concat (map fst ps) @ 0 # r) = Some (map snd ps @ 0 # r') \<and>
    drop (length (concat (map fst ps)) + 1) (map snd ps @ 0 # r') = r"
proof -
  have "0 \<notin> set (concat (map fst ps))" using assms url_map_wf by (fastforce simp: list_all_iff enc_piece_def)
  from url_decode_string [OF refl this] show ?thesis using dec_loop_pieces [OF assms] by auto
qed

lemma url_decode_roundtrip_witness:
  "\<exists>r'. url_decode (ascii ''a%20b%2Bc'' @ 0 # [7]) = Some (ascii ''a b+c'' @ 0 # r')"
proof -
  let ?ps = "[(ascii ''a'', 97), (ascii ''%20'', 32), (ascii ''b'', 98), (ascii ''%2B'', 43), (ascii ''c'', 99)]"
  have "list_all enc_piece ?ps" by (simp add: enc_piece_def url_map_def ascii_def)
  from url_decode_roundtrip [OF this, of "[7]"] show ?thesis by (auto simp: ascii_def)
qed

text \<open>
  C27: decoding is repeated until nothing is left to decode. On every string the call ends, and no escape
  of the table occurs in the result, which is why an encoded \<^verbatim>\<open>%\<close> does not protect what follows it:
  \<^verbatim>\<open>%2520\<close>, the encoding of the three characters \<^verbatim>\<open>%20\<close>, decodes to a blank.
\<close>

theorem url_decode_exhaustive:
  assumes "0 \<notin> set s"
  shows "\<exists>t r'. url_decode (s @ 0 # r) = Some (t @ 0 # r') \<and> 0 \<notin> set t \<and> length t \<le> length s \<and>
    (\<forall>(enc, ch) \<in> set url_map. c_strstr t enc = None)"
proof -
  have "length (dec_loop s) \<le> length s \<and> (\<forall>(enc, ch) \<in> set url_map. c_strstr (dec_loop s) enc = None)" for s
  proof (induction s rule: dec_loop.induct)
    case (1 s)
    obtain t f where p: "dec_pass url_map (s, False) = (t, f)" by fastforce
    have l: "length t \<le> length s \<and> (f \<longrightarrow> length t < length s)" using dec_pass_length [OF p] url_map_wf by auto
    have same: "dec_pass es (u, g) = (v, False) \<Longrightarrow> \<not> g \<and> v = u \<and> (\<forall>(enc, ch) \<in> set es. c_strstr u enc = None)" for es u g v
    proof (induction es arbitrary: u g)
      case (Cons e es)
      obtain enc ch where e: "e = (enc, ch)" by fastforce
      show ?case using Cons e by (cases "c_strstr u enc") (auto simp: dec_pass_def)
    qed (simp add: dec_pass_def)
    show ?case
    proof (cases f)
      case True
      then show ?thesis using "1.IH" [OF p [symmetric]] p l by (subst (1 2) dec_loop_unfold) auto
    next
      case False
      then show ?thesis using same [of url_map s False t] p by (subst (1 2) dec_loop_unfold) auto
    qed
  qed
  then show ?thesis using url_decode_string [OF refl assms, of r] by blast
qed

lemma url_decode_exhaustive_witness:
  "\<exists>r'. url_decode (ascii ''%2520'' @ 0 # []) = Some (ascii '' '' @ 0 # r')"
proof -
  have z: "0 \<notin> set (ascii ''%2520'')" by (simp add: ascii_def)
  have d: "dec_loop (ascii ''%2520'') = ascii '' ''" by code_simp
  obtain t r' where t: "url_decode (ascii ''%2520'' @ 0 # []) = Some (t @ 0 # r')" "0 \<notin> set t"
    using url_decode_exhaustive [OF z, of "[]"] by blast
  moreover obtain r2 where "t @ 0 # r' = ascii '' '' @ 0 # r2" using url_decode_string [OF refl z, of "[]"] t(1) d by auto
  then have "cstr (t @ 0 # r') = cstr (ascii '' '' @ 0 # r2)" by simp
  then have "t = ascii '' ''" using cstr_append [OF t(2)] by (simp add: cstr_def ascii_def)
  ultimately show ?thesis by blast
qed

end
