(* ===== verification/Http_Pages.thy ===== *)
theory Http_Pages
  imports Http_Base Url_Decode
begin

text \<open>
  The URL handlers but the update: \<^verbatim>\<open>src/http/urls.c\<close> (not found, blank), \<^verbatim>\<open>url_info.c\<close> (uptime, version),
  \<^verbatim>\<open>url_reset.c\<close>, \<^verbatim>\<open>url_logs.c\<close> (log page, levels), \<^verbatim>\<open>url_wifi.c\<close> and \<^verbatim>\<open>url_smtp.c\<close> (setup forms) and the
  page \<^verbatim>\<open>/ota/bin\<close> of \<^verbatim>\<open>url_ota.c\<close>. Statement lists that several handlers repeat are definitions.
\<close>

section \<open>Fixed pages\<close>

definition page_404 :: "http_stm list" where
  "page_404 =
     [HTTP_OUTBUF_APPEND (rn ''HTTP/1.1 404 Not Found''),
      HTTP_OUTBUF_APPEND (rn ''Connection: close''),
      HTTP_OUTBUF_APPEND (rn ''Content-type: text/html''),
      HTTP_OUTBUF_APPEND (rn ''Content-length: 49''),
      HTTP_OUTBUF_APPEND (rn ''''),
      HTTP_OUTBUF_APPEND (nl ''<html><body><h1>404 Not Found</h1></body></html>''),
      SEND,
      RETURN 1]"

definition http_url_404 :: http_stm where
  "http_url_404 = block (HTTP_IGNORE_POSTDATA # page_404)"

definition http_url_blank :: http_stm where
  "http_url_blank = block
     [HTTP_IGNORE_POSTDATA,
      HTTP_OUTBUF_APPEND (rn ''HTTP/1.1 200 OK''),
      HTTP_OUTBUF_APPEND (rn ''Connection: close''),
      HTTP_OUTBUF_APPEND (rn ''Content-type: text/html''),
      HTTP_OUTBUF_APPEND (rn ''Content-length: 27''),
      HTTP_OUTBUF_APPEND (rn ''''),
      HTTP_OUTBUF_APPEND (nl ''<html><body></body></html>''),
      SEND,
      RETURN 1]"

definition page_202 :: "http_stm list" where
  "page_202 =
     [HTTP_OUTBUF_APPEND (rn ''HTTP/1.1 202 Accepted''),
      HTTP_OUTBUF_APPEND (rn ''Connection: close''),
      HTTP_OUTBUF_APPEND (rn ''Content-type: text/html''),
      HTTP_OUTBUF_APPEND (rn ''Content-length: 48''),
      HTTP_OUTBUF_APPEND (rn ''''),
      HTTP_OUTBUF_APPEND (nl ''<html><body><h1>202 Accepted</h1></body></html>''),
      SEND]"

definition page_200 :: "http_stm list" where
  "page_200 =
     [HTTP_OUTBUF_APPEND (rn ''HTTP/1.1 200 OK''),
      HTTP_OUTBUF_APPEND (rn ''Connection: close''),
      HTTP_OUTBUF_APPEND (rn ''Content-type: text/html''),
      HTTP_OUTBUF_APPEND (rn ''Content-length: 42''),
      HTTP_OUTBUF_APPEND (rn ''''),
      HTTP_OUTBUF_APPEND (nl ''<html><body><h1>200 OK</h1></body></html>''),
      SEND]"

definition page_400 :: "http_stm list" where
  "page_400 =
     [HTTP_OUTBUF_APPEND (rn ''HTTP/1.1 400 Bad Request''),
      HTTP_OUTBUF_APPEND (rn ''Connection: close''),
      HTTP_OUTBUF_APPEND (rn ''Content-type: text/html''),
      HTTP_OUTBUF_APPEND (rn ''Content-length: 51''),
      HTTP_OUTBUF_APPEND (rn ''''),
      HTTP_OUTBUF_APPEND (nl ''<html><body><h1>400 Bad Request</h1></body></html>''),
      SEND]"

definition http_url_reset :: http_stm where
  "http_url_reset = block ([HTTP_IGNORE_POSTDATA] @ page_202 @ [call (Arm_reset 5000), RETURN 1])"

text \<open>The timer function that the reset page arms.\<close>

definition reset :: http_stm where
  "reset = call System_restart"

section \<open>Pages of variable length\<close>

text \<open>The header with a placeholder for the length, then the body, then the length.\<close>

definition variable_page :: "http_stm list \<Rightarrow> http_stm list" where
  "variable_page body =
     [HTTP_OUTBUF_APPEND (rn ''HTTP/1.1 200 OK''),
      HTTP_OUTBUF_APPEND (rn ''Connection: close''),
      HTTP_OUTBUF_APPEND (rn ''Content-type: text/html''),
      HTTP_OUTBUF_APPEND (rn ''Content-length: xxxx''),
      HTTP_OUTBUF_APPEND (rn ''''),
      \<lambda>w. let beg = w_outbuflen w in block (body @ [PATCH_LENGTH beg, SEND, RETURN 1]) w]"

definition http_url_uptime :: "http_env \<Rightarrow> http_stm" where
  "http_url_uptime env w =
     (let uptime_secs = uptime_us (w_uptime w) (env_time env) div 1000000;
          days = (ucast (uptime_secs div (60*60*24)) :: u32);
          hours = (ucast ((uptime_secs mod (60*60*24)) div (60*60)) :: u8);
          mins = (ucast (((uptime_secs mod (60*60*24)) mod (60*60)) div 60) :: u8);
          secs = (ucast (((uptime_secs mod (60*60*24)) mod (60*60)) mod 60) :: u8)
      in block (HTTP_IGNORE_POSTDATA # variable_page
           [HTTP_OUTBUF_APPEND (ascii ''<html><body>''),
            HTTP_OUTBUF_APPEND (ascii ''<h1>Uptime of ''),
            IF (\<lambda>_. days > 0) [HTTP_OUTBUF_PRINTF (fmt_u (unat days) @ ascii '' days '')] [],
            HTTP_OUTBUF_PRINTF (fmt_0u 2 (unat hours) @ ascii '':'' @ fmt_0u 2 (unat mins) @ ascii '':'' @
              fmt_0u 2 (unat secs) @ ascii ''</h1>''),
            HTTP_OUTBUF_APPEND (nl ''</body></html>'')]) w)"

definition VERSION :: "u8 list" where
  "VERSION = fmt_u 1 @ ascii ''.'' @ fmt_u 0 @ ascii ''.'' @ fmt_u 0"

definition http_url_version :: "http_env \<Rightarrow> http_stm" where
  "http_url_version env = block (HTTP_IGNORE_POSTDATA # variable_page
     [HTTP_OUTBUF_APPEND (ascii ''<html><body>''),
      HTTP_OUTBUF_PRINTF (ascii ''<h1>Version '' @ VERSION @ ascii '' built on '' @ env_build env @ ascii ''</h1>''),
      HTTP_OUTBUF_APPEND (nl ''</body></html>'')])"

definition http_url_ota_bin :: "http_env \<Rightarrow> http_stm" where
  "http_url_ota_bin env = block
     [HTTP_IGNORE_POSTDATA,
      IF (url_has ''?text'')
        [HTTP_OUTBUF_APPEND (rn ''HTTP/1.1 200 OK''),
         HTTP_OUTBUF_APPEND (rn ''Connection: close''),
         HTTP_OUTBUF_APPEND (rn ''Content-type: text/plain''),
         HTTP_OUTBUF_APPEND (rn ''Content-length: 2''),
         HTTP_OUTBUF_APPEND (rn ''''),
         HTTP_OUTBUF_PRINTF (fmt_x (env_userbin_check env) @ [10])]
        [HTTP_OUTBUF_APPEND (rn ''HTTP/1.1 200 OK''),
         HTTP_OUTBUF_APPEND (rn ''Connection: close''),
         HTTP_OUTBUF_APPEND (rn ''Content-type: text/html''),
         HTTP_OUTBUF_APPEND (rn ''Content-length: 37''),
         HTTP_OUTBUF_APPEND (rn ''''),
         HTTP_OUTBUF_PRINTF (ascii ''<html><body><h1>'' @ fmt_x (env_userbin_check env) @ nl ''</h1></body></html>'')],
      SEND,
      RETURN 1]"

section \<open>Logs\<close>

text \<open>
  The starts of the lines in the log. The buffers of \<^verbatim>\<open>LogBuf\<close> are adjacent, so a search that finds
  neither a line end nor a NUL in \<^verbatim>\<open>main\<close> goes on in the next one; the array \<^verbatim>\<open>lines\<close> has 100 elements.
\<close>

definition log_mem :: "log_buf \<Rightarrow> u8 list" where
  "log_mem b = log_main b @ log_line b @ log_ent b"

function log_lines :: "u8 list \<Rightarrow> nat \<Rightarrow> nat \<Rightarrow> nat list \<Rightarrow> nat list option" where
  "log_lines mem n i acc =
     (if i < n then
        case c_strstr (cstr (drop i mem)) [10] of
          None \<Rightarrow> if 0 \<in> set (drop i mem) then Some acc else None
        | Some q \<Rightarrow> if length acc \<ge> 100 then None else log_lines mem n (i + q + 1) (acc @ [i])
      else Some acc)"
  by pat_completeness auto
termination
  by (relation "measure (\<lambda>(mem, n, i, acc). n - i)") auto

declare log_lines.simps [simp del]

text \<open>
  The rows of the page. A row is written with a NUL over the first byte of the next line, which is
  put back afterwards, unless the macros return.
\<close>

fun log_rows :: "nat list \<Rightarrow> http_stm" where
  "log_rows (a # b # ls) w =
     (if w_outbuflen w + 19 + (b - a) \<ge> 4*1024 - 24 then Go w
      else
        let t = log_main (w_log w) ! b;
            w1 = w\<lparr>w_log := (w_log w)\<lparr>log_main := (log_main (w_log w))[b := 0]\<rparr>\<rparr>
        in case block
             [HTTP_OUTBUF_APPEND (ascii ''<tr><td><pre class=\"inline\">''),
              HTTP_OUTBUF_APPEND (cstr (drop a (log_mem (w_log w1)))),
              HTTP_OUTBUF_APPEND (nl ''</pre></td></tr>'')] w1 of
             Go w2 \<Rightarrow> log_rows (b # ls) (w2\<lparr>w_log := (w_log w2)\<lparr>log_main := (log_main (w_log w2))[b := t]\<rparr>\<rparr>)
           | Return r w2 \<Rightarrow> Return r w2
           | Fault \<Rightarrow> Fault)"
| "log_rows ls w = Go w"

definition http_url_logs :: http_stm where
  "http_url_logs = block
     [HTTP_IGNORE_POSTDATA,
      \<lambda>w. case log_lines (log_mem (w_log w)) (length (log_main (w_log w))) 0 [] of
        None \<Rightarrow> Fault
      | Some lines \<Rightarrow> block (variable_page
          [HTTP_OUTBUF_APPEND (
             nl ''<html><head><style type=\"text/css\">'' @
             nl ''tr:nth-child(even) { background-color: #ffffff; }'' @
             nl ''tr:nth-child(odd)  { background-color: #dddddd; }'' @
             nl ''pre.inline         {          display: inline;  }'' @
             nl ''</style></head><body>''),
           IF (url_has ''?refresh'')
             [HTTP_OUTBUF_APPEND (nl ''<script type=\"text/javascript\">''),
              HTTP_OUTBUF_APPEND (nl ''setTimeout(function() { window.location.reload(true); }, 20000);''),
              HTTP_OUTBUF_APPEND (nl ''</script>'')] [],
           HTTP_OUTBUF_APPEND (nl ''<table>''),
           log_rows lines,
           HTTP_OUTBUF_APPEND (nl ''</table></body></html>'')]) w]"

text \<open>The subsystem that the URL names, and a change of its level.\<close>

definition set_level :: "(u8 \<Rightarrow> u8) \<Rightarrow> http_world \<Rightarrow> log_levels option" where
  "set_level f w =
     (let l = w_levels w in
      if url_has ''?crypto'' w then Some (l\<lparr>crypto_level := f (crypto_level l)\<rparr>)
      else if url_has ''?driver'' w then Some (l\<lparr>driver_level := f (driver_level l)\<rparr>)
      else if url_has ''?http'' w then Some (l\<lparr>http_level := f (http_level l)\<rparr>)
      else if url_has ''?main'' w then Some (l\<lparr>main_level := f (main_level l)\<rparr>)
      else if url_has ''?ota'' w then Some (l\<lparr>ota_level := f (ota_level l)\<rparr>)
      else if url_has ''?smtp'' w then Some (l\<lparr>smtp_level := f (smtp_level l)\<rparr>)
      else None)"

definition http_url_logs_lower :: http_stm where
  "http_url_logs_lower = block
     [HTTP_IGNORE_POSTDATA,
      \<lambda>w. case set_level log_lower w of
        Some l \<Rightarrow> block (page_200 @ [RETURN 1]) (w\<lparr>w_levels := l\<rparr>)
      | None \<Rightarrow> block (page_400 @ [RETURN 1]) w]"

definition http_url_logs_raise :: http_stm where
  "http_url_logs_raise = block
     [HTTP_IGNORE_POSTDATA,
      \<lambda>w. case set_level log_raise w of
        Some l \<Rightarrow> block (page_200 @ [RETURN 1]) (w\<lparr>w_levels := l\<rparr>)
      | None \<Rightarrow> block (page_400 @ [RETURN 1]) w]"

section \<open>Forms\<close>

text \<open>
  The loop over the pairs of a query, in place in the memory \<open>m\<close> of \<open>n\<close> bytes from the URL on; \<open>key\<close> is
  an index. \<open>pair\<close> is what the handler does with a pair, \<open>None\<close> being \<^verbatim>\<open>goto fail\<close>. The results are
  the labels the code goes to, or the code after the loop.
\<close>

datatype 's form_exit = Form_fault | Form_form "u8 list" 's | Form_fail "u8 list" 's | Form_done "u8 list" 's

function form_loop ::
    "(u8 list \<Rightarrow> u8 list \<Rightarrow> 's \<Rightarrow> 's option) \<Rightarrow> nat \<Rightarrow> u8 list \<Rightarrow> nat \<Rightarrow> 's \<Rightarrow> 's form_exit" where
  "form_loop pair n m key s =
     (if key \<ge> n \<or> 0 \<notin> set (drop key m) then Form_fault
      else case c_strstr (cstr (drop key m)) [61] of
        None \<Rightarrow> Form_form m s
      | Some k \<Rightarrow>
          let val = key + k + 1;
              m1 = m[val - 1 := 0];
              amp = c_strstr (cstr (drop val m1)) [38];
              m2 = (case amp of None \<Rightarrow> m1 | Some q \<Rightarrow> m1[val + q := 0])
          in case url_decode (drop val m2) of
               None \<Rightarrow> Form_fault
             | Some d \<Rightarrow>
                 let m3 = take val m2 @ d in
                 (case pair (drop key m3) (cstr (drop val m3)) s of
                    None \<Rightarrow> Form_fail m3 s
                  | Some s' \<Rightarrow>
                      (case amp of
                         None \<Rightarrow> Form_done m3 s'
                       | Some q \<Rightarrow> form_loop pair n m3 (val + q + 1) s')))"
  by pat_completeness auto
termination
  by (relation "measure (\<lambda>(pair, n, m, key, s). n - key)") auto

declare form_loop.simps [simp del]

definition set_url_mem :: "u8 list \<Rightarrow> http_world \<Rightarrow> http_world" where
  "set_url_mem m w = w\<lparr>w_client := (w_client w)\<lparr>hc_url := take 256 m, hc_host := take 64 (drop 256 m), hc_buf := drop 320 m\<rparr>\<rparr>"

definition form_query :: "(u8 list \<Rightarrow> u8 list \<Rightarrow> 's \<Rightarrow> 's option) \<Rightarrow> 's \<Rightarrow> http_world \<Rightarrow> 's form_exit" where
  "form_query pair s w =
     (let m = url_mem (w_client w) in
      case c_strstr (cstr m) [63] of
        None \<Rightarrow> Form_form m s
      | Some q \<Rightarrow> form_loop pair (length m) m (q + 1) s)"

record station_config =
  sc_ssid :: "u8 list"
  sc_password :: "u8 list"

definition wifi_pair :: "u8 list \<Rightarrow> u8 list \<Rightarrow> station_config \<Rightarrow> station_config option" where
  "wifi_pair key val conf =
     (if strncmp_eq key (ascii ''ssid'') 4 then
        if length val \<ge> length (sc_ssid conf) then None
        else Some (conf\<lparr>sc_ssid := patch (sc_ssid conf) 0 (val @ [0])\<rparr>)
      else if strncmp_eq key (ascii ''pass'') 4 then
        if length val \<ge> length (sc_password conf) then None
        else Some (conf\<lparr>sc_password := patch (sc_password conf) 0 (val @ [0])\<rparr>)
      else Some conf)"

definition wifi_form :: "http_env \<Rightarrow> http_stm" where
  "wifi_form env = block (variable_page
     [HTTP_OUTBUF_APPEND (nl ''<html><head><style>''),
      HTTP_OUTBUF_APPEND (nl ''.label {text-align: right}''),
      HTTP_OUTBUF_APPEND (nl ''</style></head><body>''),
      HTTP_OUTBUF_APPEND (nl ''<form action=\"/wifi/setup\" method=\"get\">''),
      HTTP_OUTBUF_APPEND (nl ''<table>''),
      HTTP_OUTBUF_APPEND (ascii ''<tr>''),
      HTTP_OUTBUF_PRINTF (ascii ''<td class=\"label\">SSID (max '' @ fmt_u (env_ssid_size env) @ nl '' bytes)</td>''),
      HTTP_OUTBUF_APPEND (nl ''<td><input type=\"text\" name=\"ssid\"></td>''),
      HTTP_OUTBUF_APPEND (nl ''<td/></tr>''),
      HTTP_OUTBUF_APPEND (ascii ''<tr>''),
      HTTP_OUTBUF_PRINTF (ascii ''<td class=\"label\">Password (max '' @ fmt_u (env_password_size env) @ nl '' bytes)</td>''),
      HTTP_OUTBUF_APPEND (nl ''<td><input type=\"text\" name=\"pass\"></td>''),
      HTTP_OUTBUF_APPEND (nl ''<td><input type=\"submit\"/></td></tr>''),
      HTTP_OUTBUF_APPEND (nl ''</table></form></body></html>'')])"

definition http_url_wifi_setup :: "http_env \<Rightarrow> http_stm" where
  "http_url_wifi_setup env = block
     [HTTP_IGNORE_POSTDATA,
      \<lambda>w. case form_query wifi_pair
               \<lparr>sc_ssid = replicate (env_ssid_size env) 0, sc_password = replicate (env_password_size env) 0\<rparr> w of
        Form_fault \<Rightarrow> Fault
      | Form_form m conf \<Rightarrow> wifi_form env (set_url_mem m w)
      | Form_fail m conf \<Rightarrow> block (page_400 @ [RETURN 1]) (set_url_mem m w)
      | Form_done m conf \<Rightarrow>
          if c_strlen (sc_ssid conf) = 0 \<or> c_strlen (sc_password conf) = 0 then wifi_form env (set_url_mem m w)
          else block
            ([call (Wifi_set_config (sc_ssid conf) (sc_password conf)),
              IF (\<lambda>_. \<not> env_wifi_set_config env) (page_400 @ [RETURN 1]) [],
              call Wifi_disconnect,
              call Wifi_connect] @ page_202 @ [RETURN 1]) (set_url_mem m w)]"

definition smtp_pair :: "u8 list \<Rightarrow> u8 list \<Rightarrow> smtp_server \<Rightarrow> smtp_server option" where
  "smtp_pair key val sv =
     (let sv1 =
        (if strncmp_eq key (ascii ''host'') 4 then
           if length val \<ge> length (sv_host sv) then None else Some (sv\<lparr>sv_host := patch (sv_host sv) 0 (val @ [0])\<rparr>)
         else if strncmp_eq key (ascii ''port'') 4 then Some (sv\<lparr>sv_port := word_of_int (c_atoi val)\<rparr>)
         else if strncmp_eq key (ascii ''user'') 4 then
           if length val \<ge> length (sv_user sv) then None else Some (sv\<lparr>sv_user := patch (sv_user sv) 0 (val @ [0])\<rparr>)
         else if strncmp_eq key (ascii ''pass'') 4 then
           if length val \<ge> length (sv_pass sv) then None else Some (sv\<lparr>sv_pass := patch (sv_pass sv) 0 (val @ [0])\<rparr>)
         else Some sv);
       sv2 = Option.bind sv1 (\<lambda>sv.
         if strncmp_eq key (ascii ''from'') 4 then
           if length val \<ge> length (sv_from sv) then None else Some (sv\<lparr>sv_from := patch (sv_from sv) 0 (val @ [0])\<rparr>)
         else Some sv)
      in Option.bind sv2 (\<lambda>sv.
         if strncmp_eq key (ascii ''to'') 2 then
           if length val \<ge> length (sv_to sv) then None else Some (sv\<lparr>sv_to := patch (sv_to sv) 0 (val @ [0])\<rparr>)
         else Some sv))"

definition smtp_row :: "u8 list \<Rightarrow> string \<Rightarrow> http_stm list" where
  "smtp_row label name =
     [HTTP_OUTBUF_APPEND (ascii ''<tr>''),
      HTTP_OUTBUF_PRINTF (ascii ''<td class=\"label\">'' @ label @ nl ''</td>''),
      HTTP_OUTBUF_APPEND (ascii ''<td><input type=\"text\" name=\"'' @ ascii name @ nl ''\"></td>'')]"

definition smtp_form :: http_stm where
  "smtp_form w = block (variable_page
     ([HTTP_OUTBUF_APPEND (nl ''<html><head><style>''),
       HTTP_OUTBUF_APPEND (nl ''.label {text-align: right}''),
       HTTP_OUTBUF_APPEND (nl ''</style></head><body>''),
       HTTP_OUTBUF_APPEND (nl ''<form action=\"/smtp/setup\" method=\"get\">''),
       HTTP_OUTBUF_APPEND (nl ''<table>'')] @
      smtp_row (ascii ''Mail from (max '' @ fmt_u (length (sv_from (w_smtp w))) @ ascii '' bytes)'') ''from'' @
      [HTTP_OUTBUF_APPEND (nl ''<td/></tr>'')] @
      smtp_row (ascii ''Mail to (max '' @ fmt_u (length (sv_to (w_smtp w))) @ ascii '' bytes)'') ''to'' @
      [HTTP_OUTBUF_APPEND (nl ''<td/></tr>'')] @
      smtp_row (ascii ''Hostname (max '' @ fmt_u (length (sv_host (w_smtp w))) @ ascii '' bytes)'') ''host'' @
      [HTTP_OUTBUF_APPEND (nl ''<td/></tr>'')] @
      smtp_row (ascii ''Port number'') ''port'' @
      [HTTP_OUTBUF_APPEND (nl ''<td/></tr>'')] @
      smtp_row (ascii ''Username (max '' @ fmt_u (length (sv_user (w_smtp w))) @ ascii '' bytes)'') ''user'' @
      [HTTP_OUTBUF_APPEND (nl ''<td/></tr>'')] @
      smtp_row (ascii ''Password (max '' @ fmt_u (length (sv_pass (w_smtp w))) @ ascii '' bytes)'') ''pass'' @
      [HTTP_OUTBUF_APPEND (nl ''<td><input type=\"submit\"/></td></tr>''),
       HTTP_OUTBUF_APPEND (nl ''</table></form></body></html>'')])) w"

text \<open>The account is changed pair by pair, also when a later pair makes the request fail.\<close>

definition http_url_smtp_setup :: http_stm where
  "http_url_smtp_setup = block
     [HTTP_IGNORE_POSTDATA,
      \<lambda>w. case form_query smtp_pair (w_smtp w) w of
        Form_fault \<Rightarrow> Fault
      | Form_form m sv \<Rightarrow> smtp_form ((set_url_mem m w)\<lparr>w_smtp := sv\<rparr>)
      | Form_fail m sv \<Rightarrow> block (page_400 @ [RETURN 1]) ((set_url_mem m w)\<lparr>w_smtp := sv\<rparr>)
      | Form_done m sv \<Rightarrow>
          let w1 = (set_url_mem m w)\<lparr>w_smtp := sv\<rparr> in
          if c_strlen (sv_host sv) = 0 \<or> sv_port sv = 0 \<or> c_strlen (sv_user sv) = 0 \<or>
             c_strlen (sv_pass sv) = 0 \<or> c_strlen (sv_from sv) = 0 \<or> c_strlen (sv_to sv) = 0
          then smtp_form w1
          else block ([call (Arm_smtp_param 3000)] @ page_202 @ [RETURN 1]) w1]"

text \<open>The timer function that the setup page arms.\<close>

definition smtp_param_write ::
    "(nat \<Rightarrow> nat \<Rightarrow> nat \<Rightarrow> 'f \<Rightarrow> u8 list option) \<Rightarrow> (nat \<Rightarrow> u8 list \<Rightarrow> 'f \<Rightarrow> 'f option) \<Rightarrow>
     flash_size_map \<Rightarrow> smtp_server \<Rightarrow> u8 list \<Rightarrow> 'f \<Rightarrow> (int \<times> u8 list \<times> 'f) option" where
  "smtp_param_write load save fmap sv param_buf f =
     param_store load save fmap PARAM_SMTP_OFFSET (server_bytes sv) param_buf f"

end
