(* ===== verification/Http_Parse.thy ===== *)
theory Http_Parse
  imports Http_Base Http_Pages
begin

text \<open>
  The request parser of \<^verbatim>\<open>src/http/process.c\<close>: \<^verbatim>\<open>parseline\<close>, \<^verbatim>\<open>parsetoken\<close> and the first half of
  \<^verbatim>\<open>http_process\<close>. Pointers into \<^verbatim>\<open>client->buf\<close> are indices. The inner option of a result is the
  returned pointer (\<open>None\<close> is \<^verbatim>\<open>NULL\<close>), the outer one is \<open>None\<close> for a read outside the array.
\<close>

section \<open>The code\<close>

function parseline_loop :: "u8 list \<Rightarrow> nat \<Rightarrow> nat \<Rightarrow> nat \<Rightarrow> nat option option" where
  "parseline_loop buf off len i =
     (if i < len then
        if off + i - 1 \<ge> length buf then None
        else if buf ! (off + i - 1) = 13 then
          if off + i \<ge> length buf then None
          else if buf ! (off + i) = 10 then Some (Some (off + i + 1))
          else parseline_loop buf off len (i + 1)
        else parseline_loop buf off len (i + 1)
      else Some None)"
  by pat_completeness auto
termination
  by (relation "measure (\<lambda>(buf, off, len, i). len - i)") auto

declare parseline_loop.simps [simp del]

definition parseline :: "u8 list \<Rightarrow> nat \<Rightarrow> nat \<Rightarrow> nat option option" where
  "parseline buf off len = parseline_loop buf off len 1"

definition is_ws :: "u8 \<Rightarrow> bool" where
  "is_ws c \<longleftrightarrow> c = 32 \<or> c = 13 \<or> c = 10"

function token_skip :: "u8 list \<Rightarrow> nat \<Rightarrow> nat \<Rightarrow> nat \<Rightarrow> nat option option" where
  "token_skip buf off len i =
     (if off + i \<ge> length buf then None
      else if is_ws (buf ! (off + i)) then if i = len then Some None else token_skip buf off len (i + 1)
      else Some (Some i))"
  by pat_completeness auto
termination
  by (relation "measure (\<lambda>(buf, off, len, i). length buf - (off + i))") auto

declare token_skip.simps [simp del]

function token_end :: "u8 list \<Rightarrow> nat \<Rightarrow> nat \<Rightarrow> nat \<Rightarrow> nat option" where
  "token_end buf off len i =
     (if off + i \<ge> length buf then None
      else if is_ws (buf ! (off + i)) then Some i
      else if i = len then Some i
      else token_end buf off len (i + 1))"
  by pat_completeness auto
termination
  by (relation "measure (\<lambda>(buf, off, len, i). length buf - (off + i))") auto

declare token_end.simps [simp del]

definition parsetoken :: "u8 list \<Rightarrow> nat \<Rightarrow> nat \<Rightarrow> (nat \<times> nat) option option" where
  "parsetoken buf off len =
     (case token_skip buf off len 0 of
        None \<Rightarrow> None
      | Some None \<Rightarrow> Some None
      | Some (Some i) \<Rightarrow> map_option (\<lambda>e. Some (off + i, off + e)) (token_end buf off len (i + 1)))"

text \<open>The difference of two pointers as a \<^verbatim>\<open>size_t\<close>.\<close>

definition ptr_diff :: "nat \<Rightarrow> nat \<Rightarrow> nat" where
  "ptr_diff p q = nat ((int p - int q) mod 2 ^ 32)"

text \<open>\<^verbatim>\<open>os_strncmp(token, lit, MIN(nexttoken-token, n)) == 0\<close> with \<open>n\<close> the length of the literal.\<close>

definition token_is :: "u8 list \<Rightarrow> nat \<times> nat \<Rightarrow> u8 list \<Rightarrow> bool" where
  "token_is buf t lit = strncmp_eq (drop (fst t) buf) lit (min (snd t - fst t) (length lit))"

text \<open>
  \<^verbatim>\<open>os_memcpy(client->url, token, n); client->url[n] = 0\<close>, and the same for the host. With \<open>n\<close> equal to
  the size of the array the NUL goes into the first byte of the next member.
\<close>

definition set_url :: "u8 list \<Rightarrow> http_client \<Rightarrow> http_client" where
  "set_url t c =
     (let c1 = c\<lparr>hc_url := patch (hc_url c) 0 t\<rparr>
      in if length t < 256 then c1\<lparr>hc_url := (hc_url c1)[length t := 0]\<rparr> else c1\<lparr>hc_host := (hc_host c1)[0 := 0]\<rparr>)"

definition set_host :: "u8 list \<Rightarrow> http_client \<Rightarrow> http_client" where
  "set_host t c =
     (let c1 = c\<lparr>hc_host := patch (hc_host c) 0 t\<rparr>
      in if length t < 64 then c1\<lparr>hc_host := (hc_host c1)[length t := 0]\<rparr> else c1\<lparr>hc_buf := (hc_buf c1)[0 := 0]\<rparr>)"

text \<open>One header line, from \<open>off\<close> to \<open>nextline\<close>.\<close>

definition header_line :: "nat \<Rightarrow> nat \<Rightarrow> http_client stm" where
  "header_line off nextline c =
     (let buf = hc_buf c in
      case parsetoken buf off (ptr_diff nextline off) of
        None \<Rightarrow> Fault
      | Some None \<Rightarrow> Return 1 c
      | Some (Some t) \<Rightarrow>
          if token_is buf t (ascii ''Host:'') then
            (case parsetoken buf (snd t) (ptr_diff nextline (snd t)) of
               None \<Rightarrow> Fault
             | Some None \<Rightarrow> Return 1 c
             | Some (Some u) \<Rightarrow>
                 if snd u - fst u > 64 then Return 1 c
                 else Go (set_host (take (snd u - fst u) (drop (fst u) buf)) c))
          else if token_is buf t (ascii ''Content-Length:'') then
            (case parsetoken buf (snd t) (ptr_diff nextline (snd t)) of
               None \<Rightarrow> Fault
             | Some None \<Rightarrow> Return 1 c
             | Some (Some u) \<Rightarrow> Go (c\<lparr>hc_postlen := word_of_int (c_atoi (drop (fst u) buf))\<rparr>))
          else Go c)"

lemma parseline_loop_bounds:
  "parseline_loop buf off len i = Some (Some p) \<Longrightarrow> 0 < i \<Longrightarrow> off + i < p \<and> p \<le> length buf"
proof (induction buf off len i rule: parseline_loop.induct)
  case (1 buf off len i)
  from "1.prems"(1) [unfolded parseline_loop.simps [of buf off len i]] show ?case
    using "1.IH" "1.prems"(2) by (auto split: if_splits)
qed

lemma parseline_bounds: "parseline buf off len = Some (Some p) \<Longrightarrow> off + 1 < p \<and> p \<le> length buf"
  unfolding parseline_def by (drule parseline_loop_bounds) simp_all

lemma header_line_length: "header_line off nextline c = Go c' \<Longrightarrow> length (hc_buf c') = length (hc_buf c)"
  by (auto simp: header_line_def set_host_def Let_def split: option.splits if_splits)

text \<open>
  The loop over the header lines; the result is the index behind the empty line. \<^verbatim>\<open>len\<close> never changes:
  \<^verbatim>\<open>buf = nextline; len -= nextline-buf;\<close> subtracts zero.
\<close>

function header_loop :: "nat \<Rightarrow> nat \<Rightarrow> http_client \<Rightarrow> (http_client \<times> nat) flow" where
  "header_loop off len c =
     (if len \<ge> 2 \<and> off \<ge> length (hc_buf c) then Fault
      else if len \<ge> 2 \<and> hc_buf c ! off = 13 \<and> off + 1 \<ge> length (hc_buf c) then Fault
      else if len \<ge> 2 \<and> hc_buf c ! off = 13 \<and> hc_buf c ! (off + 1) = 10 then Go (c, off + 2)
      else case parseline (hc_buf c) off len of
        None \<Rightarrow> Fault
      | Some None \<Rightarrow> Return 0 (c, off)
      | Some (Some nextline) \<Rightarrow>
          (case header_line off nextline c of
             Fault \<Rightarrow> Fault
           | Return r c' \<Rightarrow> Return r (c', off)
           | Go c' \<Rightarrow> header_loop nextline len c'))"
  by pat_completeness auto
termination
  by (relation "measure (\<lambda>(off, len, c). length (hc_buf c) - off)") (auto dest!: header_line_length parseline_bounds)

declare header_loop.simps [simp del]

text \<open>\<^verbatim>\<open>http_process\<close> up to the dispatch; \<^verbatim>\<open>HTTP_STATE_HEADERS\<close> is the state at entry.\<close>

definition parse_request :: "http_client stm" where
  "parse_request c =
     (let buf = hc_buf c; len = unat (hc_bufused c) in
      case parseline buf 0 len of
        None \<Rightarrow> Fault
      | Some None \<Rightarrow> Return 0 c
      | Some (Some nextline) \<Rightarrow>
          (case parsetoken buf 0 (ptr_diff nextline 0) of
             None \<Rightarrow> Fault
           | Some None \<Rightarrow> Return 1 c
           | Some (Some t) \<Rightarrow>
               if \<not> token_is buf t (ascii ''GET'') \<and> \<not> token_is buf t (ascii ''POST'') then Return 1 c
               else
                 let c1 = c\<lparr>hc_method := (if token_is buf t (ascii ''GET'') then HTTP_METHOD_GET else HTTP_METHOD_POST)\<rparr> in
                 (case parsetoken buf (snd t) (ptr_diff nextline (snd t)) of
                    None \<Rightarrow> Fault
                  | Some None \<Rightarrow> Return 1 c1
                  | Some (Some u) \<Rightarrow>
                      if snd u - fst u > 256 then Return 1 c1
                      else
                        (case header_loop nextline len (set_url (take (snd u - fst u) (drop (fst u) buf)) c1) of
                           Fault \<Rightarrow> Fault
                         | Return r (c2, off) \<Rightarrow> Return r c2
                         | Go (c2, off) \<Rightarrow>
                             if off > unat (hc_bufused c2) then Fault
                             else
                               let n = unat (hc_bufused c2) - off;
                                   c3 = c2\<lparr>hc_buf := patch (hc_buf c2) 0 (take n (drop off (hc_buf c2))),
                                           hc_bufused := of_nat n\<rparr>
                               in Go (c3\<lparr>hc_state := (if hc_method c3 = HTTP_METHOD_GET then HTTP_STATE_RESPONSE
                                                       else HTTP_STATE_POSTDATA)\<rparr>)))))"

end
