(* ===== verification/Ota.thy ===== *)
theory Ota
  imports Http_Pages Rsa
begin

text \<open>
  The firmware update over HTTP, \<^verbatim>\<open>http_url_ota_push\<close> of \<^verbatim>\<open>src/http/url_ota.c\<close>: the image arrives as
  post data in several calls, is written sector by sector to the other half of the flash, read back,
  compared by its SHA-256 digest and accepted if the signature in the URL decrypts to that digest.
  The big integers \<^verbatim>\<open>otastate.cipher\<close> and \<^verbatim>\<open>otastate.clear\<close> and the public key are the variables
  \<open>Var 0\<close> to \<open>Var 3\<close> of the store. A result \<open>None\<close> is an access outside an array or a loop that
  does not end.
\<close>

section \<open>The code\<close>

abbreviation cipher :: var where "cipher \<equiv> Var 0"
abbreviation clear :: var where "clear \<equiv> Var 1"
abbreviation pubkey_mod :: var where "pubkey_mod \<equiv> Var 2"
abbreviation pubkey_exp :: var where "pubkey_exp \<equiv> Var 3"

text \<open>The label \<^verbatim>\<open>fail\<close>.\<close>

definition ota_fail :: http_stm where
  "ota_fail = block (page_400 @ [RETURN 1])"

text \<open>The first call of an update; the flag says whether to go to \<^verbatim>\<open>fail\<close>.\<close>

definition ota_start :: "http_env \<Rightarrow> http_world \<Rightarrow> bool \<times> http_world" where
  "ota_start env w =
     (let c = w_client w;
          o1 = (w_ota w)\<lparr>ota_client := Some (w_id w), ota_sha256 := sha256_init (ota_sha256 (w_ota w))\<rparr>
      in case flash_size_kb (env_flash_map env) of
           None \<Rightarrow> (True, w\<lparr>w_ota := o1\<rparr>)
         | Some size_kb \<Rightarrow>
             let user1 = 4*1024; user2 = (size_kb div 2 + 4) * 1024; curaddr = unat (env_userbin_addr env) in
             if curaddr \<noteq> user1 \<and> curaddr \<noteq> user2 then (True, w\<lparr>w_ota := o1\<rparr>)
             else
               let new = of_nat (if curaddr = user1 then user2 else user1);
                   o2 = o1\<lparr>ota_newaddr_beg := new, ota_newaddr_cur := new, ota_appsize := hc_postlen c, ota_secused := 0\<rparr>
               in if hc_state c \<noteq> HTTP_STATE_POSTDATA then (True, w\<lparr>w_ota := o2\<rparr>)
                  else if unat (hc_postlen c) > (size_kb div 2 - 20) * 1024 then (True, w\<lparr>w_ota := o2\<rparr>)
                  else (False, w\<lparr>w_ota := o2\<rparr>))"

text \<open>A sector that is full, or the last one: erase, write, digest.\<close>

definition ota_flash :: "http_env \<Rightarrow> http_world \<Rightarrow> (bool \<times> http_world) option" where
  "ota_flash env w =
     (let ot = w_ota w in
      case env_erase env (unat (ota_newaddr_cur ot) div SPI_FLASH_SEC_SIZE) (w_flash w) of
        None \<Rightarrow> Some (True, w)
      | Some f1 \<Rightarrow>
          (case env_write env (unat (ota_newaddr_cur ot)) (ota_secbuf ot) f1 of
             None \<Rightarrow> Some (True, w\<lparr>w_flash := f1\<rparr>)
           | Some f2 \<Rightarrow>
               (case sha256_proc (ota_sha256 ot) (take (unat (ota_secused ot)) (ota_secbuf ot)) of
                  None \<Rightarrow> None
                | Some s \<Rightarrow>
                    Some (False, w\<lparr>w_flash := f2,
                      w_ota := ot\<lparr>ota_sha256 := s, ota_newaddr_cur := ota_newaddr_cur ot + of_nat SPI_FLASH_SEC_SIZE,
                                  ota_secbuf := replicate SPI_FLASH_SEC_SIZE 0, ota_secused := 0\<rparr>\<rparr>))))"

text \<open>The number of bytes of one turn of the loop, and the copy.\<close>

definition ota_len :: "http_world \<Rightarrow> nat" where
  "ota_len w = min (min (unat (hc_bufused (w_client w))) (unat (hc_postlen (w_client w)) - unat (hc_postused (w_client w))))
     (SPI_FLASH_SEC_SIZE - unat (ota_secused (w_ota w)))"

definition ota_copy :: "http_world \<Rightarrow> http_world" where
  "ota_copy w =
     (let len = ota_len w; c = w_client w; ot = w_ota w
      in w\<lparr>w_ota := ot\<lparr>ota_secbuf := patch (ota_secbuf ot) (unat (ota_secused ot)) (take len (hc_buf c)),
                       ota_secused := ota_secused ot + of_nat len\<rparr>,
           w_client := c\<lparr>hc_buf := patch (hc_buf c) 0 (take (unat (hc_bufused c) - len) (drop len (hc_buf c))),
                         hc_bufused := hc_bufused c - of_nat len, hc_postused := hc_postused c + of_nat len\<rparr>\<rparr>)"

partial_function (option) ota_loop :: "http_env \<Rightarrow> http_world \<Rightarrow> (bool \<times> http_world) option" where
  "ota_loop env w =
     (if hc_bufused (w_client w) > 0 \<and> hc_postlen (w_client w) > hc_postused (w_client w) then
        if unat (ota_secused (w_ota w)) > SPI_FLASH_SEC_SIZE then None
        else
          let w1 = ota_copy w in
          if unat (ota_secused (w_ota w1)) = SPI_FLASH_SEC_SIZE \<or> hc_postused (w_client w1) = hc_postlen (w_client w1) then
            Option.bind (ota_flash env w1) (\<lambda>(fl, w2). if fl then Some (True, w2) else ota_loop env w2)
          else ota_loop env w1
      else Some (False, w))"

text \<open>Reading the image back, from \<open>addr\<close> to \<open>fin\<close>; the flag is again \<^verbatim>\<open>goto fail\<close>.\<close>

function ota_read :: "http_env \<Rightarrow> nat \<Rightarrow> nat \<Rightarrow> http_world \<Rightarrow> (bool \<times> http_world) option" where
  "ota_read env addr fin w =
     (if addr < fin then
        case env_read env addr SPI_FLASH_SEC_SIZE (w_flash w) of
          None \<Rightarrow> Some (True, w)
        | Some bs \<Rightarrow>
            (case sha256_proc (ota_sha256 (w_ota w))
                    (take (if addr + SPI_FLASH_SEC_SIZE > fin then unat (ota_appsize (w_ota w)) mod SPI_FLASH_SEC_SIZE
                           else SPI_FLASH_SEC_SIZE) bs) of
               None \<Rightarrow> None
             | Some s \<Rightarrow> ota_read env (addr + SPI_FLASH_SEC_SIZE) fin (w\<lparr>w_ota := (w_ota w)\<lparr>ota_sha256 := s, ota_secbuf := bs\<rparr>\<rparr>))
      else Some (False, w))"
  by pat_completeness auto
termination
  by (relation "measure (\<lambda>(env, addr, fin, w). fin - addr)") auto

declare ota_read.simps [simp del]

text \<open>The signature check; the flag is \<^verbatim>\<open>goto fail\<close>.\<close>

definition ota_signature :: "http_world \<Rightarrow> (bool \<times> http_world) option" where
  "ota_signature w =
     (let s = cstr (url_mem (w_client w)) in
      case c_strstr s [63] of
        None \<Rightarrow> Some (True, w)
      | Some q \<Rightarrow>
          (case bigint_fromhex (w_store w cipher) (drop (q + 1) s) of
             (rv, x) \<Rightarrow>
               let st1 = (w_store w)(cipher := x); w1 = w\<lparr>w_store := st1\<rparr> in
               if rv > 0 then Some (True, w1)
               else
                 (case rsa_pubkey_decrypt pubkey_mod pubkey_exp clear cipher st1 of
                    None \<Rightarrow> None
                  | Some (rv, st2) \<Rightarrow>
                      let w2 = w1\<lparr>w_store := st2\<rparr> in
                      if rv > 0 then Some (True, w2)
                      else
                        let bytes = bi_bytes (st2 clear) + (if bi_bits (st2 clear) > 0 then 1 else 0) in
                        if bytes > 32 then None
                        else
                          let hash3 = replicate (32 - bytes) 0 @ rev (take bytes (bi_data (st2 clear)));
                              w3 = w2\<lparr>w_ota := (w_ota w2)\<lparr>ota_hash3 := hash3\<rparr>\<rparr>
                          in Some (\<not> strncmp_eq (ota_hash1 (w_ota w3)) hash3 32, w3))))"

text \<open>The second half, once all of the image has arrived.\<close>

definition ota_finish :: "http_env \<Rightarrow> http_stm" where
  "ota_finish env w =
     (let (s1, hash1) = sha256_done (ota_sha256 (w_ota w));
          w1 = w\<lparr>w_ota := (w_ota w)\<lparr>ota_hash1 := hash1, ota_sha256 := sha256_init s1\<rparr>\<rparr>;
          beg = unat (ota_newaddr_beg (w_ota w1))
      in case ota_read env beg (beg + unat (ota_appsize (w_ota w1))) w1 of
           None \<Rightarrow> Fault
         | Some (True, w2) \<Rightarrow> ota_fail w2
         | Some (False, w2) \<Rightarrow>
             let (s2, hash2) = sha256_done (ota_sha256 (w_ota w2));
                 w3 = w2\<lparr>w_ota := (w_ota w2)\<lparr>ota_hash2 := hash2, ota_sha256 := s2\<rparr>\<rparr>
             in if \<not> strncmp_eq (ota_hash1 (w_ota w3)) hash2 32 then ota_fail w3
                else
                  (case ota_signature w3 of
                     None \<Rightarrow> Fault
                   | Some (True, w4) \<Rightarrow> ota_fail w4
                   | Some (False, w4) \<Rightarrow>
                       block (page_202 @ [call Upgrade_flag_finish, call (Arm_ota_reboot 5000), RETURN 1]) w4))"

definition http_url_ota_push :: "http_env \<Rightarrow> http_stm" where
  "http_url_ota_push env w =
     (let (fl, w1) = (if hc_postused (w_client w) = 0 then ota_start env w else (False, w)) in
      if fl \<or> ota_client (w_ota w1) \<noteq> Some (w_id w1) then ota_fail w1
      else
        let conn = hc_conn (w_client w1);
            w2 = w1\<lparr>w_calls := w_calls w1 @ [Recv_hold conn]\<rparr>
        in case ota_loop env w2 of
             None \<Rightarrow> Fault
           | Some (True, w3) \<Rightarrow> ota_fail w3
           | Some (False, w3) \<Rightarrow>
               let w4 = w3\<lparr>w_calls := w_calls w3 @ [Recv_unhold conn]\<rparr> in
               if hc_postlen (w_client w4) > hc_postused (w_client w4) then Return 0 w4
               else ota_finish env w4)"

text \<open>The timer function that a successful update arms.\<close>

definition ota_reboot :: http_stm where
  "ota_reboot = call System_upgrade_reboot"

end
