(* ===== verification/Http_Server.thy ===== *)
theory Http_Server
  imports Http_Parse Ota
begin

text \<open>
  The dispatch at the end of \<^verbatim>\<open>http_process\<close>, the URL table of \<^verbatim>\<open>src/http/urls.c\<close>, and the server of
  \<^verbatim>\<open>src/http/init.c\<close>: four client slots, the callbacks of the network and the task that closes
  connections.
\<close>

section \<open>Dispatch\<close>

definition http_urls :: "http_env \<Rightarrow> (u8 list \<times> http_stm) list" where
  "http_urls env =
     [(ascii ''/'', http_url_blank),
      (ascii ''/logs'', http_url_logs),
      (ascii ''/logs/lower'', http_url_logs_lower),
      (ascii ''/logs/raise'', http_url_logs_raise),
      (ascii ''/ota/bin'', http_url_ota_bin env),
      (ascii ''/ota/push'', http_url_ota_push env),
      (ascii ''/reset'', http_url_reset),
      (ascii ''/smtp/setup'', http_url_smtp_setup),
      (ascii ''/uptime'', http_url_uptime env),
      (ascii ''/version'', http_url_version env),
      (ascii ''/wifi/setup'', http_url_wifi_setup env)]"

text \<open>\<^verbatim>\<open>baseurl\<close> has 128 bytes; a base URL of 128 characters puts its NUL behind it.\<close>

definition http_dispatch :: "http_env \<Rightarrow> http_stm" where
  "http_dispatch env w =
     (let m = url_mem (w_client w); s = cstr m;
          base = (case c_strstr s [63] of Some q \<Rightarrow> take q s | None \<Rightarrow> s)
      in if 0 \<notin> set m then Fault
         else if length base > 128 then Return 1 w
         else if length base = 128 then Fault
         else
           let w1 = w\<lparr>w_outbuf := replicate (length (w_outbuf w)) 0, w_outbuflen := 0\<rparr> in
           case map_of (http_urls env) base of Some h \<Rightarrow> h w1 | None \<Rightarrow> http_url_404 w1)"

definition http_process :: "http_env \<Rightarrow> http_stm" where
  "http_process env w =
     (if hc_state (w_client w) = HTTP_STATE_HEADERS then
        case parse_request (w_client w) of
          Fault \<Rightarrow> Fault
        | Return r c \<Rightarrow> Return r (w\<lparr>w_client := c\<rparr>)
        | Go c \<Rightarrow> http_dispatch env (w\<lparr>w_client := c\<rparr>)
      else http_dispatch env w)"

section \<open>The server\<close>

text \<open>
  \<open>sv_clients\<close> is the array \<^verbatim>\<open>http_clients\<close>, \<open>sv_reverse\<close> the \<^verbatim>\<open>reverse\<close> pointers of the connections
  (the slot, \<open>None\<close> is \<^verbatim>\<open>NULL\<close>), \<open>sv_posts\<close> the connections for which \<^verbatim>\<open>system_os_post\<close> has been called with
  \<^verbatim>\<open>HTTP_TASK_KILL\<close>, and \<open>sv_closes\<close> the calls that the task has made. The queue between the two belongs to the SDK;
  whether it took an event, and whether closing succeeded, only decides about a log message. The client of
  \<open>sv_world\<close> is a scratch field.
\<close>

datatype close_call = Espconn_disconnect nat | Espconn_delete nat

record http_server =
  sv_clients :: "http_client list"
  sv_reverse :: "nat \<Rightarrow> nat option"
  sv_posts :: "nat list"
  sv_closes :: "close_call list"
  sv_world :: http_world

definition http_init :: "http_world \<Rightarrow> http_server" where
  "http_init w = \<lparr>sv_clients = replicate 4 http_client0, sv_reverse = (\<lambda>_. None), sv_posts = [], sv_closes = [], sv_world = w\<rparr>"

text \<open>The call \<^verbatim>\<open>system_os_post(HTTP_TASK_PRIO, HTTP_TASK_KILL, conn)\<close>.\<close>

definition post_kill :: "nat \<Rightarrow> http_server \<Rightarrow> http_server" where
  "post_kill conn s = s\<lparr>sv_posts := sv_posts s @ [conn]\<rparr>"

definition HTTP_TASK_KILL :: u32 where "HTTP_TASK_KILL = 0"

text \<open>The task, on an event with the signal \<open>sig\<close> and the parameter \<open>conn\<close>.\<close>

definition http_task :: "u32 \<Rightarrow> nat \<Rightarrow> http_server \<Rightarrow> http_server" where
  "http_task sig conn s =
     (if sig = HTTP_TASK_KILL then s\<lparr>sv_closes := sv_closes s @ [Espconn_disconnect conn, Espconn_delete conn]\<rparr>
      else s)"

fun free_slot :: "http_client list \<Rightarrow> nat \<Rightarrow> nat option" where
  "free_slot [] i = None"
| "free_slot (c # cs) i = (if \<not> hc_inuse c then Some i else free_slot cs (i + 1))"

text \<open>\<open>e1\<close> and \<open>e2\<close>: registering the disconnect or the receive callback fails.\<close>

definition http_server_conn_cb :: "bool \<Rightarrow> bool \<Rightarrow> nat \<Rightarrow> http_server \<Rightarrow> http_server" where
  "http_server_conn_cb e1 e2 conn s =
     (let s1 = s\<lparr>sv_reverse := (sv_reverse s)(conn := None)\<rparr> in
      if e1 then post_kill conn s1
      else if e2 then post_kill conn s1
      else case free_slot (sv_clients s1) 0 of
        None \<Rightarrow> post_kill conn s1
      | Some i \<Rightarrow>
          s1\<lparr>sv_clients := (sv_clients s1)[i := http_client0\<lparr>hc_inuse := True, hc_conn := conn\<rparr>],
             sv_reverse := (sv_reverse s1)(conn := Some i)\<rparr>)"

definition http_client_disconn_cb :: "nat \<Rightarrow> http_server \<Rightarrow> http_server" where
  "http_client_disconn_cb conn s =
     (case sv_reverse s conn of
        None \<Rightarrow> s
      | Some i \<Rightarrow> s\<lparr>sv_clients := (sv_clients s)[i := (sv_clients s ! i)\<lparr>hc_inuse := False\<rparr>]\<rparr>)"

definition http_client_recv_cb :: "http_env \<Rightarrow> nat \<Rightarrow> u8 list \<Rightarrow> http_server \<Rightarrow> http_server option" where
  "http_client_recv_cb env conn data s =
     (case sv_reverse s conn of
        None \<Rightarrow> Some (post_kill conn s)
      | Some i \<Rightarrow>
          let c = sv_clients s ! i in
          if unat (hc_bufused c) + length data > length (hc_buf c) then Some (post_kill conn s)
          else
            let c1 = c\<lparr>hc_buf := patch (hc_buf c) (unat (hc_bufused c)) data,
                       hc_bufused := hc_bufused c + of_nat (length data)\<rparr>
            in case http_process env ((sv_world s)\<lparr>w_client := c1, w_id := i\<rparr>) of
                 Return r w \<Rightarrow>
                   let s1 = s\<lparr>sv_world := w, sv_clients := (sv_clients s)[i := w_client w]\<rparr>
                   in Some (if r \<noteq> 0 then post_kill conn s1 else s1)
               | _ \<Rightarrow> None)"

end
