(* ===== verification/I2c.thy ===== *)
theory I2c
  imports Prelude "HOL-Library.State_Monad"
begin

text \<open>
  The bit-banged I2C master of \<^verbatim>\<open>src/i2c/i2c_master.c\<close> and \<^verbatim>\<open>i2c_master.h\<close>. The functions are programs
  of the state monad over \<open>i2c_state\<close>: the two static variables, the GPIO registers that
  \<^verbatim>\<open>i2c_master_gpio_init\<close> changes, the number of pin reads so far, and the trace of SDK calls, oldest first.
  What the SDA pin reads is the parameter \<open>gpio\<close>: \<open>gpio k\<close> is the level of the pin at the \<open>k\<close>-th
  \<^verbatim>\<open>GPIO_INPUT_GET\<close>, which returns it as 0 or 1. The second half decodes a trace into I2C bus events by the rules of the bus and shows
  that each function puts exactly its event sequence on the bus; the contract is the locale
  \<open>i2c_driver\<close>, which the functions interpret.
\<close>

section \<open>The code\<close>

datatype io_mux = PERIPHS_IO_MUX_GPIO0_U | PERIPHS_IO_MUX_GPIO2_U

datatype io_func = FUNC_GPIO0 | FUNC_GPIO2

datatype gpio_reg = GPIO_PIN_ADDR nat | GPIO_ENABLE_ADDRESS

datatype i2c_call =
    Gpio_output_set u32 u32 u32 u32
  | Os_delay_us nat
  | Gpio_input_get nat
  | Pin_func_select io_mux io_func
  | Gpio_intr_disable
  | Gpio_intr_enable
  | Soft_wdt_feed

record i2c_state =
  m_nLastSDA :: u8
  m_nLastSCL :: u8
  i2c_regs :: "gpio_reg \<Rightarrow> u32"
  i2c_reads :: nat
  i2c_calls :: "i2c_call list"

type_synonym 'a i2c = "(i2c_state, 'a) state"

definition I2C_MASTER_SDA_MUX :: io_mux where "I2C_MASTER_SDA_MUX = PERIPHS_IO_MUX_GPIO0_U"
definition I2C_MASTER_SCL_MUX :: io_mux where "I2C_MASTER_SCL_MUX = PERIPHS_IO_MUX_GPIO2_U"
definition I2C_MASTER_SDA_GPIO :: nat where "I2C_MASTER_SDA_GPIO = 0"
definition I2C_MASTER_SCL_GPIO :: nat where "I2C_MASTER_SCL_GPIO = 2"
definition I2C_MASTER_SDA_FUNC :: io_func where "I2C_MASTER_SDA_FUNC = FUNC_GPIO0"
definition I2C_MASTER_SCL_FUNC :: io_func where "I2C_MASTER_SCL_FUNC = FUNC_GPIO2"

definition sdk_call :: "i2c_call \<Rightarrow> unit i2c" where
  "sdk_call c = State_Monad.update (\<lambda>s. s\<lparr>i2c_calls := i2c_calls s @ [c]\<rparr>)"

definition i2c_master_wait :: "nat \<Rightarrow> unit i2c" where
  "i2c_master_wait us = sdk_call (Os_delay_us us)"

text \<open>\<^verbatim>\<open>1 << pin\<close>, and the two together.\<close>

definition SDA_bit :: u32 where "SDA_bit = push_bit I2C_MASTER_SDA_GPIO 1"
definition SCL_bit :: u32 where "SCL_bit = push_bit I2C_MASTER_SCL_GPIO 1"

definition I2C_MASTER_SDA_HIGH_SCL_HIGH :: "unit i2c" where
  "I2C_MASTER_SDA_HIGH_SCL_HIGH = sdk_call (Gpio_output_set (SDA_bit OR SCL_bit) 0 (SDA_bit OR SCL_bit) 0)"

definition I2C_MASTER_SDA_HIGH_SCL_LOW :: "unit i2c" where
  "I2C_MASTER_SDA_HIGH_SCL_LOW = sdk_call (Gpio_output_set SDA_bit SCL_bit (SDA_bit OR SCL_bit) 0)"

definition I2C_MASTER_SDA_LOW_SCL_HIGH :: "unit i2c" where
  "I2C_MASTER_SDA_LOW_SCL_HIGH = sdk_call (Gpio_output_set SCL_bit SDA_bit (SDA_bit OR SCL_bit) 0)"

definition I2C_MASTER_SDA_LOW_SCL_LOW :: "unit i2c" where
  "I2C_MASTER_SDA_LOW_SCL_LOW = sdk_call (Gpio_output_set 0 (SDA_bit OR SCL_bit) (SDA_bit OR SCL_bit) 0)"

definition i2c_master_setDC :: "u8 \<Rightarrow> u8 \<Rightarrow> unit i2c" where
  "i2c_master_setDC SDA0 SCL0 =
     (let SDA = SDA0 AND 0x01; SCL = SCL0 AND 0x01 in
      do {
        State_Monad.update (\<lambda>s. s\<lparr>m_nLastSDA := SDA, m_nLastSCL := SCL\<rparr>);
        if 0 = SDA \<and> 0 = SCL then I2C_MASTER_SDA_LOW_SCL_LOW
        else if 0 = SDA \<and> 1 = SCL then I2C_MASTER_SDA_LOW_SCL_HIGH
        else if 1 = SDA \<and> 0 = SCL then I2C_MASTER_SDA_HIGH_SCL_LOW
        else I2C_MASTER_SDA_HIGH_SCL_HIGH
      })"

definition i2c_master_getDC :: "(nat \<Rightarrow> bool) \<Rightarrow> u8 i2c" where
  "i2c_master_getDC gpio =
     do {
       s \<leftarrow> State_Monad.get;
       State_Monad.set (s\<lparr>i2c_reads := i2c_reads s + 1, i2c_calls := i2c_calls s @ [Gpio_input_get I2C_MASTER_SDA_GPIO]\<rparr>);
       State_Monad.return (of_bool (gpio (i2c_reads s)))
     }"

definition i2c_master_stop :: "unit i2c" where
  "i2c_master_stop =
     do {
       i2c_master_wait 5;
       s \<leftarrow> State_Monad.get;
       i2c_master_setDC 0 (m_nLastSCL s);
       i2c_master_wait 5;
       i2c_master_setDC 0 1;
       i2c_master_wait 5;
       i2c_master_setDC 1 1;
       i2c_master_wait 5
     }"

text \<open>A \<^verbatim>\<open>for\<close> loop over the values \<open>is\<close> of its counter, with the local variable it carries.\<close>

primrec for_loop :: "(nat \<Rightarrow> 'b \<Rightarrow> 'b i2c) \<Rightarrow> nat list \<Rightarrow> 'b \<Rightarrow> 'b i2c" where
  "for_loop body [] v = State_Monad.return v"
| "for_loop body (i # is) v = do { v' \<leftarrow> body i v; for_loop body is v' }"

definition i2c_master_init :: "unit i2c" where
  "i2c_master_init =
     do {
       i2c_master_setDC 1 0;
       i2c_master_wait 5;
       i2c_master_setDC 0 0;
       i2c_master_wait 5;
       i2c_master_setDC 1 0;
       i2c_master_wait 5;
       for_loop (\<lambda>i v. do {
         i2c_master_setDC 1 0;
         i2c_master_wait 5;
         i2c_master_setDC 1 1;
         i2c_master_wait 5
       }) [0..<28] ();
       i2c_master_stop
     }"

text \<open>\<^verbatim>\<open>GPIO_REG_WRITE(reg, GPIO_REG_READ(reg) | bits)\<close>.\<close>

definition gpio_reg_or :: "gpio_reg \<Rightarrow> u32 \<Rightarrow> unit i2c" where
  "gpio_reg_or reg bs = State_Monad.update (\<lambda>s. s\<lparr>i2c_regs := (i2c_regs s)(reg := i2c_regs s reg OR bs)\<rparr>)"

text \<open>\<open>pad\<close> is the SDK's \<^verbatim>\<open>GPIO_PIN_PAD_DRIVER_SET(GPIO_PAD_DRIVER_ENABLE)\<close>.\<close>

definition i2c_master_gpio_init :: "u32 \<Rightarrow> unit i2c" where
  "i2c_master_gpio_init pad =
     do {
       sdk_call Gpio_intr_disable;
       sdk_call (Pin_func_select I2C_MASTER_SDA_MUX I2C_MASTER_SDA_FUNC);
       sdk_call (Pin_func_select I2C_MASTER_SCL_MUX I2C_MASTER_SCL_FUNC);
       gpio_reg_or (GPIO_PIN_ADDR I2C_MASTER_SDA_GPIO) pad;
       gpio_reg_or GPIO_ENABLE_ADDRESS SDA_bit;
       gpio_reg_or (GPIO_PIN_ADDR I2C_MASTER_SCL_GPIO) pad;
       gpio_reg_or GPIO_ENABLE_ADDRESS SCL_bit;
       I2C_MASTER_SDA_HIGH_SCL_HIGH;
       sdk_call Gpio_intr_enable;
       i2c_master_init
     }"

definition i2c_master_start :: "unit i2c" where
  "i2c_master_start =
     do {
       s \<leftarrow> State_Monad.get;
       i2c_master_setDC 1 (m_nLastSCL s);
       i2c_master_wait 5;
       i2c_master_setDC 1 1;
       i2c_master_wait 5;
       i2c_master_setDC 0 1;
       i2c_master_wait 5
     }"

definition i2c_master_setAck :: "u8 \<Rightarrow> unit i2c" where
  "i2c_master_setAck level =
     do {
       s \<leftarrow> State_Monad.get;
       i2c_master_setDC (m_nLastSDA s) 0;
       i2c_master_wait 5;
       i2c_master_setDC level 0;
       i2c_master_wait 5;
       i2c_master_setDC level 1;
       i2c_master_wait 8;
       i2c_master_setDC level 0;
       i2c_master_wait 5;
       i2c_master_setDC 1 0;
       i2c_master_wait 5
     }"

definition i2c_master_getAck :: "(nat \<Rightarrow> bool) \<Rightarrow> u8 i2c" where
  "i2c_master_getAck gpio =
     do {
       s \<leftarrow> State_Monad.get;
       i2c_master_setDC (m_nLastSDA s) 0;
       i2c_master_wait 5;
       i2c_master_setDC 1 0;
       i2c_master_wait 5;
       i2c_master_setDC 1 1;
       i2c_master_wait 5;
       retVal \<leftarrow> i2c_master_getDC gpio;
       i2c_master_wait 5;
       i2c_master_setDC 1 0;
       i2c_master_wait 5;
       State_Monad.return retVal
     }"

definition i2c_master_checkAck :: "(nat \<Rightarrow> bool) \<Rightarrow> bool i2c" where
  "i2c_master_checkAck gpio =
     do {
       r \<leftarrow> i2c_master_getAck gpio;
       State_Monad.return (if r \<noteq> 0 then False else True)
     }"

definition i2c_master_send_ack :: "unit i2c" where
  "i2c_master_send_ack = i2c_master_setAck 0x0"

definition i2c_master_send_nack :: "unit i2c" where
  "i2c_master_send_nack = i2c_master_setAck 0x1"

definition i2c_master_readByte :: "(nat \<Rightarrow> bool) \<Rightarrow> u8 i2c" where
  "i2c_master_readByte gpio =
     do {
       i2c_master_wait 5;
       s \<leftarrow> State_Monad.get;
       i2c_master_setDC (m_nLastSDA s) 0;
       i2c_master_wait 5;
       retVal \<leftarrow> for_loop (\<lambda>i retVal. do {
         i2c_master_wait 5;
         i2c_master_setDC 1 0;
         i2c_master_wait 5;
         i2c_master_setDC 1 1;
         i2c_master_wait 5;
         k \<leftarrow> i2c_master_getDC gpio;
         i2c_master_wait 5;
         (if i = 7 then i2c_master_wait 3 else State_Monad.return ());
         State_Monad.return (retVal OR push_bit (7 - i) k)
       }) [0..<8] 0;
       i2c_master_setDC 1 0;
       i2c_master_wait 5;
       State_Monad.return retVal
     }"

definition i2c_master_writeByte :: "u8 \<Rightarrow> unit i2c" where
  "i2c_master_writeByte wrdata =
     do {
       i2c_master_wait 5;
       s \<leftarrow> State_Monad.get;
       i2c_master_setDC (m_nLastSDA s) 0;
       i2c_master_wait 5;
       for_loop (\<lambda>i v. do {
         let dat = drop_bit i wrdata;
         i2c_master_setDC dat 0;
         i2c_master_wait 5;
         i2c_master_setDC dat 1;
         i2c_master_wait 5;
         (if i = 0 then i2c_master_wait 3 else State_Monad.return ());
         i2c_master_setDC dat 0;
         i2c_master_wait 5
       }) (rev [0..<8]) ()
     }"

section \<open>The bus\<close>

text \<open>
  The reading of a trace by the rules of the bus. SDA may change while SCL is high only in a START
  (falling) or a STOP (rising); a clock pulse without such a change transfers the bit on SDA, and is
  complete when SCL falls. Both lines changing at once, or a change less than 5 microseconds after the
  previous one, is a \<open>Glitch\<close>: the standard-mode bus asks for at least 4.7 microseconds.
\<close>

datatype bus_event = Start | Stop | Bit bool | Glitch

record bus =
  bus_sda :: bool
  bus_scl :: bool
  bus_clean :: bool
  bus_quiet :: nat
  bus_reads :: nat
  bus_events :: "bus_event list"

definition bus_edge :: "bool \<Rightarrow> bool \<Rightarrow> bus \<Rightarrow> bus_event list" where
  "bus_edge sda scl b =
     (if sda = bus_sda b \<and> scl = bus_scl b then []
      else if bus_quiet b < 5 \<or> (sda \<noteq> bus_sda b \<and> scl \<noteq> bus_scl b) then [Glitch]
      else if bus_scl b \<and> scl then [if sda then Stop else Start]
      else if bus_scl b \<and> bus_clean b then [Bit (bus_sda b)]
      else [])"

definition bus_set :: "bool \<Rightarrow> bool \<Rightarrow> bus \<Rightarrow> bus" where
  "bus_set sda scl b = b\<lparr>bus_sda := sda, bus_scl := scl,
     bus_clean := (if scl \<and> \<not> bus_scl b then True else if scl \<and> sda \<noteq> bus_sda b then False else bus_clean b),
     bus_quiet := (if sda = bus_sda b \<and> scl = bus_scl b then bus_quiet b else 0),
     bus_events := bus_events b @ bus_edge sda scl b\<rparr>"

definition pin_level :: "nat \<Rightarrow> u32 \<Rightarrow> u32 \<Rightarrow> bool \<Rightarrow> bool" where
  "pin_level n set_mask clear_mask old \<longleftrightarrow> bit set_mask n \<or> old \<and> \<not> bit clear_mask n"

fun bus_call :: "i2c_call \<Rightarrow> bus \<Rightarrow> bus" where
  "bus_call (Gpio_output_set s c e d) b =
     bus_set (pin_level I2C_MASTER_SDA_GPIO s c (bus_sda b)) (pin_level I2C_MASTER_SCL_GPIO s c (bus_scl b)) b"
| "bus_call (Os_delay_us n) b = b\<lparr>bus_quiet := bus_quiet b + n\<rparr>"
| "bus_call (Gpio_input_get n) b = b\<lparr>bus_reads := bus_reads b + 1\<rparr>"
| "bus_call _ b = b"

text \<open>The bus after the calls of \<open>s\<close>, if it was \<open>b0\<close> before.\<close>

definition i2c_bus :: "bus \<Rightarrow> i2c_state \<Rightarrow> bus" where
  "i2c_bus b0 s = fold bus_call (i2c_calls s) b0"

text \<open>The static variables are the line levels, and the lines are at rest.\<close>

definition i2c_inv :: "bus \<Rightarrow> i2c_state \<Rightarrow> bool" where
  "i2c_inv b0 s \<longleftrightarrow> m_nLastSDA s = of_bool (bus_sda (i2c_bus b0 s)) \<and> m_nLastSCL s = of_bool (bus_scl (i2c_bus b0 s)) \<and>
     i2c_reads s = bus_reads (i2c_bus b0 s) \<and> 5 \<le> bus_quiet (i2c_bus b0 s)"

text \<open>
  The view of a client: where the bus is between two operations, how often SDA was read, and what
  happened.
\<close>

datatype phase = Idle | Started | Low | Pulse bool

record wire =
  wire_phase :: phase
  wire_reads :: nat
  wire_events :: "bus_event list"

definition bus_phase :: "bus \<Rightarrow> phase" where
  "bus_phase b = (if \<not> bus_scl b then Low else if bus_clean b then Pulse (bus_sda b) else if bus_sda b then Idle else Started)"

definition i2c_view :: "bus \<Rightarrow> i2c_state \<Rightarrow> wire" where
  "i2c_view b0 s = \<lparr>wire_phase = bus_phase (i2c_bus b0 s), wire_reads = bus_reads (i2c_bus b0 s),
     wire_events = bus_events (i2c_bus b0 s)\<rparr>"

text \<open>The operations on the view.\<close>

definition wire_do :: "phase \<Rightarrow> nat \<Rightarrow> bus_event list \<Rightarrow> wire \<Rightarrow> wire" where
  "wire_do p n es w = \<lparr>wire_phase = p, wire_reads = wire_reads w + n, wire_events = wire_events w @ es\<rparr>"

definition byte_bits :: "u8 \<Rightarrow> bus_event list" where
  "byte_bits b = map (\<lambda>i. Bit (bit b i)) (rev [0..<8])"

text \<open>The byte whose bits are the eight reads from \<open>k\<close> on, most significant first.\<close>

definition byte_in :: "(nat \<Rightarrow> bool) \<Rightarrow> nat \<Rightarrow> u8" where
  "byte_in gpio k = foldl (\<lambda>v i. 2 * v + of_bool (gpio (k + i))) 0 [0..<8]"

text \<open>A program \<open>m\<close> that keeps \<open>ok\<close> and acts as \<open>f\<close> on the view, when started in a phase of \<open>P\<close>.\<close>

definition implements ::
    "('s \<Rightarrow> bool) \<Rightarrow> ('s \<Rightarrow> wire) \<Rightarrow> ('s, 'a) state \<Rightarrow> phase set \<Rightarrow> (wire \<Rightarrow> 'a \<times> wire) \<Rightarrow> bool" where
  "implements ok view m P f \<longleftrightarrow> (\<forall>s. ok s \<longrightarrow> wire_phase (view s) \<in> P \<longrightarrow>
     ok (snd (run_state m s)) \<and> fst (run_state m s) = fst (f (view s)) \<and> view (snd (run_state m s)) = snd (f (view s)))"

locale i2c_driver =
  fixes ok :: "'s \<Rightarrow> bool" and view :: "'s \<Rightarrow> wire" and gpio :: "nat \<Rightarrow> bool"
    and start stop send_ack send_nack :: "('s, unit) state"
    and writeByte :: "u8 \<Rightarrow> ('s, unit) state" and checkAck :: "('s, bool) state" and readByte :: "('s, u8) state"
  assumes start: "implements ok view start {Idle, Low} (\<lambda>w. ((), wire_do Started 0 [Start] w))"
    and stop: "implements ok view stop {Low} (\<lambda>w. ((), wire_do Idle 0 [Stop] w))"
    and writeByte: "implements ok view (writeByte b) {Started, Low} (\<lambda>w. ((), wire_do Low 0 (byte_bits b) w))"
    and checkAck: "implements ok view checkAck {Low} (\<lambda>w. (\<not> gpio (wire_reads w), wire_do Low 1 [Bit True] w))"
    and readByte: "implements ok view readByte {Low} (\<lambda>w. (byte_in gpio (wire_reads w), wire_do Low 8 (replicate 8 (Bit True)) w))"
    and send_ack: "implements ok view send_ack {Low} (\<lambda>w. ((), wire_do Low 0 [Bit False] w))"
    and send_nack: "implements ok view send_nack {Low} (\<lambda>w. ((), wire_do Low 0 [Bit True] w))"

section \<open>Steps\<close>

lemma wire_do_sel [simp]:
  "wire_phase (wire_do p n es w) = p" "wire_reads (wire_do p n es w) = wire_reads w + n"
  "wire_events (wire_do p n es w) = wire_events w @ es"
  by (simp_all add: wire_do_def)

lemma wire_do_do [simp]: "wire_do p n es (wire_do q m ds w) = wire_do p (m + n) (ds @ es) w"
  by (simp add: wire_do_def)

lemma u8_and_1: "(a :: u8) AND 1 = of_bool (bit a 0)"
  by (simp add: and_one_eq bit_0 mod_2_eq_odd)

lemma pin_masks [simp]:
  "bit SDA_bit 0" "\<not> bit SDA_bit 2" "bit SCL_bit 2" "\<not> bit SCL_bit 0"
  by (simp_all add: SDA_bit_def SCL_bit_def I2C_MASTER_SDA_GPIO_def I2C_MASTER_SCL_GPIO_def bit_simps)

lemmas pin_defs = I2C_MASTER_SDA_GPIO_def I2C_MASTER_SCL_GPIO_def pin_level_def

lemma run_update [simp]: "run_state (State_Monad.update f) s = ((), f s)"
  by (simp add: State_Monad.update_def)

lemma i2c_bus_snoc [simp]: "i2c_bus b0 (s\<lparr>i2c_calls := i2c_calls s @ [c]\<rparr>) = bus_call c (i2c_bus b0 s)"
  by (simp add: i2c_bus_def)

lemma setDC_run:
  "run_state (i2c_master_setDC a c) s = ((), s\<lparr>m_nLastSDA := of_bool (bit a 0), m_nLastSCL := of_bool (bit c 0),
     i2c_calls := i2c_calls s @ [Gpio_output_set (if bit a 0 then if bit c 0 then SDA_bit OR SCL_bit else SDA_bit
       else if bit c 0 then SCL_bit else 0) (if bit a 0 then if bit c 0 then 0 else SCL_bit else if bit c 0 then SDA_bit else SDA_bit OR SCL_bit)
       (SDA_bit OR SCL_bit) 0]\<rparr>)"
  by (simp add: i2c_master_setDC_def Let_def u8_and_1 sdk_call_def I2C_MASTER_SDA_HIGH_SCL_HIGH_def
      I2C_MASTER_SDA_HIGH_SCL_LOW_def I2C_MASTER_SDA_LOW_SCL_HIGH_def I2C_MASTER_SDA_LOW_SCL_LOW_def)

lemma setDC [simp]:
  "i2c_bus b0 (snd (run_state (i2c_master_setDC a c) s)) = bus_set (bit a 0) (bit c 0) (i2c_bus b0 s)"
  "m_nLastSDA (snd (run_state (i2c_master_setDC a c) s)) = of_bool (bit a 0)"
  "m_nLastSCL (snd (run_state (i2c_master_setDC a c) s)) = of_bool (bit c 0)"
  "i2c_reads (snd (run_state (i2c_master_setDC a c) s)) = i2c_reads s"
  by (simp_all add: setDC_run i2c_bus_def pin_defs bit_simps)

lemma wait_run [simp]:
  "i2c_bus b0 (snd (run_state (i2c_master_wait n) s)) = (i2c_bus b0 s)\<lparr>bus_quiet := bus_quiet (i2c_bus b0 s) + n\<rparr>"
  "m_nLastSDA (snd (run_state (i2c_master_wait n) s)) = m_nLastSDA s"
  "m_nLastSCL (snd (run_state (i2c_master_wait n) s)) = m_nLastSCL s"
  "i2c_reads (snd (run_state (i2c_master_wait n) s)) = i2c_reads s"
  by (simp_all add: i2c_master_wait_def sdk_call_def i2c_bus_def)

lemma getDC [simp]:
  "fst (run_state (i2c_master_getDC gpio) s) = of_bool (gpio (i2c_reads s))"
  "i2c_bus b0 (snd (run_state (i2c_master_getDC gpio) s)) = (i2c_bus b0 s)\<lparr>bus_reads := bus_reads (i2c_bus b0 s) + 1\<rparr>"
  "m_nLastSDA (snd (run_state (i2c_master_getDC gpio) s)) = m_nLastSDA s"
  "m_nLastSCL (snd (run_state (i2c_master_getDC gpio) s)) = m_nLastSCL s"
  "i2c_reads (snd (run_state (i2c_master_getDC gpio) s)) = i2c_reads s + 1"
  by (simp_all add: i2c_master_getDC_def i2c_bus_def)

lemma wait_if_run [simp]:
  "i2c_bus b0 (snd (run_state (if c then i2c_master_wait n else State_Monad.return ()) s)) =
     (i2c_bus b0 s)\<lparr>bus_quiet := bus_quiet (i2c_bus b0 s) + (if c then n else 0)\<rparr>"
  "m_nLastSDA (snd (run_state (if c then i2c_master_wait n else State_Monad.return ()) s)) = m_nLastSDA s"
  "m_nLastSCL (snd (run_state (if c then i2c_master_wait n else State_Monad.return ()) s)) = m_nLastSCL s"
  "i2c_reads (snd (run_state (if c then i2c_master_wait n else State_Monad.return ()) s)) = i2c_reads s"
  by simp_all

lemma bus_phase_simps [simp]:
  "bus_phase b = Low \<longleftrightarrow> \<not> bus_scl b" "bus_phase b = Pulse l \<longleftrightarrow> bus_scl b \<and> bus_clean b \<and> bus_sda b = l"
  "bus_phase b = Idle \<longleftrightarrow> bus_scl b \<and> \<not> bus_clean b \<and> bus_sda b"
  "bus_phase b = Started \<longleftrightarrow> bus_scl b \<and> \<not> bus_clean b \<and> \<not> bus_sda b"
  by (simp_all add: bus_phase_def)

lemmas bus_simps = bus_set_def bus_edge_def i2c_view_def i2c_inv_def split_beta wire_do_def

lemma start_implements:
  "implements (i2c_inv b0) (i2c_view b0) i2c_master_start {Idle, Low} (\<lambda>w. ((), wire_do Started 0 [Start] w))"
  unfolding implements_def i2c_master_start_def by (auto simp: bus_simps)

lemma stop_implements:
  "implements (i2c_inv b0) (i2c_view b0) i2c_master_stop {Low} (\<lambda>w. ((), wire_do Idle 0 [Stop] w))"
  unfolding implements_def i2c_master_stop_def by (auto simp: bus_simps)

lemma setAck_implements:
  "implements (i2c_inv b0) (i2c_view b0) (i2c_master_setAck l) {Low} (\<lambda>w. ((), wire_do Low 0 [Bit (bit l 0)] w))"
  unfolding implements_def i2c_master_setAck_def by (auto simp: bus_simps)

lemma getAck_implements:
  "implements (i2c_inv b0) (i2c_view b0) (i2c_master_getAck gpio) {Low}
     (\<lambda>w. (of_bool (gpio (wire_reads w)), wire_do Low 1 [Bit True] w))"
  unfolding implements_def i2c_master_getAck_def by (auto simp: bus_simps)

section \<open>Loops\<close>

lemma implements_bind:
  assumes "implements ok view m P f" "\<And>a. implements ok view (k a) Q (h a)"
    and "\<And>w. wire_phase w \<in> P \<Longrightarrow> wire_phase (snd (f w)) \<in> Q"
  shows "implements ok view (State_Monad.bind m k) P (\<lambda>w. case f w of (a, w') \<Rightarrow> h a w')"
  using assms unfolding implements_def by (simp add: split_beta)

lemma implements_return: "implements ok view (State_Monad.return a) P (\<lambda>w. (a, w))"
  by (simp add: implements_def)

lemma implements_for_loop:
  assumes "\<And>i v. i \<in> set is \<Longrightarrow> implements ok view (body i v) P (f i v)"
    and "\<And>i v w. wire_phase w \<in> P \<Longrightarrow> wire_phase (snd (f i v w)) \<in> P"
  shows "implements ok view (for_loop body is v) P (\<lambda>w. fold (\<lambda>i (v, w). f i v w) is (v, w))"
  using assms(1)
proof (induction "is" arbitrary: v)
  case (Cons i "is")
  have "implements ok view (for_loop body (i # is) v) P (\<lambda>w. case f i v w of (v', w') \<Rightarrow> fold (\<lambda>i (v, w). f i v w) is (v', w'))"
    unfolding for_loop.simps by (rule implements_bind) (use Cons assms(2) in auto)
  then show ?case by simp
qed (simp add: implements_return)

lemma write_bit:
  "implements (i2c_inv b0) (i2c_view b0)
     (do { let dat = drop_bit i b; i2c_master_setDC dat 0; i2c_master_wait 5; i2c_master_setDC dat 1; i2c_master_wait 5;
           (if i = 0 then i2c_master_wait 3 else State_Monad.return ()); i2c_master_setDC dat 0; i2c_master_wait 5 })
     {Low} (\<lambda>w. ((), wire_do Low 0 [Bit (bit b i)] w))"
  unfolding implements_def
  by (cases "bit b i") (auto simp: bus_simps bit_drop_bit_eq Let_def)

lemma read_bit:
  "implements (i2c_inv b0) (i2c_view b0)
     (do { i2c_master_wait 5; i2c_master_setDC 1 0; i2c_master_wait 5; i2c_master_setDC 1 1; i2c_master_wait 5;
           k \<leftarrow> i2c_master_getDC gpio; i2c_master_wait 5;
           (if i = 7 then i2c_master_wait 3 else State_Monad.return ());
           State_Monad.return (v OR push_bit (7 - i) k) })
     {Low, Pulse True} (\<lambda>w. (v OR push_bit (7 - i) (of_bool (gpio (wire_reads w))),
        wire_do (Pulse True) 1 (if wire_phase w = Low then [] else [Bit True]) w))"
  unfolding implements_def by (auto simp: bus_simps)

text \<open>The first lines of \<^verbatim>\<open>readByte\<close> and \<^verbatim>\<open>writeByte\<close>, and the last ones of \<^verbatim>\<open>readByte\<close>.\<close>

lemma pull_low:
  "implements (i2c_inv b0) (i2c_view b0)
     (do { i2c_master_wait 5; s \<leftarrow> State_Monad.get; i2c_master_setDC (m_nLastSDA s) 0; i2c_master_wait 5 })
     {Started, Low} (\<lambda>w. ((), wire_do Low 0 [] w))"
  unfolding implements_def by (auto simp: bus_simps)

lemma read_end:
  "implements (i2c_inv b0) (i2c_view b0)
     (do { i2c_master_setDC 1 0; i2c_master_wait 5; State_Monad.return r })
     {Low, Pulse True} (\<lambda>w. (r, wire_do Low 0 (if wire_phase w = Low then [] else [Bit True]) w))"
  unfolding implements_def by (auto simp: bus_simps)

lemma implements_weaken:
  "implements ok view m P f \<Longrightarrow> (\<And>w. wire_phase w \<in> Q \<Longrightarrow> g w = f w) \<Longrightarrow> Q \<subseteq> P \<Longrightarrow> implements ok view m Q g"
  unfolding implements_def by (metis subsetD)

lemma fold_write_bits:
  "wire_phase w = Low \<Longrightarrow>
   fold (\<lambda>i (v, w). ((), wire_do Low 0 [Bit (bit b i)] w)) is ((), w) = ((), wire_do Low 0 (map (\<lambda>i. Bit (bit b i)) is) w)"
proof (induction "is" arbitrary: w)
  case Nil
  then show ?case by (simp add: wire_do_def)
qed simp

lemma writeByte_implements:
  "implements (i2c_inv b0) (i2c_view b0) (i2c_master_writeByte b) {Started, Low} (\<lambda>w. ((), wire_do Low 0 (byte_bits b) w))"
proof -
  define body where "body = (\<lambda>i (v :: unit). do { let dat = drop_bit i b; i2c_master_setDC dat 0; i2c_master_wait 5;
    i2c_master_setDC dat 1; i2c_master_wait 5; (if i = 0 then i2c_master_wait 3 else State_Monad.return ());
    i2c_master_setDC dat 0; i2c_master_wait 5 })"
  have l: "implements (i2c_inv b0) (i2c_view b0) (for_loop body (rev [0..<8]) ()) {Low}
      (\<lambda>w. fold (\<lambda>i (v, w). ((), wire_do Low 0 [Bit (bit b i)] w)) (rev [0..<8]) ((), w))"
    by (rule implements_for_loop) (simp_all only: body_def write_bit wire_do_sel snd_conv insertI1)
  note w = implements_bind [OF pull_low l]
  have "i2c_master_writeByte b = State_Monad.bind (do { i2c_master_wait 5; s \<leftarrow> State_Monad.get;
      i2c_master_setDC (m_nLastSDA s) 0; i2c_master_wait 5 }) (\<lambda>_. for_loop body (rev [0..<8]) ())"
    unfolding i2c_master_writeByte_def body_def by simp
  then show ?thesis
    using implements_weaken [OF w, of "{Started, Low}" "\<lambda>w. ((), wire_do Low 0 (byte_bits b) w)"]
    by (simp add: fold_write_bits byte_bits_def del: upt.simps)
qed

text \<open>What the loop of \<^verbatim>\<open>readByte\<close> has collected after \<open>n\<close> turns.\<close>

lemma or_next_bit:
  "n < 8 \<Longrightarrow> push_bit (8 - n) (h :: u8) OR push_bit (7 - n) (of_bool b) = push_bit (8 - Suc n) (2 * h + of_bool b)"
proof -
  assume "n < 8"
  then have "8 - n = Suc (7 - n)" by simp
  then have "push_bit (8 - n) h = push_bit (7 - n) (2 * h)" by (simp only: push_bit_Suc mult.commute)
  moreover have "2 * h OR of_bool b = 2 * h + of_bool b" by (cases b) (simp_all add: or_one_eq)
  ultimately show ?thesis by (simp flip: push_bit_or)
qed

lemma fold_read_bits:
  assumes "wire_phase w = Low"
  shows "n \<le> 8 \<Longrightarrow> fold (\<lambda>i (v, w). (v OR push_bit (7 - i) (of_bool (gpio (wire_reads w))),
        wire_do (Pulse True) 1 (if wire_phase w = Low then [] else [Bit True]) w)) [0..<n] (0 :: u8, w) =
   (push_bit (8 - n) (foldl (\<lambda>v i. 2 * v + of_bool (gpio (wire_reads w + i))) 0 [0..<n]),
    if n = 0 then w else wire_do (Pulse True) n (replicate (n - 1) (Bit True)) w)"
proof (induction n)
  case (Suc n)
  have "replicate (n - 1) (Bit True) @ [Bit True] = replicate n (Bit True)" if "0 < n"
    using that by (cases n) (simp_all add: replicate_append_same)
  then show ?case using Suc assms or_next_bit [of n] by auto
qed simp

lemma readByte_implements:
  "implements (i2c_inv b0) (i2c_view b0) (i2c_master_readByte gpio) {Low}
     (\<lambda>w. (byte_in gpio (wire_reads w), wire_do Low 8 (replicate 8 (Bit True)) w))"
proof -
  define body where "body = (\<lambda>i (v :: u8). do { i2c_master_wait 5; i2c_master_setDC 1 0; i2c_master_wait 5;
    i2c_master_setDC 1 1; i2c_master_wait 5; k \<leftarrow> i2c_master_getDC gpio; i2c_master_wait 5;
    (if i = 7 then i2c_master_wait 3 else State_Monad.return ()); State_Monad.return (v OR push_bit (7 - i) k) })"
  define F where "F = (\<lambda>i (v :: u8, w). (v OR push_bit (7 - i) (of_bool (gpio (wire_reads w))),
      wire_do (Pulse True) 1 (if wire_phase w = Low then [] else [Bit True]) w))"
  have l: "implements (i2c_inv b0) (i2c_view b0) (for_loop body [0..<8] 0) {Low, Pulse True} (\<lambda>w. fold F [0..<8] (0, w))"
    unfolding F_def by (rule implements_for_loop) (simp_all only: body_def read_bit wire_do_sel snd_conv insert_iff simp_thms)
  have e: "implements (i2c_inv b0) (i2c_view b0) (State_Monad.bind (for_loop body [0..<8] 0)
      (\<lambda>r. do { i2c_master_setDC 1 0; i2c_master_wait 5; State_Monad.return r })) {Low}
      (\<lambda>w. case fold F [0..<8] (0, w) of (r, w') \<Rightarrow> (r, wire_do Low 0 (if wire_phase w' = Low then [] else [Bit True]) w'))"
    by (rule implements_bind [OF implements_weaken [OF l] read_end])
      (use fold_read_bits [of _ 8] in \<open>simp_all add: F_def del: upt.simps\<close>)
  note r = implements_bind [OF pull_low e]
  have "i2c_master_readByte gpio = State_Monad.bind (do { i2c_master_wait 5; s \<leftarrow> State_Monad.get;
      i2c_master_setDC (m_nLastSDA s) 0; i2c_master_wait 5 }) (\<lambda>_. State_Monad.bind (for_loop body [0..<8] 0)
      (\<lambda>r. do { i2c_master_setDC 1 0; i2c_master_wait 5; State_Monad.return r }))"
    unfolding i2c_master_readByte_def body_def by simp
  moreover have "replicate 7 (Bit True) @ [Bit True] = replicate 8 (Bit True)" by (simp add: eval_nat_numeral)
  ultimately show ?thesis
    using implements_weaken [OF r, of "{Low}" "\<lambda>w. (byte_in gpio (wire_reads w), wire_do Low 8 (replicate 8 (Bit True)) w)"]
      fold_read_bits [of "wire_do Low 0 [] _" 8]
    by (simp add: F_def byte_in_def del: upt.simps)
qed

lemma checkAck_implements:
  "implements (i2c_inv b0) (i2c_view b0) (i2c_master_checkAck gpio) {Low}
     (\<lambda>w. (\<not> gpio (wire_reads w), wire_do Low 1 [Bit True] w))"
  unfolding i2c_master_checkAck_def
  by (rule implements_weaken [OF implements_bind [OF getAck_implements implements_return, where Q = "{Low}"]]) simp_all

lemma ack_implements:
  "implements (i2c_inv b0) (i2c_view b0) i2c_master_send_ack {Low} (\<lambda>w. ((), wire_do Low 0 [Bit False] w))"
  "implements (i2c_inv b0) (i2c_view b0) i2c_master_send_nack {Low} (\<lambda>w. ((), wire_do Low 0 [Bit True] w))"
  using setAck_implements [of b0 0] setAck_implements [of b0 1]
  by (simp_all add: i2c_master_send_ack_def i2c_master_send_nack_def)

section \<open>The contract\<close>

context i2c_driver
begin

lemma abort: "implements ok view (do { stop; State_Monad.return r }) {Low} (\<lambda>w. (r, wire_do Idle 0 [Stop] w))"
  by (rule implements_weaken [OF implements_bind [OF stop implements_return, where Q = "{Idle}"]]) simp_all

text \<open>A byte that the peer has to acknowledge, or else the transaction is broken off with \<open>r\<close>.\<close>

lemma frame:
  assumes "implements ok view m {Low} f"
  shows "implements ok view (do { writeByte b; a \<leftarrow> checkAck; if \<not> a then do { stop; State_Monad.return r } else m }) {Started, Low}
    (\<lambda>w. if gpio (wire_reads w) then (r, wire_do Idle 1 (byte_bits b @ [Bit True, Stop]) w)
          else f (wire_do Low 1 (byte_bits b @ [Bit True]) w))"
proof -
  have c: "implements ok view (if \<not> a then do { stop; State_Monad.return r } else m) {Low} (\<lambda>w. if \<not> a then (r, wire_do Idle 0 [Stop] w) else f w)" for a
    using abort [of r] assms by (cases a) simp_all
  have "implements ok view (State_Monad.bind checkAck (\<lambda>a. if \<not> a then do { stop; State_Monad.return r } else m)) {Low}
      (\<lambda>w. if gpio (wire_reads w) then (r, wire_do Idle 1 [Bit True, Stop] w) else f (wire_do Low 1 [Bit True] w))"
    by (rule implements_weaken [OF implements_bind [OF checkAck c]]) auto
  from implements_bind [OF writeByte this] show ?thesis
    by (rule implements_weaken) auto
qed

lemma begin_transaction:
  assumes "implements ok view m {Started, Low} f"
  shows "implements ok view (do { start; m }) {Idle, Low} (\<lambda>w. f (wire_do Started 0 [Start] w))"
  by (rule implements_weaken [OF implements_bind [OF start assms]]) auto

lemma read_last:
  "implements ok view (do { v \<leftarrow> readByte; send_nack; stop; State_Monad.return (g v) }) {Low}
     (\<lambda>w. (g (byte_in gpio (wire_reads w)), wire_do Idle 8 (replicate 8 (Bit True) @ [Bit True, Stop]) w))"
proof -
  have "implements ok view (do { send_nack; stop; State_Monad.return r }) {Low} (\<lambda>w. (r, wire_do Idle 0 [Bit True, Stop] w))" for r
    by (rule implements_weaken [OF implements_bind [OF send_nack abort]]) auto
  from implements_bind [OF readByte this] show ?thesis by (rule implements_weaken) auto
qed

lemma read_more:
  assumes "\<And>v. implements ok view (m v) {Low} (f v)"
  shows "implements ok view (do { v \<leftarrow> readByte; send_ack; m v }) {Low}
     (\<lambda>w. f (byte_in gpio (wire_reads w)) (wire_do Low 8 (replicate 8 (Bit True) @ [Bit False]) w))"
proof -
  have "implements ok view (do { send_ack; m v }) {Low} (\<lambda>w. f v (wire_do Low 0 [Bit False] w))" for v
    by (rule implements_weaken [OF implements_bind [OF send_ack assms]]) auto
  from implements_bind [OF readByte this] show ?thesis by (rule implements_weaken) auto
qed

end

interpretation i2c: i2c_driver "i2c_inv b0" "i2c_view b0" gpio i2c_master_start i2c_master_stop i2c_master_send_ack
    i2c_master_send_nack i2c_master_writeByte "i2c_master_checkAck gpio" "i2c_master_readByte gpio" for b0 gpio
  by unfold_locales
    (simp_all only: start_implements stop_implements writeByte_implements checkAck_implements readByte_implements ack_implements)

lemma init_bit:
  "implements (i2c_inv b0) (i2c_view b0)
     (do { i2c_master_setDC 1 0; i2c_master_wait 5; i2c_master_setDC 1 1; i2c_master_wait 5 })
     {Low, Pulse True} (\<lambda>w. ((), wire_do (Pulse True) 0 (if wire_phase w = Low then [] else [Bit True]) w))"
  unfolding implements_def by (auto simp: bus_simps)

lemma init_end:
  "implements (i2c_inv b0) (i2c_view b0) i2c_master_stop {Pulse True} (\<lambda>w. ((), wire_do Idle 0 [Start, Stop] w))"
  unfolding implements_def i2c_master_stop_def by (auto simp: bus_simps)

lemma fold_init_bits:
  "wire_phase w = Low \<Longrightarrow> fold (\<lambda>i (v, w). ((), wire_do (Pulse True) 0 (if wire_phase w = Low then [] else [Bit True]) w)) [0..<Suc n] ((), w) =
     ((), wire_do (Pulse True) 0 (replicate n (Bit True)) w)"
  by (induction n) (simp_all add: replicate_append_same)

text \<open>The part of \<^verbatim>\<open>i2c_master_init\<close> behind its first write, which puts the bus into phase \<open>Low\<close>.\<close>

lemma init_loop:
  "implements (i2c_inv b0) (i2c_view b0)
     (do { for_loop (\<lambda>i v. do { i2c_master_setDC 1 0; i2c_master_wait 5; i2c_master_setDC 1 1; i2c_master_wait 5 }) [0..<28] ();
           i2c_master_stop })
     {Low} (\<lambda>w. ((), wire_do Idle 0 (replicate 27 (Bit True) @ [Start, Stop]) w))"
proof -
  define F where "F = (\<lambda>(i :: nat) (v :: unit, w). ((), wire_do (Pulse True) 0 (if wire_phase w = Low then [] else [Bit True]) w))"
  have f: "fold F [0..<28] ((), w) = ((), wire_do (Pulse True) 0 (replicate 27 (Bit True)) w)" if "wire_phase w = Low" for w
    using fold_init_bits [OF that, of 27] by (simp add: F_def del: upt.simps)
  have l: "implements (i2c_inv b0) (i2c_view b0)
      (for_loop (\<lambda>i v. do { i2c_master_setDC 1 0; i2c_master_wait 5; i2c_master_setDC 1 1; i2c_master_wait 5 }) [0..<28] ())
      {Low, Pulse True} (\<lambda>w. fold F [0..<28] ((), w))"
    unfolding F_def by (rule implements_for_loop) (simp_all only: init_bit wire_do_sel snd_conv insert_iff simp_thms)
  show ?thesis
    by (rule implements_weaken [OF implements_bind [where P = "{Low}", OF implements_weaken [OF l] init_end]])
      (auto simp: f simp del: upt.simps)
qed

lemma init_first:
  assumes "bus_phase (i2c_bus b0 s) = Idle" "5 \<le> bus_quiet (i2c_bus b0 s)" "i2c_reads s = bus_reads (i2c_bus b0 s)"
  defines "s' \<equiv> snd (run_state (do { i2c_master_setDC 1 0; i2c_master_wait 5; i2c_master_setDC 0 0; i2c_master_wait 5;
      i2c_master_setDC 1 0; i2c_master_wait 5 }) s)"
  shows "i2c_inv b0 s' \<and> i2c_view b0 s' = wire_do Low 0 [] (i2c_view b0 s)"
  using assms by (auto simp: s'_def bus_simps)

lemma init_run:
  assumes "bus_phase (i2c_bus b0 s) = Idle" "5 \<le> bus_quiet (i2c_bus b0 s)" "i2c_reads s = bus_reads (i2c_bus b0 s)"
  shows "i2c_inv b0 (snd (run_state i2c_master_init s)) \<and>
    i2c_view b0 (snd (run_state i2c_master_init s)) = wire_do Idle 0 (replicate 27 (Bit True) @ [Start, Stop]) (i2c_view b0 s)"
proof -
  define m1 where "m1 = do { i2c_master_setDC 1 0; i2c_master_wait 5; i2c_master_setDC 0 0; i2c_master_wait 5;
      i2c_master_setDC 1 0; i2c_master_wait 5 }"
  define m2 where "m2 = do { for_loop (\<lambda>i v. do { i2c_master_setDC 1 0; i2c_master_wait 5; i2c_master_setDC 1 1; i2c_master_wait 5 })
      [0..<28] (); i2c_master_stop }"
  have "i2c_master_init = State_Monad.bind m1 (\<lambda>_. m2)" unfolding i2c_master_init_def m1_def m2_def by (simp del: upt.simps)
  from arg_cong [OF this, of "\<lambda>m. snd (run_state m s)"]
  have r: "snd (run_state i2c_master_init s) = snd (run_state m2 (snd (run_state m1 s)))" by (simp add: split_beta)
  have "i2c_inv b0 (snd (run_state m1 s)) \<and> i2c_view b0 (snd (run_state m1 s)) = wire_do Low 0 [] (i2c_view b0 s)"
    unfolding m1_def by (rule init_first [OF assms])
  then show ?thesis unfolding r using init_loop [of b0] by (simp add: implements_def flip: m2_def)
qed

text \<open>What \<^verbatim>\<open>i2c_master_gpio_init\<close> does before it calls \<^verbatim>\<open>i2c_master_init\<close> changes no line of an idle bus.\<close>

lemma gpio_init_pins:
  assumes "bus_phase (i2c_bus b0 s) = Idle"
  shows "\<exists>s1. snd (run_state (i2c_master_gpio_init pad) s) = snd (run_state i2c_master_init s1) \<and>
    i2c_bus b0 s1 = i2c_bus b0 s \<and> i2c_reads s1 = i2c_reads s \<and>
    i2c_regs s1 = (\<lambda>r. i2c_regs s r OR (case r of GPIO_PIN_ADDR n \<Rightarrow> if n = 0 \<or> n = 2 then pad else 0 | GPIO_ENABLE_ADDRESS \<Rightarrow> 5))"
proof -
  have e: "SDA_bit OR SCL_bit = 5" by (simp add: SDA_bit_def SCL_bit_def pin_defs)
  let ?s1 = "s\<lparr>i2c_calls := i2c_calls s @ [Gpio_intr_disable, Pin_func_select I2C_MASTER_SDA_MUX I2C_MASTER_SDA_FUNC,
      Pin_func_select I2C_MASTER_SCL_MUX I2C_MASTER_SCL_FUNC, Gpio_output_set (SDA_bit OR SCL_bit) 0 (SDA_bit OR SCL_bit) 0, Gpio_intr_enable],
    i2c_regs := (\<lambda>r. i2c_regs s r OR (case r of GPIO_PIN_ADDR n \<Rightarrow> if n = 0 \<or> n = 2 then pad else 0 | GPIO_ENABLE_ADDRESS \<Rightarrow> 5))\<rparr>"
  have "snd (run_state (i2c_master_gpio_init pad) s) = snd (run_state i2c_master_init ?s1)"
    unfolding i2c_master_gpio_init_def
    by (simp add: gpio_reg_or_def sdk_call_def I2C_MASTER_SDA_HIGH_SCL_HIGH_def pin_defs split_beta e or.assoc)
      (rule arg_cong [of _ _ "\<lambda>s. snd (run_state i2c_master_init s)"], rule i2c_state.equality,
       auto simp: fun_eq_iff e or.assoc pin_defs split: gpio_reg.split)
  moreover have "i2c_bus b0 ?s1 = i2c_bus b0 s"
    using assms unfolding i2c_bus_def by (simp add: pin_defs bit_simps bus_set_def bus_edge_def)
  ultimately show ?thesis by (intro exI [of _ ?s1]) simp
qed

lemma regs_kept [simp]:
  "i2c_regs (snd (run_state (i2c_master_setDC a c) s)) = i2c_regs s"
  "i2c_regs (snd (run_state (i2c_master_wait n) s)) = i2c_regs s"
  by (simp_all add: setDC_run i2c_master_wait_def sdk_call_def)

lemma regs_for_loop:
  "(\<And>i v s. i2c_regs (snd (run_state (body i v) s)) = i2c_regs s) \<Longrightarrow> i2c_regs (snd (run_state (for_loop body is v) s)) = i2c_regs s"
  by (induction "is" arbitrary: v s) (simp_all add: split_beta)

lemma regs_init: "i2c_regs (snd (run_state i2c_master_init s)) = i2c_regs s"
  by (simp add: i2c_master_init_def i2c_master_stop_def split_beta regs_for_loop del: upt.simps)

lemma gpio_init_idle:
  fixes pad :: u32
  assumes "bus_phase (i2c_bus b0 s) = Idle" "5 \<le> bus_quiet (i2c_bus b0 s)" "i2c_reads s = bus_reads (i2c_bus b0 s)"
  defines "s' \<equiv> snd (run_state (i2c_master_gpio_init pad) s)"
  shows "i2c_inv b0 s' \<and> i2c_view b0 s' = wire_do Idle 0 (replicate 27 (Bit True) @ [Start, Stop]) (i2c_view b0 s) \<and>
    i2c_regs s' = (\<lambda>r. i2c_regs s r OR (case r of GPIO_PIN_ADDR n \<Rightarrow> if n = 0 \<or> n = 2 then pad else 0 | GPIO_ENABLE_ADDRESS \<Rightarrow> 5))"
proof -
  obtain s1 where s1: "s' = snd (run_state i2c_master_init s1)" "i2c_bus b0 s1 = i2c_bus b0 s" "i2c_reads s1 = i2c_reads s"
    "i2c_regs s1 = (\<lambda>r. i2c_regs s r OR (case r of GPIO_PIN_ADDR n \<Rightarrow> if n = 0 \<or> n = 2 then pad else 0 | GPIO_ENABLE_ADDRESS \<Rightarrow> 5))"
    using gpio_init_pins [OF assms(1)] unfolding s'_def by blast
  then have "i2c_view b0 s1 = i2c_view b0 s" by (simp add: i2c_view_def)
  then show ?thesis using s1 init_run [of b0 s1] assms(1-3) by (simp add: regs_init)
qed

section \<open>Properties\<close>

text \<open>
  \<^verbatim>\<open>i2c_master_gpio_init\<close> on an idle bus makes both pins open-drain outputs (GPIO 0 and 2), sends 27 one
  bits followed by a START and a STOP, without glitches, and leaves the bus idle with the static variables in
  step with the lines: the precondition of every transaction.
\<close>

theorem i2c_init_idle:
  fixes pad :: u32
  assumes "bus_phase (i2c_bus b0 s) = Idle" "5 \<le> bus_quiet (i2c_bus b0 s)" "i2c_reads s = bus_reads (i2c_bus b0 s)"
  defines "s' \<equiv> snd (run_state (i2c_master_gpio_init pad) s)"
  shows "i2c_inv b0 s' \<and> i2c_view b0 s' = wire_do Idle 0 (replicate 27 (Bit True) @ [Start, Stop]) (i2c_view b0 s) \<and>
    i2c_regs s' = (\<lambda>r. i2c_regs s r OR (case r of GPIO_PIN_ADDR n \<Rightarrow> if n = 0 \<or> n = 2 then pad else 0 | GPIO_ENABLE_ADDRESS \<Rightarrow> 5))"
  unfolding s'_def by (rule gpio_init_idle [OF assms(1-3)])

text \<open>The state after a reset, and a bus whose pull-up resistors hold both lines high.\<close>

definition i2c_reset :: i2c_state where
  "i2c_reset = \<lparr>m_nLastSDA = 0, m_nLastSCL = 0, i2c_regs = (\<lambda>_. 0), i2c_reads = 0, i2c_calls = []\<rparr>"

definition bus_idle :: bus where
  "bus_idle = \<lparr>bus_sda = True, bus_scl = True, bus_clean = False, bus_quiet = 100, bus_reads = 0, bus_events = []\<rparr>"

lemma bus_idle_reset [simp]: "i2c_bus bus_idle i2c_reset = bus_idle"
  by (simp add: i2c_bus_def i2c_reset_def)

theorem i2c_init_idle_witness:
  "i2c_inv bus_idle (snd (run_state (i2c_master_gpio_init 4) i2c_reset)) \<and>
   wire_phase (i2c_view bus_idle (snd (run_state (i2c_master_gpio_init 4) i2c_reset))) = Idle"
  using i2c_init_idle [of bus_idle i2c_reset 4] by (simp add: bus_idle_def i2c_reset_def i2c_bus_def)

end
