(* ===== verification/Tsl2561.thy ===== *)
theory Tsl2561
  imports I2c
begin

text \<open>
  The light sensor driver, \<^verbatim>\<open>src/drivers/tsl2561.c\<close>, on the I2C master. A function that returns 0 and stores
  a value through its pointer, or returns \<open>-1\<close>, is an option here. The register accesses are shown to be
  the transactions that the data sheet of the chip asks for, by the lemmas of the locale \<open>i2c_driver\<close>; the
  fixed-point computation of \<^verbatim>\<open>calc_lux\<close> is compared with the exact formula. Log messages are left out.
\<close>

section \<open>The code\<close>

definition I2C_ADDR :: u8 where "I2C_ADDR = 0x39"
definition REG_CONTROL :: u8 where "REG_CONTROL = 0x00"
definition REG_TIMING :: u8 where "REG_TIMING = 0x01"
definition REG_ID :: u8 where "REG_ID = 0x0a"
definition REG_DATA0LOW :: u8 where "REG_DATA0LOW = 0x0c"
definition REG_DATA1LOW :: u8 where "REG_DATA1LOW = 0x0e"

definition tsl2561_readbyte :: "(nat \<Rightarrow> bool) \<Rightarrow> u8 \<Rightarrow> u8 option i2c" where
  "tsl2561_readbyte gpio reg =
     (if reg > 0x0f then State_Monad.return None
      else do {
        i2c_master_start;
        i2c_master_writeByte (push_bit 1 I2C_ADDR);
        a \<leftarrow> i2c_master_checkAck gpio;
        if \<not> a then do { i2c_master_stop; State_Monad.return None }
        else do {
          i2c_master_writeByte (0x80 OR reg);
          a \<leftarrow> i2c_master_checkAck gpio;
          if \<not> a then do { i2c_master_stop; State_Monad.return None }
          else do {
            i2c_master_start;
            i2c_master_writeByte (push_bit 1 I2C_ADDR OR 0x01);
            a \<leftarrow> i2c_master_checkAck gpio;
            if \<not> a then do { i2c_master_stop; State_Monad.return None }
            else do {
              val \<leftarrow> i2c_master_readByte gpio;
              i2c_master_send_nack;
              i2c_master_stop;
              State_Monad.return (Some val)
            }}}})"

definition tsl2561_readword :: "(nat \<Rightarrow> bool) \<Rightarrow> u8 \<Rightarrow> u16 option i2c" where
  "tsl2561_readword gpio reg =
     (if reg > 0x0f then State_Monad.return None
      else do {
        i2c_master_start;
        i2c_master_writeByte (push_bit 1 I2C_ADDR);
        a \<leftarrow> i2c_master_checkAck gpio;
        if \<not> a then do { i2c_master_stop; State_Monad.return None }
        else do {
          i2c_master_writeByte (0x80 OR reg);
          a \<leftarrow> i2c_master_checkAck gpio;
          if \<not> a then do { i2c_master_stop; State_Monad.return None }
          else do {
            i2c_master_start;
            i2c_master_writeByte (push_bit 1 I2C_ADDR OR 0x01);
            a \<leftarrow> i2c_master_checkAck gpio;
            if \<not> a then do { i2c_master_stop; State_Monad.return None }
            else do {
              low \<leftarrow> i2c_master_readByte gpio;
              i2c_master_send_ack;
              high \<leftarrow> i2c_master_readByte gpio;
              i2c_master_send_nack;
              i2c_master_stop;
              State_Monad.return (Some (push_bit 8 (ucast high) OR ucast low))
            }}}})"

definition tsl2561_writebyte :: "(nat \<Rightarrow> bool) \<Rightarrow> u8 \<Rightarrow> u8 \<Rightarrow> unit option i2c" where
  "tsl2561_writebyte gpio reg val =
     (if reg > 0x0f then State_Monad.return None
      else do {
        i2c_master_start;
        i2c_master_writeByte (push_bit 1 I2C_ADDR);
        a \<leftarrow> i2c_master_checkAck gpio;
        if \<not> a then do { i2c_master_stop; State_Monad.return None }
        else do {
          i2c_master_writeByte (0x80 OR reg);
          a \<leftarrow> i2c_master_checkAck gpio;
          if \<not> a then do { i2c_master_stop; State_Monad.return None }
          else do {
            i2c_master_writeByte val;
            a \<leftarrow> i2c_master_checkAck gpio;
            if \<not> a then do { i2c_master_stop; State_Monad.return None }
            else do {
              i2c_master_stop;
              State_Monad.return (Some ())
            }}}})"

text \<open>The two tables of \<^verbatim>\<open>calc_lux\<close>: the pair \<^verbatim>\<open>b, m\<close> for a ratio.\<close>

definition lux_coeffs_T :: "u32 \<Rightarrow> u16 \<times> u16" where
  "lux_coeffs_T ratio =
     (if ratio \<le> 0x0040 then (0x01f2, 0x01be)
      else if ratio \<le> 0x0080 then (0x0214, 0x02d1)
      else if ratio \<le> 0x00c0 then (0x023f, 0x037b)
      else if ratio \<le> 0x0100 then (0x0270, 0x03fe)
      else if ratio \<le> 0x0138 then (0x016f, 0x01fc)
      else if ratio \<le> 0x019a then (0x00d2, 0x00fb)
      else if ratio \<le> 0x029a then (0x0018, 0x0012)
      else (0x0000, 0x0000))"

definition lux_coeffs_CS :: "u32 \<Rightarrow> u16 \<times> u16" where
  "lux_coeffs_CS ratio =
     (if ratio \<le> 0x0043 then (0x0204, 0x01ad)
      else if ratio \<le> 0x0085 then (0x0228, 0x02c1)
      else if ratio \<le> 0x00c8 then (0x0253, 0x0363)
      else if ratio \<le> 0x010a then (0x0282, 0x03df)
      else if ratio \<le> 0x014d then (0x0177, 0x01dd)
      else if ratio \<le> 0x019a then (0x0101, 0x0127)
      else if ratio \<le> 0x029a then (0x0037, 0x002b)
      else (0x0000, 0x0000))"

definition lux_scale :: "u8 \<Rightarrow> u8 \<Rightarrow> u32" where
  "lux_scale gain time =
     (let scale = (if time = 0 then 0x7517 else if time = 1 then 0x0fe7 else push_bit 10 1)
      in if gain = 0 then push_bit 4 scale else scale)"

definition calc_lux :: "u8 \<Rightarrow> u8 \<Rightarrow> u8 \<Rightarrow> u16 \<Rightarrow> u16 \<Rightarrow> u16" where
  "calc_lux gain time type raw0 raw1 =
     (let scale = lux_scale gain time;
          data0 = drop_bit 10 (ucast raw0 * scale);
          data1 = drop_bit 10 (ucast raw1 * scale);
          ratio = (if data0 \<noteq> 0 then push_bit 10 data1 div data0 else 0);
          ratio = drop_bit 1 (ratio + 1);
          (b, m) = (if type = 0 then lux_coeffs_T ratio else lux_coeffs_CS ratio);
          rv = data0 * ucast b - data1 * ucast m;
          rv = (if data0 * ucast b < data1 * ucast m then 0 else rv);
          rv = rv + push_bit 13 1
      in ucast (drop_bit 14 rv))"

text \<open>The loop that waits for half a second.\<close>

definition tsl2561_delay :: "unit i2c" where
  "tsl2561_delay =
     for_loop (\<lambda>i v. do {
       (if i > 0 \<and> i mod 10 = 0 then sdk_call Soft_wdt_feed else State_Monad.return ());
       sdk_call (Os_delay_us 1000)
     }) [0..<500] ()"

definition tsl2561_lux :: "(nat \<Rightarrow> bool) \<Rightarrow> int i2c" where
  "tsl2561_lux gpio =
     do {
       r \<leftarrow> tsl2561_readbyte gpio REG_ID;
       case r of None \<Rightarrow> State_Monad.return (-1)
       | Some ident \<Rightarrow>
         let part = drop_bit 4 ident in
         if \<not> (part = 1 \<or> part = 5) then State_Monad.return (-1)
         else do {
           r \<leftarrow> tsl2561_writebyte gpio REG_CONTROL 0x03;
           case r of None \<Rightarrow> State_Monad.return (-1)
           | Some _ \<Rightarrow> do {
             r \<leftarrow> tsl2561_writebyte gpio REG_TIMING 0x12;
             case r of None \<Rightarrow> State_Monad.return (-1)
             | Some _ \<Rightarrow> do {
               tsl2561_delay;
               r \<leftarrow> tsl2561_readword gpio REG_DATA0LOW;
               case r of None \<Rightarrow> State_Monad.return (-1)
               | Some data0 \<Rightarrow> do {
                 r \<leftarrow> tsl2561_readword gpio REG_DATA1LOW;
                 case r of None \<Rightarrow> State_Monad.return (-1)
                 | Some data1 \<Rightarrow> do {
                   r \<leftarrow> tsl2561_writebyte gpio REG_CONTROL 0x00;
                   case r of None \<Rightarrow> State_Monad.return (-1)
                   | Some _ \<Rightarrow> State_Monad.return (uint (calc_lux 1 2 (if part = 5 then 0 else 1) data0 data1))
                 }}}}}}"

section \<open>Transactions\<close>

text \<open>A byte and its acknowledge clock, and the bytes of a write access.\<close>

definition frame_bits :: "u8 \<Rightarrow> bus_event list" where
  "frame_bits b = byte_bits b @ [Bit True]"

definition wire_write :: "(nat \<Rightarrow> bool) \<Rightarrow> u8 \<Rightarrow> u8 \<Rightarrow> wire \<Rightarrow> unit option \<times> wire" where
  "wire_write gpio reg val w =
     (if gpio (wire_reads w) then (None, wire_do Idle 1 (Start # frame_bits 0x72 @ [Stop]) w)
      else if gpio (wire_reads w + 1) then (None, wire_do Idle 2 (Start # frame_bits 0x72 @ frame_bits (0x80 OR reg) @ [Stop]) w)
      else (if gpio (wire_reads w + 2) then None else Some (),
            wire_do Idle 3 (Start # frame_bits 0x72 @ frame_bits (0x80 OR reg) @ frame_bits val @ [Stop]) w))"

text \<open>A read access: the register is written, then the chip is addressed again for reading; \<open>n\<close> data bytes follow.\<close>

definition data_bits :: "nat \<Rightarrow> bus_event list" where
  "data_bits n = concat (replicate (n - 1) (replicate 8 (Bit True) @ [Bit False])) @ replicate 8 (Bit True) @ [Bit True]"

definition wire_read :: "(nat \<Rightarrow> bool) \<Rightarrow> u8 \<Rightarrow> nat \<Rightarrow> (nat \<Rightarrow> 'a) \<Rightarrow> wire \<Rightarrow> 'a option \<times> wire" where
  "wire_read gpio reg n value w =
     (if gpio (wire_reads w) then (None, wire_do Idle 1 (Start # frame_bits 0x72 @ [Stop]) w)
      else if gpio (wire_reads w + 1) then (None, wire_do Idle 2 (Start # frame_bits 0x72 @ frame_bits (0x80 OR reg) @ [Stop]) w)
      else if gpio (wire_reads w + 2) then
        (None, wire_do Idle 3 (Start # frame_bits 0x72 @ frame_bits (0x80 OR reg) @ Start # frame_bits 0x73 @ [Stop]) w)
      else (Some (value (wire_reads w + 3)),
        wire_do Idle (3 + 8 * n) (Start # frame_bits 0x72 @ frame_bits (0x80 OR reg) @ Start # frame_bits 0x73 @ data_bits n @ [Stop]) w))"

definition word_in :: "(nat \<Rightarrow> bool) \<Rightarrow> nat \<Rightarrow> u16" where
  "word_in gpio k = push_bit 8 (ucast (byte_in gpio (k + 8))) OR ucast (byte_in gpio k)"

lemma address_bytes: "push_bit 1 I2C_ADDR = 0x72" "(0x72 :: u8) OR 0x01 = 0x73"
  by (simp_all add: I2C_ADDR_def)

lemma writebyte_implements:
  assumes "reg \<le> 0x0f"
  shows "implements (i2c_inv b0) (i2c_view b0) (tsl2561_writebyte gpio reg val) {Idle} (wire_write gpio reg val)"
proof -
  note a = i2c.begin_transaction [OF i2c.frame [OF implements_weaken [OF i2c.frame [OF implements_weaken [OF i2c.frame [OF i2c.abort]]]]]]
  have "\<not> reg > 0x0f" using assms by simp
  then show ?thesis unfolding tsl2561_writebyte_def address_bytes
    by (simp only: if_False) (rule implements_weaken [OF a], auto simp: wire_write_def frame_bits_def)
qed

text \<open>The part that the two read functions share, with what they do when the chip has answered.\<close>

lemma read_access:
  assumes m: "implements (i2c_inv b0) (i2c_view b0) m {Low}
      (\<lambda>w. (Some (value (wire_reads w)), wire_do Idle (8 * n) (data_bits n @ [Stop]) w))"
  shows "implements (i2c_inv b0) (i2c_view b0) (do { i2c_master_start; i2c_master_writeByte 0x72; a \<leftarrow> i2c_master_checkAck gpio;
      if \<not> a then do { i2c_master_stop; State_Monad.return None }
      else do { i2c_master_writeByte (0x80 OR reg); a \<leftarrow> i2c_master_checkAck gpio;
        if \<not> a then do { i2c_master_stop; State_Monad.return None }
        else do { i2c_master_start; i2c_master_writeByte 0x73; a \<leftarrow> i2c_master_checkAck gpio;
          if \<not> a then do { i2c_master_stop; State_Monad.return None } else m }}}) {Idle} (wire_read gpio reg n value)"
proof -
  note c = i2c.begin_transaction [OF i2c.frame [OF m]]
  note b = i2c.begin_transaction [OF i2c.frame [OF implements_weaken [OF i2c.frame [OF implements_weaken [OF c]]]]]
  show ?thesis by (rule implements_weaken [OF b]) (auto simp: wire_read_def frame_bits_def numeral_3_eq_3)
qed

lemma readbyte_implements:
  assumes "reg \<le> 0x0f"
  shows "implements (i2c_inv b0) (i2c_view b0) (tsl2561_readbyte gpio reg) {Idle} (wire_read gpio reg 1 (byte_in gpio))"
proof -
  have "\<not> reg > 0x0f" using assms by simp
  then show ?thesis unfolding tsl2561_readbyte_def address_bytes
    by (simp only: if_False) (rule read_access, rule implements_weaken [OF i2c.read_last], auto simp: data_bits_def)
qed

lemma readword_implements:
  assumes "reg \<le> 0x0f"
  shows "implements (i2c_inv b0) (i2c_view b0) (tsl2561_readword gpio reg) {Idle} (wire_read gpio reg 2 (word_in gpio))"
proof -
  have "\<not> reg > 0x0f" using assms by simp
  then show ?thesis unfolding tsl2561_readword_def address_bytes
    by (simp only: if_False)
      (rule read_access, rule implements_weaken [OF i2c.read_more [OF i2c.read_last]], auto simp: data_bits_def word_in_def add.commute)
qed

lemma phase_wire [simp]:
  "wire_phase (snd (wire_write gpio reg val w)) = Idle" "wire_phase (snd (wire_read gpio reg n value w)) = Idle"
  by (auto simp: wire_write_def wire_read_def)

text \<open>The pause leaves the lines alone.\<close>

lemma delay_implements: "implements (i2c_inv b0) (i2c_view b0) tsl2561_delay {Idle} (\<lambda>w. ((), w))"
proof -
  have "implements (i2c_inv b0) (i2c_view b0) (do { (if i > 0 \<and> i mod 10 = 0 then sdk_call Soft_wdt_feed else State_Monad.return ());
      sdk_call (Os_delay_us 1000) }) {Idle} (\<lambda>w. ((), w))" for i :: nat
    unfolding implements_def by (auto simp: sdk_call_def i2c_inv_def i2c_view_def i2c_bus_def bus_phase_def split_beta)
  note d = implements_for_loop [where body = "\<lambda>i v. _ i", OF this]
  have "fold (\<lambda>i (v, w). ((), w)) is ((), w) = ((), w)" for "is" :: "nat list" and w :: wire by (induction "is") simp_all
  then show ?thesis unfolding tsl2561_delay_def by (intro implements_weaken [OF d]) (simp_all del: upt.simps)
qed

section \<open>A measurement\<close>

text \<open>\<^verbatim>\<open>tsl2561_lux\<close> in terms of register accesses.\<close>

definition wire_lux :: "(nat \<Rightarrow> bool) \<Rightarrow> wire \<Rightarrow> int \<times> wire" where
  "wire_lux gpio w0 =
     (let (r, w1) = wire_read gpio REG_ID 1 (byte_in gpio) w0 in
      case r of None \<Rightarrow> (-1, w1)
      | Some ident \<Rightarrow> if \<not> (drop_bit 4 ident = 1 \<or> drop_bit 4 ident = 5) then (-1, w1)
        else let (r, w2) = wire_write gpio REG_CONTROL 0x03 w1 in
          case r of None \<Rightarrow> (-1, w2)
          | Some _ \<Rightarrow> let (r, w3) = wire_write gpio REG_TIMING 0x12 w2 in
              case r of None \<Rightarrow> (-1, w3)
              | Some _ \<Rightarrow> let (r, w4) = wire_read gpio REG_DATA0LOW 2 (word_in gpio) w3 in
                  case r of None \<Rightarrow> (-1, w4)
                  | Some data0 \<Rightarrow> let (r, w5) = wire_read gpio REG_DATA1LOW 2 (word_in gpio) w4 in
                      case r of None \<Rightarrow> (-1, w5)
                      | Some data1 \<Rightarrow> let (r, w6) = wire_write gpio REG_CONTROL 0x00 w5 in
                          case r of None \<Rightarrow> (-1, w6)
                          | Some _ \<Rightarrow> (uint (calc_lux 1 2 (if drop_bit 4 ident = 5 then 0 else 1) data0 data1), w6))"

lemma implements_try:
  assumes "implements ok view m {Idle} f" "\<And>w. wire_phase (snd (f w)) = Idle" "\<And>a. implements ok view (k a) {Idle} (h a)"
  shows "implements ok view (do { r \<leftarrow> m; case r of None \<Rightarrow> State_Monad.return d | Some a \<Rightarrow> k a }) {Idle}
    (\<lambda>w. let (r, w1) = f w in case r of None \<Rightarrow> (d, w1) | Some a \<Rightarrow> h a w1)"
proof -
  have "implements ok view (case r of None \<Rightarrow> State_Monad.return d | Some a \<Rightarrow> k a) {Idle} (\<lambda>w. case r of None \<Rightarrow> (d, w) | Some a \<Rightarrow> h a w)" for r
    using assms(3) implements_return by (cases r) auto
  from implements_bind [OF assms(1) this] show ?thesis using assms(2) by (simp add: Let_def)
qed

lemma implements_if:
  "implements ok view m P f \<Longrightarrow> implements ok view n P g \<Longrightarrow> implements ok view (if c then m else n) P (\<lambda>w. if c then f w else g w)"
  by simp

lemma implements_after_delay:
  "implements (i2c_inv b0) (i2c_view b0) m {Idle} f \<Longrightarrow> implements (i2c_inv b0) (i2c_view b0) (do { tsl2561_delay; m }) {Idle} f"
  using implements_bind [OF delay_implements, of b0 "\<lambda>_. m" "{Idle}" "\<lambda>_. f"] by simp

lemma lux_implements: "implements (i2c_inv b0) (i2c_view b0) (tsl2561_lux gpio) {Idle} (wire_lux gpio)"
proof -
  have r: "REG_ID \<le> 0x0f" "REG_CONTROL \<le> 0x0f" "REG_TIMING \<le> 0x0f" "REG_DATA0LOW \<le> 0x0f" "REG_DATA1LOW \<le> 0x0f"
    by (simp_all add: REG_ID_def REG_CONTROL_def REG_TIMING_def REG_DATA0LOW_def REG_DATA1LOW_def)
  note access = readbyte_implements [OF r(1)] writebyte_implements [OF r(2)] writebyte_implements [OF r(3)]
    readword_implements [OF r(4)] readword_implements [OF r(5)]
  show ?thesis unfolding tsl2561_lux_def wire_lux_def Let_def [of "drop_bit _ _"]
    by (rule implements_try implements_if implements_return implements_after_delay access phase_wire)+
qed

section \<open>The computation\<close>

text \<open>The formula in natural numbers; the difference is cut off at 0.\<close>

definition lux_from :: "(u32 \<Rightarrow> u16 \<times> u16) \<Rightarrow> nat \<Rightarrow> nat \<Rightarrow> nat" where
  "lux_from table d0 d1 =
     (let ratio = ((if d0 = 0 then 0 else d1 * 1024 div d0) + 1) div 2;
          (b, m) = table (of_nat ratio)
      in (d0 * unat b - d1 * unat m + 8192) div 16384)"

definition lux_exact :: "nat \<Rightarrow> (u32 \<Rightarrow> u16 \<times> u16) \<Rightarrow> nat \<Rightarrow> nat \<Rightarrow> nat" where
  "lux_exact scale table raw0 raw1 = lux_from table (raw0 * scale div 1024) (raw1 * scale div 1024)"

lemma lux_coeffs_bound:
  "(if t then lux_coeffs_T ratio else lux_coeffs_CS ratio) = (b, m) \<Longrightarrow> unat b \<le> 642 \<and> unat m \<le> 1022"
  by (auto simp: lux_coeffs_T_def lux_coeffs_CS_def split: if_splits)

lemma unat_ucast_16_32: "unat (ucast (x :: u16) :: u32) = unat x"
  using unsigned_less [of x, where 'a = nat] by (simp add: unsigned_ucast_eq take_bit_nat_eq_self)

lemma unat_drop: "unat (drop_bit n w) = unat w div 2 ^ n" for w :: u32
  unfolding unat_drop_bit_eq by (rule drop_bit_eq_div)

lemma unat_scaled:
  "unat (drop_bit 10 (ucast (raw :: u16) * (scale :: u32))) = unat raw * unat scale mod 2 ^ 32 div 1024"
  by (simp only: unat_drop unat_word_ariths unat_ucast_16_32) simp

lemma unat_coeff:
  assumes "unat (d :: u32) < 4194304" "unat (c :: u16) \<le> n" "n \<le> 1022"
  shows "unat (d * ucast c) = unat d * unat c" "unat d * unat c \<le> 4194303 * n"
proof -
  show p: "unat d * unat c \<le> 4194303 * n" using assms by (intro mult_mono) simp_all
  also have "\<dots> < 2 ^ 32" using assms(3) by simp
  finally show "unat (d * ucast c) = unat d * unat c" by (simp add: unat_word_ariths unat_ucast_16_32)
qed

text \<open>After the scaling the channels have 22 bits, and nothing but the result itself can leave its type any more.\<close>

lemma calc_lux_value:
  defines "S \<equiv> \<lambda>gain time. unat (lux_scale gain time)"
  shows "unat (calc_lux gain time type raw0 raw1) =
    lux_from (if type = 0 then lux_coeffs_T else lux_coeffs_CS)
      (unat raw0 * S gain time mod 2 ^ 32 div 1024) (unat raw1 * S gain time mod 2 ^ 32 div 1024) mod 2 ^ 16"
proof -
  define data0 where "data0 = drop_bit 10 (ucast raw0 * lux_scale gain time)"
  define data1 where "data1 = drop_bit 10 (ucast raw1 * lux_scale gain time)"
  have d: "unat data0 = unat raw0 * S gain time mod 2 ^ 32 div 1024" "unat data1 = unat raw1 * S gain time mod 2 ^ 32 div 1024"
    unfolding data0_def data1_def S_def by (rule unat_scaled)+
  then have l: "unat data0 < 4194304" "unat data1 < 4194304" by (auto intro: less_mult_imp_div_less)
  define q where "q = (if data0 \<noteq> 0 then push_bit 10 data1 div data0 else 0)"
  have "unat (push_bit 10 data1) = unat data1 * 1024"
    using l(2) by (simp add: push_bit_eq_mult unat_word_ariths)
  then have q: "unat q = (if unat data0 = 0 then 0 else unat data1 * 1024 div unat data0)" "unat q \<le> 4194303 * 1024"
    using l(2) by (auto simp: q_def unat_div_distrib unat_eq_zero intro: order_trans [OF div_le_dividend])
  then have r: "drop_bit 1 (q + 1) = of_nat ((unat q + 1) div 2)"
    by (intro word_unat_eq_iff [THEN iffD2]) (simp add: unat_drop unat_word_ariths take_bit_nat_eq_self unat_of_nat)
  obtain b m where bm: "(if type = 0 then lux_coeffs_T (drop_bit 1 (q + 1)) else lux_coeffs_CS (drop_bit 1 (q + 1))) = (b, m)"
    by fastforce
  then have c: "unat b \<le> 642" "unat m \<le> 1022" using lux_coeffs_bound by blast+
  define x where "x = data0 * ucast b"
  define y where "y = data1 * ucast m"
  have x: "unat x = unat data0 * unat b" "unat x \<le> 4194303 * 642" and y: "unat y = unat data1 * unat m"
    using unat_coeff [OF l(1) c(1)] unat_coeff [OF l(2) c(2)] by (simp_all add: x_def y_def)
  have "unat (if x < y then 0 else x - y) = unat x - unat y"
    by (simp add: word_less_nat_alt unat_sub word_le_nat_alt)
  then have "unat ((if x < y then 0 else x - y) + push_bit 13 1) = unat x - unat y + 8192"
    using x(2) by (simp add: unat_word_ariths)
  then have "unat (drop_bit 14 ((if x < y then 0 else x - y) + push_bit 13 1)) = (unat x - unat y + 8192) div 16384"
    by (simp only: unat_drop) simp
  then have "unat (ucast (drop_bit 14 ((if x < y then 0 else x - y) + push_bit 13 1)) :: u16) = (unat x - unat y + 8192) div 16384 mod 2 ^ 16"
    by (simp add: unsigned_ucast_eq take_bit_eq_mod)
  moreover have "calc_lux gain time type raw0 raw1 = ucast (drop_bit 14 ((if x < y then 0 else x - y) + push_bit 13 1))"
    unfolding calc_lux_def Let_def data0_def [symmetric] data1_def [symmetric] q_def [symmetric] bm x_def y_def by simp
  moreover have "(if type = 0 then lux_coeffs_T else lux_coeffs_CS) (of_nat ((unat q + 1) div 2)) = (b, m)"
    using bm unfolding r by (simp split: if_splits)
  ultimately show ?thesis
    unfolding lux_from_def Let_def d [symmetric] q(1) [symmetric] using x(1) y by simp
qed

text \<open>The formula on channels below 1918371, which they are at 16x gain.\<close>

lemma lux_coeffs_steep:
  "(if t then lux_coeffs_T else lux_coeffs_CS) ratio = (b, m) \<Longrightarrow> unat b \<le> 552 \<or> unat b \<le> 642 \<and> 129 \<le> unat ratio \<and> 867 \<le> unat m"
  by (auto simp: lux_coeffs_T_def lux_coeffs_CS_def word_le_nat_alt split: if_splits)

lemma lux_from_less:
  assumes "d0 < 1918371" "d1 < 1918371"
  shows "lux_from (if t then lux_coeffs_T else lux_coeffs_CS) d0 d1 < 2 ^ 16"
proof -
  define q where "q = (if d0 = 0 then 0 else d1 * 1024 div d0)"
  obtain b m where t: "(if t then lux_coeffs_T else lux_coeffs_CS) (of_nat ((q + 1) div 2)) = (b, m)" by fastforce
  have "q \<le> d1 * 1024" by (simp add: q_def)
  then have u: "unat (of_nat ((q + 1) div 2) :: u32) = (q + 1) div 2" using assms(2) by (intro unat_of_nat_small) simp
  have "d0 * unat b - d1 * unat m \<le> 1918371 * 552"
  proof (cases "unat b \<le> 552")
    case True
    then have "d0 * unat b \<le> 1918371 * 552" using assms(1) by (intro mult_mono) simp_all
    then show ?thesis by simp
  next
    case False
    then have b: "unat b \<le> 642" "257 \<le> q" "867 \<le> unat m" using lux_coeffs_steep [OF t] u by auto
    then have "257 * d0 \<le> d1 * 1024" by (auto simp: q_def less_eq_div_iff_mult_less_eq split: if_splits)
    moreover have "d1 * 867 \<le> d1 * unat m" "d0 * unat b \<le> d0 * 642" using b by simp_all
    ultimately have "d0 * unat b - d1 * unat m \<le> 425 * d0" by linarith
    then show ?thesis using assms(1) by simp
  qed
  then have "(d0 * unat b - d1 * unat m + 8192) div 16384 \<le> (1918371 * 552 + 8192) div 16384" by (intro div_le_mono) simp
  moreover have "lux_from (if t then lux_coeffs_T else lux_coeffs_CS) d0 d1 = (d0 * unat b - d1 * unat m + 8192) div 16384"
    unfolding lux_from_def Let_def q_def [symmetric] t by simp
  ultimately show ?thesis by simp
qed

lemma calc_lux_fits:
  assumes "unat (lux_scale gain time) \<le> 29975"
  shows "unat (calc_lux gain time type raw0 raw1) =
    lux_exact (unat (lux_scale gain time)) (if type = 0 then lux_coeffs_T else lux_coeffs_CS) (unat raw0) (unat raw1)"
proof -
  have p: "unat raw * unat (lux_scale gain time) \<le> 65535 * 29975" for raw :: u16
    using unsigned_less [of raw, where 'a = nat] assms by (intro mult_mono) simp_all
  then have m: "unat raw * unat (lux_scale gain time) mod 2 ^ 32 = unat raw * unat (lux_scale gain time)" for raw :: u16
    using le_less_trans [OF p, of "2 ^ 32"] by (intro mod_less) simp
  have "unat raw * unat (lux_scale gain time) div 1024 < 1918371" for raw :: u16 using div_le_mono [OF p [of raw], of 1024] by simp
  then show ?thesis unfolding calc_lux_value m lux_exact_def using lux_from_less [where t = "type = 0"] by simp
qed

lemma lux_exact_1024: "table (of_nat r) = (b, m) \<Longrightarrow> r = ((if x = 0 then 0 else y * 1024 div x) + 1) div 2 \<Longrightarrow>
    lux_exact 1024 table x y = (x * unat b - y * unat m + 8192) div 16384"
  by (simp add: lux_exact_def lux_from_def Let_def)

lemma lux_exact_bound:
  assumes "\<And>r. unat (fst (table r)) \<le> 642" "raw0 \<le> 65535"
  shows "lux_exact 1024 table raw0 raw1 \<le> 2568"
proof -
  define r where "r = ((if raw0 = 0 then 0 else raw1 * 1024 div raw0) + 1) div 2"
  obtain b m where t: "table (of_nat r) = (b, m)" by fastforce
  have "raw0 * unat b \<le> 65535 * 642" using assms(1) [of "of_nat r"] assms(2) t by (intro mult_mono) simp_all
  then have "(raw0 * unat b - raw1 * unat m + 8192) div 16384 \<le> (65535 * 642 + 8192) div 16384" by (intro div_le_mono) simp
  then show ?thesis using lux_exact_1024 [where table = table, OF t r_def] by simp
qed

lemma lux_scale_used: "lux_scale 1 2 = 1024"
  by (simp add: lux_scale_def Let_def)

text \<open>The computation of \<^verbatim>\<open>tsl2561_lux\<close>: the scale is one, and the result fits.\<close>

lemma calc_lux_used:
  "uint (calc_lux 1 2 type raw0 raw1) = int (lux_exact 1024 (if type = 0 then lux_coeffs_T else lux_coeffs_CS) (unat raw0) (unat raw1))"
  unfolding uint_nat using calc_lux_fits [of 1 2 type raw0 raw1] by (simp add: lux_scale_used)

lemma calc_lux_used_bound: "uint (calc_lux 1 2 type raw0 raw1) \<le> 2568"
proof -
  have "unat (fst ((if type = 0 then lux_coeffs_T else lux_coeffs_CS) r)) \<le> 642" for r
    using lux_coeffs_bound [of "type = 0" r] by (cases "(if type = 0 then lux_coeffs_T else lux_coeffs_CS) r") (auto split: if_splits)
  moreover have "unat raw0 \<le> 65535" using unsigned_less [of raw0, where 'a = nat] by simp
  ultimately have "lux_exact 1024 (if type = 0 then lux_coeffs_T else lux_coeffs_CS) (unat raw0) (unat raw1) \<le> 2568"
    by (rule lux_exact_bound)
  then show ?thesis unfolding calc_lux_used by simp
qed

text \<open>No access puts a glitch on the bus.\<close>

lemma frame_clean [simp]: "Glitch \<notin> set (frame_bits b)" "Glitch \<notin> set (data_bits n)"
  by (auto simp: frame_bits_def byte_bits_def data_bits_def)

definition adds_clean :: "wire \<Rightarrow> wire \<Rightarrow> bool" where
  "adds_clean w w' \<longleftrightarrow> wire_phase w' = Idle \<and> (\<exists>es. wire_events w' = wire_events w @ es \<and> Glitch \<notin> set es)"

lemma adds_clean_access [simp]:
  "adds_clean w (snd (wire_write gpio reg val w))" "adds_clean w (snd (wire_read gpio reg n value w))"
  by (simp_all add: adds_clean_def wire_write_def wire_read_def)

lemma adds_clean_trans: "adds_clean u v \<Longrightarrow> adds_clean v w \<Longrightarrow> adds_clean u w"
  by (fastforce simp: adds_clean_def)

definition clean_result :: "wire \<Rightarrow> int \<times> wire \<Rightarrow> bool" where
  "clean_result w r \<longleftrightarrow> adds_clean w (snd r) \<and> (fst r = -1 \<or> fst r \<in> {0..2568})"

lemma clean_try:
  assumes "adds_clean w (snd (f w))" "\<And>a w'. wire_phase w' = Idle \<Longrightarrow> clean_result w' (h a w')"
  shows "clean_result w (let (r, w1) = f w in case r of None \<Rightarrow> (-1, w1) | Some a \<Rightarrow> h a w1)"
  using assms(1) assms(2) [of "snd (f w)"] adds_clean_trans
  unfolding clean_result_def Let_def by (cases "f w") (auto simp: adds_clean_def split: option.split; blast)

lemma clean_if: "(c \<Longrightarrow> clean_result w x) \<Longrightarrow> (\<not> c \<Longrightarrow> clean_result w y) \<Longrightarrow> clean_result w (if c then x else y)"
  by simp

lemma clean_end: "wire_phase w = Idle \<Longrightarrow> r = -1 \<or> r \<in> {0..2568} \<Longrightarrow> clean_result w (r, w)"
  by (simp add: clean_result_def adds_clean_def)

lemma wire_lux_clean: "clean_result w (wire_lux gpio w)"
  unfolding wire_lux_def
  by (rule clean_try [OF adds_clean_access(1)] clean_try [OF adds_clean_access(2)] clean_if clean_end | assumption | simp add: calc_lux_used_bound)+

section \<open>Properties\<close>

text \<open>
  C19: the register accesses refine the transactions of the data sheet. From an idle bus,
  \<^verbatim>\<open>tsl2561_writebyte\<close>, \<^verbatim>\<open>tsl2561_readbyte\<close> and \<^verbatim>\<open>tsl2561_readword\<close> put exactly the START, address, command,
  data and STOP of one write or one combined write and read on the bus, stop at the first byte that the
  chip does not acknowledge, return the bytes read most significant bit first, and leave the bus idle; a
  register number above 15 is refused without touching the bus.
\<close>

theorem tsl2561_register_access:
  "implements (i2c_inv b0) (i2c_view b0) (tsl2561_writebyte gpio reg val) {Idle} (\<lambda>w. if reg \<le> 15 then wire_write gpio reg val w else (None, w)) \<and>
   implements (i2c_inv b0) (i2c_view b0) (tsl2561_readbyte gpio reg) {Idle} (\<lambda>w. if reg \<le> 15 then wire_read gpio reg 1 (byte_in gpio) w else (None, w)) \<and>
   implements (i2c_inv b0) (i2c_view b0) (tsl2561_readword gpio reg) {Idle} (\<lambda>w. if reg \<le> 15 then wire_read gpio reg 2 (word_in gpio) w else (None, w))"
proof (cases "reg \<le> 15")
  case True
  then show ?thesis using writebyte_implements readbyte_implements readword_implements by simp
next
  case False
  then have "15 < reg" by simp
  then show ?thesis using False by (simp add: tsl2561_writebyte_def tsl2561_readbyte_def tsl2561_readword_def implements_return)
qed

text \<open>
  C33: whatever the sensor and the bus answer, \<^verbatim>\<open>tsl2561_lux\<close> started on an idle bus leaves it idle and usable
  for the next transaction, causes no glitch, and returns \<open>-1\<close> or a value from 0 to 2568.
\<close>

theorem tsl2561_lux_safe:
  fixes gpio :: "nat \<Rightarrow> bool"
  assumes "i2c_inv b0 s" "wire_phase (i2c_view b0 s) = Idle"
  defines "r \<equiv> run_state (tsl2561_lux gpio) s"
  shows "i2c_inv b0 (snd r) \<and> wire_phase (i2c_view b0 (snd r)) = Idle \<and> (fst r = -1 \<or> 0 \<le> fst r \<and> fst r \<le> 2568) \<and>
    (\<exists>es. wire_events (i2c_view b0 (snd r)) = wire_events (i2c_view b0 s) @ es \<and> Glitch \<notin> set es)"
  using lux_implements [of b0 gpio] wire_lux_clean [of "i2c_view b0 s" gpio] assms
  by (simp add: implements_def clean_result_def adds_clean_def)

text \<open>The pin reads at which the sensor has to acknowledge, counted from the start of the measurement.\<close>

definition lux_acks :: "nat list" where
  "lux_acks = [0, 1, 2, 11, 12, 13, 14, 15, 16, 17, 18, 19, 36, 37, 38, 55, 56, 57]"

lemma wire_write_ok:
  "wire_reads w = r + n \<Longrightarrow> list_all (\<lambda>i. \<not> gpio (r + i)) [n, n + 1, n + 2] \<Longrightarrow>
   wire_write gpio reg val w = (Some (), wire_do Idle 3 (Start # frame_bits 0x72 @ frame_bits (0x80 OR reg) @ frame_bits val @ [Stop]) w)"
  by (simp add: wire_write_def)

lemma wire_read_ok:
  "wire_reads w = r + n \<Longrightarrow> list_all (\<lambda>i. \<not> gpio (r + i)) [n, n + 1, n + 2] \<Longrightarrow>
   wire_read gpio reg m value w = (Some (value (r + (n + 3))),
     wire_do Idle (3 + 8 * m) (Start # frame_bits 0x72 @ frame_bits (0x80 OR reg) @ Start # frame_bits 0x73 @ data_bits m @ [Stop]) w)"
  by (simp add: wire_read_def add.assoc)

lemma wire_lux_reading:
  assumes "list_all (\<lambda>i. \<not> gpio (wire_reads w + i)) lux_acks"
    and part: "drop_bit 4 (byte_in gpio (wire_reads w + 3)) = 1 \<or> drop_bit 4 (byte_in gpio (wire_reads w + 3)) = 5"
  shows "wire_lux gpio w = (uint (calc_lux 1 2 (if drop_bit 4 (byte_in gpio (wire_reads w + 3)) = 5 then 0 else 1)
      (word_in gpio (wire_reads w + 20)) (word_in gpio (wire_reads w + 39))),
    wire_do Idle 58 (Start # frame_bits 0x72 @ frame_bits 0x8a @ Start # frame_bits 0x73 @ data_bits 1 @ Stop #
      Start # frame_bits 0x72 @ frame_bits 0x80 @ frame_bits 0x03 @ Stop #
      Start # frame_bits 0x72 @ frame_bits 0x81 @ frame_bits 0x12 @ Stop #
      Start # frame_bits 0x72 @ frame_bits 0x8c @ Start # frame_bits 0x73 @ data_bits 2 @ Stop #
      Start # frame_bits 0x72 @ frame_bits 0x8e @ Start # frame_bits 0x73 @ data_bits 2 @ Stop #
      Start # frame_bits 0x72 @ frame_bits 0x80 @ frame_bits 0x00 @ [Stop]) w)"
proof -
  let ?r = "wire_reads w"
  have a: "list_all (\<lambda>i. \<not> gpio (?r + i)) [n, n + 1, n + 2]" if "n \<in> {0, 11, 14, 17, 36, 55}" for n
    using assms(1) that by (auto simp: lux_acks_def add.commute)
  define w1 where "w1 = wire_do Idle 11 (Start # frame_bits 0x72 @ frame_bits 0x8a @ Start # frame_bits 0x73 @ data_bits 1 @ [Stop]) w"
  define w2 where "w2 = wire_do Idle 3 (Start # frame_bits 0x72 @ frame_bits 0x80 @ frame_bits 0x03 @ [Stop]) w1"
  define w3 where "w3 = wire_do Idle 3 (Start # frame_bits 0x72 @ frame_bits 0x81 @ frame_bits 0x12 @ [Stop]) w2"
  define w4 where "w4 = wire_do Idle 19 (Start # frame_bits 0x72 @ frame_bits 0x8c @ Start # frame_bits 0x73 @ data_bits 2 @ [Stop]) w3"
  define w5 where "w5 = wire_do Idle 19 (Start # frame_bits 0x72 @ frame_bits 0x8e @ Start # frame_bits 0x73 @ data_bits 2 @ [Stop]) w4"
  define w6 where "w6 = wire_do Idle 3 (Start # frame_bits 0x72 @ frame_bits 0x80 @ frame_bits 0x00 @ [Stop]) w5"
  note w = w1_def w2_def w3_def w4_def w5_def
  have 1: "wire_read gpio REG_ID 1 (byte_in gpio) w = (Some (byte_in gpio (?r + 3)), w1)"
    using wire_read_ok [of w ?r 0 gpio REG_ID 1 "byte_in gpio", OF _ a] by (simp add: w1_def REG_ID_def)
  have 2: "wire_write gpio REG_CONTROL 3 w1 = (Some (), w2)"
    using wire_write_ok [of w1 ?r 11 gpio REG_CONTROL 3, OF _ a] by (simp add: w2_def REG_CONTROL_def) (simp add: w)
  have 3: "wire_write gpio REG_TIMING 0x12 w2 = (Some (), w3)"
    using wire_write_ok [of w2 ?r 14 gpio REG_TIMING "0x12", OF _ a] by (simp add: w3_def REG_TIMING_def) (simp add: w)
  have 4: "wire_read gpio REG_DATA0LOW 2 (word_in gpio) w3 = (Some (word_in gpio (?r + 20)), w4)"
    using wire_read_ok [of w3 ?r 17 gpio REG_DATA0LOW 2 "word_in gpio", OF _ a] by (simp add: w4_def REG_DATA0LOW_def) (simp add: w)
  have 5: "wire_read gpio REG_DATA1LOW 2 (word_in gpio) w4 = (Some (word_in gpio (?r + 39)), w5)"
    using wire_read_ok [of w4 ?r 36 gpio REG_DATA1LOW 2 "word_in gpio", OF _ a] by (simp add: w5_def REG_DATA1LOW_def) (simp add: w)
  have 6: "wire_write gpio REG_CONTROL 0 w5 = (Some (), w6)"
    using wire_write_ok [of w5 ?r 55 gpio REG_CONTROL 0, OF _ a] by (simp add: w6_def REG_CONTROL_def) (simp add: w)
  show ?thesis using part unfolding wire_lux_def Let_def 1 by (simp add: 2 3 4 5 6) (auto simp: w w6_def)
qed

text \<open>
  C17: a complete measurement. When the sensor identifies itself as a TSL2561 and acknowledges every byte,
  \<^verbatim>\<open>tsl2561_lux\<close> performs exactly these six transactions (identification, power on, 16x gain and 402 ms
  integration, the two 16-bit channels, power off) and returns the data sheet's formula for the package found, evaluated
  without overflow on the two channel values that were read.
\<close>

theorem tsl2561_lux_reading:
  fixes gpio :: "nat \<Rightarrow> bool"
  assumes "i2c_inv b0 s" "wire_phase (i2c_view b0 s) = Idle"
    and "list_all (\<lambda>i. \<not> gpio (i2c_reads s + i)) lux_acks"
    and "drop_bit 4 (byte_in gpio (i2c_reads s + 3)) = 1 \<or> drop_bit 4 (byte_in gpio (i2c_reads s + 3)) = 5"
  defines "r \<equiv> run_state (tsl2561_lux gpio) s"
  shows "fst r = int (lux_exact 1024 (if drop_bit 4 (byte_in gpio (i2c_reads s + 3)) = 5 then lux_coeffs_T else lux_coeffs_CS)
      (unat (word_in gpio (i2c_reads s + 20))) (unat (word_in gpio (i2c_reads s + 39)))) \<and>
    i2c_view b0 (snd r) = wire_do Idle 58 (Start # frame_bits 0x72 @ frame_bits 0x8a @ Start # frame_bits 0x73 @ data_bits 1 @ Stop #
      Start # frame_bits 0x72 @ frame_bits 0x80 @ frame_bits 0x03 @ Stop #
      Start # frame_bits 0x72 @ frame_bits 0x81 @ frame_bits 0x12 @ Stop #
      Start # frame_bits 0x72 @ frame_bits 0x8c @ Start # frame_bits 0x73 @ data_bits 2 @ Stop #
      Start # frame_bits 0x72 @ frame_bits 0x8e @ Start # frame_bits 0x73 @ data_bits 2 @ Stop #
      Start # frame_bits 0x72 @ frame_bits 0x80 @ frame_bits 0x00 @ [Stop]) (i2c_view b0 s)"
proof -
  have v: "wire_reads (i2c_view b0 s) = i2c_reads s" using assms(1) by (simp add: i2c_inv_def i2c_view_def)
  have "fst r = fst (wire_lux gpio (i2c_view b0 s)) \<and> i2c_view b0 (snd r) = snd (wire_lux gpio (i2c_view b0 s))"
    using lux_implements [of b0 gpio] assms(1,2) by (simp add: implements_def r_def)
  then show ?thesis using wire_lux_reading [of gpio "i2c_view b0 s"] assms(3,4) by (simp add: v calc_lux_used)
qed

text \<open>
  C34: what \<^verbatim>\<open>calc_lux\<close> computes, for every gain, integration time, type and pair of channel values. It is the fixed-point
  formula on the scaled channels, in which only two things can be lost: the upper bits of the products with the scale, beyond 32, and
  those of the result, beyond 16. Nothing is ever lost exactly at the settings with 16x gain or an integration time of 402 ms (or
  manual); at 1x gain and 13.7 or 101 ms, which the comment of the function lists too, bright light gives a wrong result.
\<close>

theorem calc_lux_exact:
  fixes gain time type :: u8
  defines "S \<equiv> (if time = 0 then 29975 else if time = 1 then 4071 else 1024) * (if gain = 0 then 16 else 1)"
  defines "table \<equiv> (if type = 0 then lux_coeffs_T else lux_coeffs_CS)"
  shows "unat (calc_lux gain time type raw0 raw1) =
      lux_from table (unat raw0 * S mod 2 ^ 32 div 1024) (unat raw1 * S mod 2 ^ 32 div 1024) mod 2 ^ 16 \<and>
    ((\<forall>raw0 raw1. unat (calc_lux gain time type raw0 raw1) = lux_exact S table (unat raw0) (unat raw1)) \<longleftrightarrow> gain \<noteq> 0 \<or> 2 \<le> time)"
proof -
  have S: "unat (lux_scale gain time) = S" by (simp add: lux_scale_def Let_def S_def)
  have t: "2 \<le> time \<longleftrightarrow> time \<noteq> 0 \<and> time \<noteq> 1" by (auto simp: word_le_nat_alt word_unat_eq_iff)
  have "\<exists>raw0 raw1. unat (calc_lux gain time type raw0 raw1) \<noteq> lux_exact S table (unat raw0) (unat raw1)" if "gain = 0" "\<not> 2 \<le> time"
  proof -
    have "2 ^ 16 \<le> lux_exact S table (unat (0xffff :: u16)) (unat (0 :: u16))"
      using that t by (auto simp: S_def table_def lux_exact_def lux_from_def lux_coeffs_T_def lux_coeffs_CS_def)
    moreover have "unat (calc_lux gain time type 0xffff 0) < 2 ^ 16" using unsigned_less [of "calc_lux gain time type 0xffff 0", where 'a = nat] by simp
    ultimately show ?thesis by (metis leD)
  qed
  moreover have "unat (calc_lux gain time type r0 r1) = lux_exact S table (unat r0) (unat r1)" if "gain \<noteq> 0 \<or> 2 \<le> time" for r0 r1
    using calc_lux_fits [of gain time type r0 r1] that t by (auto simp: S table_def) (auto simp: S_def)
  ultimately show ?thesis using calc_lux_value [of gain time type raw0 raw1] unfolding S table_def by blast
qed

theorem calc_lux_exact_witness:
  "unat (calc_lux 0 2 1 0xffff 0x4000) = lux_exact 16384 lux_coeffs_CS 65535 16384 \<and> unat (calc_lux 0 0 0 0xffff 0) = 40542 \<and>
   lux_exact 479600 lux_coeffs_T 65535 0 = 932958"
proof -
  have "\<forall>r0 r1. unat (calc_lux 0 2 1 r0 r1) = lux_exact 16384 lux_coeffs_CS (unat r0) (unat r1)" using conjunct2 [OF calc_lux_exact [where gain = 0 and time = 2 and type = 1]] by simp
  then have "unat (calc_lux 0 2 1 0xffff 0x4000) = lux_exact 16384 lux_coeffs_CS (unat (0xffff :: u16)) (unat (0x4000 :: u16))" by blast
  moreover have "unat (calc_lux 0 0 0 0xffff 0) = 40542"
    using conjunct1 [OF calc_lux_exact [of 0 0 0 "0xffff" 0]] by (simp add: lux_from_def lux_coeffs_T_def)
  ultimately show ?thesis by (simp add: lux_exact_def lux_from_def lux_coeffs_T_def)
qed

text \<open>A state between two transactions, and a TSL2561T that measures 256 on its first channel and 16 on the second.\<close>

definition i2c_rest :: i2c_state where
  "i2c_rest = \<lparr>m_nLastSDA = 1, m_nLastSCL = 1, i2c_regs = (\<lambda>_. 0), i2c_reads = 0, i2c_calls = []\<rparr>"

lemma i2c_rest [simp]: "i2c_reads i2c_rest = 0" "i2c_inv bus_idle i2c_rest" "wire_phase (i2c_view bus_idle i2c_rest) = Idle"
  by (simp_all add: i2c_inv_def i2c_view_def i2c_bus_def i2c_rest_def bus_idle_def)

definition sensor_sample :: "nat \<Rightarrow> bool" where
  "sensor_sample k \<longleftrightarrow> k \<in> {4, 6, 35, 42}"

lemma sensor_sample_bytes:
  "byte_in sensor_sample 3 = 0x50" "byte_in sensor_sample 20 = 0" "byte_in sensor_sample 28 = 1"
  "byte_in sensor_sample 39 = 0x10" "byte_in sensor_sample 47 = 0"
  by (simp_all add: byte_in_def sensor_sample_def upt_rec)

theorem tsl2561_lux_reading_witness: "fst (run_state (tsl2561_lux sensor_sample) i2c_rest) = 7"
proof -
  have a: "list_all (\<lambda>i. \<not> sensor_sample (0 + i)) lux_acks" by (simp add: lux_acks_def sensor_sample_def)
  have "fst (run_state (tsl2561_lux sensor_sample) i2c_rest) = int (lux_exact 1024 lux_coeffs_T 256 16)"
    using tsl2561_lux_reading [of bus_idle i2c_rest sensor_sample] a
    by (simp add: word_in_def sensor_sample_bytes lux_acks_def)
  then show ?thesis by (simp add: lux_exact_def lux_from_def lux_coeffs_T_def)
qed

theorem tsl2561_lux_safe_witness: "i2c_inv bus_idle (snd (run_state (tsl2561_lux (\<lambda>k. True)) i2c_rest))"
  using tsl2561_lux_safe [of bus_idle i2c_rest "\<lambda>k. True"] by simp

end
