(* ===== verification/Wifi.thy ===== *)
theory Wifi
  imports Smtp Uptime
begin

text \<open>
  The wireless configuration of \<^verbatim>\<open>src/wifi.c\<close>, with the macros of \<^verbatim>\<open>src/config.h\<close> that it uses: the set-up of
  the access point at boot and the event callback. The SDK's answers are the record \<open>wifi_sdk\<close>; what the code
  does, log messages included, is a list of \<open>wifi_call\<close>s. A log message is recorded with its arguments, before
  it is formatted. The macro \<^verbatim>\<open>CRITICAL\<close> never returns: it is the outcome \<open>Halted\<close>.
\<close>

section \<open>The code\<close>

definition WIFI_SSID_PREFIX :: "u8 list" where "WIFI_SSID_PREFIX = ascii ''esp8266''"
definition WIFI_PASSWORD :: "u8 list" where "WIFI_PASSWORD = ascii ''l0cK*It_Dwn''"

datatype opmode = NULL_MODE | STATION_MODE | SOFTAP_MODE | STATIONAP_MODE

datatype auth_mode = AUTH_OPEN | AUTH_WEP | AUTH_WPA_PSK | AUTH_WPA2_PSK | AUTH_WPA_WPA2_PSK

record softap_config =
  ap_ssid :: "u8 list"
  ap_password :: "u8 list"
  ap_ssid_len :: u8
  ap_channel :: u8
  ap_authmode :: auth_mode
  ap_ssid_hidden :: u8
  ap_max_connection :: u8
  ap_beacon_interval :: u16

record station_config =
  sta_ssid :: "u8 list"
  sta_password :: "u8 list"
  sta_bssid_set :: bool
  sta_bssid :: "u8 list"

text \<open>\<^verbatim>\<open>None\<close> is a call that fails.\<close>

record wifi_sdk =
  sdk_opmode :: opmode
  sdk_set_opmode :: bool
  sdk_softap_get :: "softap_config option"
  sdk_softap_set :: bool
  sdk_station_get :: "station_config option"
  sdk_chip_id :: u32

datatype wifi_log =
    Station_ssid "u8 list"
  | Station_pass "u8 list"
  | Station_bssid "u8 list"
  | Get_station_failed
  | Sta_connected "u8 list" u8
  | Sta_disconnected "u8 list" u8
  | Sta_authmode_change u8 u8
  | Sta_got_ip u32 u32 u32
  | Softap_staconnected "u8 list" u8
  | Softap_stadisconnected "u8 list" u8
  | Unknown_event nat

datatype wifi_call =
    Set_opmode opmode
  | Softap_set_config softap_config
  | Set_event_handler
  | Wifi_log wifi_log

datatype outcome = Halted "u8 list" | Returned

text \<open>
  The macro \<^verbatim>\<open>COPY_SSID\<close>; \<open>None\<close> is a write behind \<^verbatim>\<open>dest\<close>. \<^verbatim>\<open>os_strncpy\<close> copies \<open>len\<close> bytes, since none of
  the first \<^verbatim>\<open>strnlen\<close> is a NUL.
\<close>

definition strnlen :: "u8 list \<Rightarrow> nat \<Rightarrow> nat" where
  "strnlen src n = length (takeWhile (\<lambda>b. b \<noteq> 0) (take n src))"

definition COPY_SSID :: "u8 list \<Rightarrow> u8 list \<Rightarrow> u8 \<Rightarrow> u8 list option" where
  "COPY_SSID dest src srclen =
     (let len = strnlen src 32;
          len = (if 0 < srclen \<and> unat srclen < len then unat srclen else len)
      in if length dest \<le> len then None
         else Some (patch dest 0 (take len src @ [0])))"

text \<open>
  \<^verbatim>\<open>os_strncpy(dest, src, os_strlen(src)+1)\<close> copies the string with its NUL.
\<close>

definition copy_string :: "u8 list \<Rightarrow> u8 list \<Rightarrow> u8 list option" where
  "copy_string dest src = (if length dest < length src + 1 then None else Some (patch dest 0 (src @ [0])))"

definition wifi_ssid :: "wifi_sdk \<Rightarrow> u8 list \<Rightarrow> u8 list" where
  "wifi_ssid sdk ssid =
     patch ssid 0 (c_snprintf (take (length ssid - 1) ssid) (WIFI_SSID_PREFIX @ ascii ''-'' @ fmt_08x (sdk_chip_id sdk)))"

definition wifi_apconf :: "wifi_sdk \<Rightarrow> u8 list \<Rightarrow> softap_config \<Rightarrow> softap_config option" where
  "wifi_apconf sdk ssid apconf =
     (case copy_string (ap_ssid apconf) (cstr ssid) of None \<Rightarrow> None | Some s \<Rightarrow>
        (case copy_string (ap_password apconf) WIFI_PASSWORD of None \<Rightarrow> None | Some p \<Rightarrow>
           Some (apconf\<lparr>ap_ssid := s, ap_ssid_len := 0, ap_password := p, ap_channel := 1, ap_authmode := AUTH_WPA_WPA2_PSK,
             ap_ssid_hidden := 0, ap_max_connection := 4, ap_beacon_interval := 100\<rparr>)))"

text \<open>The end of \<^verbatim>\<open>wifi_init\<close>, from the registration of the callback on.\<close>

definition wifi_init_station :: "wifi_sdk \<Rightarrow> u8 list \<Rightarrow> wifi_call list \<Rightarrow> (wifi_call list \<times> outcome) option" where
  "wifi_init_station sdk ssid calls =
     (let calls = calls @ [Set_event_handler] in
      case sdk_station_get sdk of
        None \<Rightarrow> Some (calls @ [Wifi_log Get_station_failed], Returned)
      | Some sta \<Rightarrow>
          (case COPY_SSID ssid (sta_ssid sta) 0 of
             None \<Rightarrow> None
           | Some ssid \<Rightarrow>
               Some (calls @ [Wifi_log (Station_ssid (cstr ssid)), Wifi_log (Station_pass (cstr (sta_password sta)))] @
                 (if sta_bssid_set sta then [Wifi_log (Station_bssid (sta_bssid sta))] else []), Returned)))"

text \<open>\<open>ssid0\<close> is the array \<^verbatim>\<open>ssid\<close> on the stack; \<open>None\<close> is a write outside an array.\<close>

definition wifi_init :: "wifi_sdk \<Rightarrow> u8 list \<Rightarrow> (wifi_call list \<times> outcome) option" where
  "wifi_init sdk ssid0 =
     (let calls = (if sdk_opmode sdk \<noteq> STATIONAP_MODE then [Set_opmode STATIONAP_MODE] else []) in
      if sdk_opmode sdk \<noteq> STATIONAP_MODE \<and> \<not> sdk_set_opmode sdk
      then Some (calls, Halted (ascii ''wifi_set_opmode() failed''))
      else
        case sdk_softap_get sdk of
          None \<Rightarrow> Some (calls, Halted (ascii ''wifi_softap_get_config() failed''))
        | Some apconf \<Rightarrow>
            let ssid = wifi_ssid sdk ssid0 in
            if \<not> strncmp_eq ssid (ap_ssid apconf) (c_strlen ssid) then
              (case wifi_apconf sdk ssid apconf of
                 None \<Rightarrow> None
               | Some apconf \<Rightarrow>
                   if \<not> sdk_softap_set sdk
                   then Some (calls @ [Softap_set_config apconf], Halted (ascii ''wifi_softap_set_config() failed''))
                   else wifi_init_station sdk ssid (calls @ [Softap_set_config apconf]))
            else wifi_init_station sdk ssid calls)"

datatype wifi_event =
    EVENT_STAMODE_CONNECTED "u8 list" u8 u8
  | EVENT_STAMODE_DISCONNECTED "u8 list" u8 u8
  | EVENT_STAMODE_AUTHMODE_CHANGE u8 u8
  | EVENT_STAMODE_GOT_IP u32 u32 u32
  | EVENT_SOFTAPMODE_STACONNECTED "u8 list" u8
  | EVENT_SOFTAPMODE_STADISCONNECTED "u8 list" u8
  | EVENT_SOFTAPMODE_PROBEREQRECVED
  | EVENT_OTHER nat

text \<open>\<open>ssid\<close> and \<open>subj\<close> are the arrays on the stack. The mail client is the only other component it reaches.\<close>

definition wifi_evt_cb ::
    "smtp_sdk \<Rightarrow> smtp_server \<Rightarrow> u32 \<Rightarrow> u8 list \<Rightarrow> u8 list \<Rightarrow> wifi_event \<Rightarrow> smtp_state \<Rightarrow> (wifi_log list \<times> smtp_state) option" where
  "wifi_evt_cb sdk sv chip_id ssid subj evt s =
     (case evt of
        EVENT_STAMODE_CONNECTED src srclen channel \<Rightarrow>
          map_option (\<lambda>d. ([Sta_connected (cstr d) channel], s)) (COPY_SSID ssid src srclen)
      | EVENT_STAMODE_DISCONNECTED src srclen reason \<Rightarrow>
          map_option (\<lambda>d. ([Sta_disconnected (cstr d) reason], s)) (COPY_SSID ssid src srclen)
      | EVENT_STAMODE_AUTHMODE_CHANGE old new \<Rightarrow> Some ([Sta_authmode_change old new], s)
      | EVENT_STAMODE_GOT_IP ip netmask gw \<Rightarrow>
          (let subj = c_snprintf subj (ascii ''esp8266-'' @ fmt_08x chip_id @ ascii '' online'')
           in Some ([Sta_got_ip ip netmask gw], smtp_send sdk sv (cstr (sv_from sv)) (cstr (sv_to sv)) (cstr subj) [] s))
      | EVENT_SOFTAPMODE_STACONNECTED mac aid \<Rightarrow> Some ([Softap_staconnected mac aid], s)
      | EVENT_SOFTAPMODE_STADISCONNECTED mac aid \<Rightarrow> Some ([Softap_stadisconnected mac aid], s)
      | EVENT_SOFTAPMODE_PROBEREQRECVED \<Rightarrow> Some ([], s)
      | EVENT_OTHER n \<Rightarrow> Some ([Unknown_event n], s))"

section \<open>Lemmas\<close>

lemma copy_ssid:
  assumes "length dest = 33" "length src = 32"
  shows "\<exists>d. COPY_SSID dest src srclen = Some d \<and> length d = 33 \<and>
    cstr d = (if srclen = 0 then cstr src else take (unat srclen) (cstr src))"
proof -
  have n: "strnlen src 32 = c_strlen src" using assms by (simp add: strnlen_def c_strlen_def cstr_def)
  have l: "c_strlen src \<le> 32" using assms length_takeWhile_le [of _ src] by (simp add: c_strlen_def cstr_def)
  define len where "len = (if 0 < srclen \<and> unat srclen < c_strlen src then unat srclen else c_strlen src)"
  have le: "len \<le> c_strlen src" by (simp add: len_def)
  have "cstr src = take (c_strlen src) src" unfolding c_strlen_def cstr_def by (rule takeWhile_eq_take)
  then have t: "take len src = take len (cstr src)" using le by (metis min.absorb1 take_take)
  have z: "0 \<notin> set (take len src)"
    unfolding t by (auto simp: cstr_def dest!: in_set_takeD set_takeWhileD)
  have "COPY_SSID dest src srclen = Some (patch dest 0 (take len src @ [0]))"
    using le l assms by (simp add: COPY_SSID_def n len_def Let_def)
  moreover have "cstr (patch dest 0 (take len src @ [0])) = take len src"
    using z by (simp add: patch_def cstr_append)
  moreover have "take len src = (if srclen = 0 then cstr src else take (unat srclen) (cstr src))"
    unfolding t by (auto simp: len_def c_strlen_def word_gt_0)
  moreover have "length (take len src) = len" using le l assms by simp
  ultimately show ?thesis using le l assms by auto
qed

lemma hex_nz: "0 \<notin> set (fmt_08x w)" "length (fmt_08x w) = 8"
proof -
  have "ascii ''0123456789abcdef'' ! n \<noteq> 0" if "n < 16" for n
  proof -
    have "list_all (\<lambda>c. c \<noteq> 0) (ascii ''0123456789abcdef'')" "length (ascii ''0123456789abcdef'') = 16" by (simp_all add: ascii_def)
    then show ?thesis using that by (simp add: list_all_length)
  qed
  then show "0 \<notin> set (fmt_08x w)" by (auto simp: fmt_08x_def)
  show "length (fmt_08x w) = 8" by (simp add: fmt_08x_def)
qed

text \<open>The name of the access point, and that it fits its array.\<close>

definition ssid_text :: "u32 \<Rightarrow> u8 list" where
  "ssid_text chip_id = ascii ''esp8266-'' @ fmt_08x chip_id"

lemma ssid_text: "0 \<notin> set (ssid_text chip_id)" "length (ssid_text chip_id) = 16"
  using hex_nz [of chip_id] by (auto simp: ssid_text_def ascii_def)

lemma wifi_ssid:
  assumes "length ssid = 33"
  shows "cstr (wifi_ssid sdk ssid) = ssid_text (sdk_chip_id sdk) \<and> length (wifi_ssid sdk ssid) = 33 \<and>
    take 16 (wifi_ssid sdk ssid) = ssid_text (sdk_chip_id sdk)"
proof -
  have t: "WIFI_SSID_PREFIX @ ascii ''-'' @ fmt_08x (sdk_chip_id sdk) = ssid_text (sdk_chip_id sdk)"
    by (simp add: WIFI_SSID_PREFIX_def ssid_text_def ascii_def)
  have l: "length (take 32 ssid) = 32" using assms by simp
  then have p: "wifi_ssid sdk ssid = ssid_text (sdk_chip_id sdk) @ 0 # drop 17 ssid"
    using assms ssid_text [of "sdk_chip_id sdk"] append_take_drop_id [of 15 "drop 17 ssid"] unfolding wifi_ssid_def t
    by (auto simp: c_snprintf_def patch_def drop_take)
  show ?thesis unfolding p using ssid_text [of "sdk_chip_id sdk"] assms by (simp add: cstr_append)
qed

lemma ssid_compare:
  assumes "length ssid = 33" "length ap = 32"
  shows "strncmp_eq (wifi_ssid sdk ssid) ap (c_strlen (wifi_ssid sdk ssid)) \<longleftrightarrow> take 16 ap = ssid_text (sdk_chip_id sdk)"
proof -
  let ?w = "wifi_ssid sdk ssid"
  have c: "c_strlen ?w = 16" "length ?w = 33" "take 16 ?w = ssid_text (sdk_chip_id sdk)"
    using wifi_ssid [OF assms(1), of sdk] ssid_text [of "sdk_chip_id sdk"]
    by (auto simp: c_strlen_def)
  have "?w ! k \<noteq> 0" if "k < 16" for k
  proof -
    have "ssid_text (sdk_chip_id sdk) ! k = ?w ! k" using that unfolding c(3) [symmetric] by simp
    then show ?thesis using ssid_text [of "sdk_chip_id sdk"] that by (metis nth_mem)
  qed
  then have "strncmp_eq ?w ap 16 \<longleftrightarrow> take 16 ?w = take 16 ap" by (intro strncmp_eq_prefix) (use c assms in auto)
  then show ?thesis using c by auto
qed

text \<open>The configuration that \<^verbatim>\<open>wifi_init\<close> writes.\<close>

lemma apconf_written:
  assumes "length ssid = 33" "length (ap_ssid ap) = 32" "length (ap_password ap) = 64"
  obtains c where "wifi_apconf sdk (wifi_ssid sdk ssid) ap = Some c" "length (ap_ssid c) = 32"
    "take 17 (ap_ssid c) = ssid_text (sdk_chip_id sdk) @ [0]" "cstr (ap_password c) = WIFI_PASSWORD"
    "ap_authmode c = AUTH_WPA_WPA2_PSK" "ap_ssid_len c = 0" "ap_max_connection c = 4"
proof -
  note w = conjunct1 [OF wifi_ssid [OF assms(1), of sdk]] ssid_text [of "sdk_chip_id sdk"]
  have p: "0 \<notin> set WIFI_PASSWORD" "length WIFI_PASSWORD = 11" by (auto simp: WIFI_PASSWORD_def ascii_def)
  have "wifi_apconf sdk (wifi_ssid sdk ssid) ap = Some (ap\<lparr>ap_ssid := ssid_text (sdk_chip_id sdk) @ 0 # drop 17 (ap_ssid ap),
      ap_ssid_len := 0, ap_password := WIFI_PASSWORD @ 0 # drop 12 (ap_password ap), ap_channel := 1,
      ap_authmode := AUTH_WPA_WPA2_PSK, ap_ssid_hidden := 0, ap_max_connection := 4, ap_beacon_interval := 100\<rparr>)"
    using assms w p by (simp add: wifi_apconf_def copy_string_def patch_def)
  then show ?thesis by (rule that) (use assms w p in \<open>simp_all add: cstr_append\<close>)
qed

lemma init_station:
  assumes "length ssid = 33" "\<And>sta. sdk_station_get sdk = Some sta \<Longrightarrow> length (sta_ssid sta) = 32"
  shows "\<exists>ls. wifi_init_station sdk ssid calls = Some (calls @ Set_event_handler # map Wifi_log ls, Returned)"
proof (cases "sdk_station_get sdk")
  case None
  then show ?thesis by (auto simp: wifi_init_station_def intro: exI [of _ "[_]"])
next
  case (Some sta)
  obtain d where "COPY_SSID ssid (sta_ssid sta) 0 = Some d" using copy_ssid [OF assms(1) assms(2) [OF Some]] by blast
  then show ?thesis using Some
    by (auto simp: wifi_init_station_def intro: exI [of _ "Station_ssid _ # Station_pass _ # (if sta_bssid_set sta then [Station_bssid _] else [])"])
qed

lemma wifi_init_result:
  assumes "length ssid = 33" "sdk_set_opmode sdk" "sdk_softap_set sdk" "sdk_softap_get sdk = Some ap"
    and "length (ap_ssid ap) = 32" "length (ap_password ap) = 64"
    and "case sdk_station_get sdk of None \<Rightarrow> True | Some sta \<Rightarrow> length (sta_ssid sta) = 32"
  shows "\<exists>calls. wifi_init sdk ssid = Some (calls, Returned) \<and>
    (if take 16 (ap_ssid ap) = ssid_text (sdk_chip_id sdk) then \<forall>c. Softap_set_config c \<notin> set calls
     else \<exists>c. Softap_set_config c \<in> set calls \<and> take 17 (ap_ssid c) = ssid_text (sdk_chip_id sdk) @ [0] \<and>
        cstr (ap_password c) = WIFI_PASSWORD \<and> ap_authmode c = AUTH_WPA_WPA2_PSK \<and>
        (\<exists>calls2. wifi_init (sdk\<lparr>sdk_softap_get := Some c\<rparr>) ssid = Some (calls2, Returned) \<and>
           (\<forall>c2. Softap_set_config c2 \<notin> set calls2)))"
proof -
  have sta: "\<And>sta. sdk_station_get sdk = Some sta \<Longrightarrow> length (sta_ssid sta) = 32" using assms(7) by simp
  have l: "length (wifi_ssid sdk ssid) = 33" using wifi_ssid [OF assms(1)] by blast
  have w: "wifi_ssid (sdk\<lparr>sdk_softap_get := x\<rparr>) = wifi_ssid sdk" for x by (simp add: wifi_ssid_def fun_eq_iff)
  have quiet: "\<exists>calls. wifi_init (sdk\<lparr>sdk_softap_get := Some c\<rparr>) ssid = Some (calls, Returned) \<and> (\<forall>c2. Softap_set_config c2 \<notin> set calls)"
    if "length (ap_ssid c) = 32" "take 16 (ap_ssid c) = ssid_text (sdk_chip_id sdk)" for c
    using ssid_compare [OF assms(1) that(1), of sdk] that(2) assms(2)
      init_station [OF l, of "sdk\<lparr>sdk_softap_get := Some c\<rparr>" "if sdk_opmode sdk \<noteq> STATIONAP_MODE then [Set_opmode STATIONAP_MODE] else []"] sta
    by (auto simp: wifi_init_def Let_def w)
  show ?thesis
  proof (cases "take 16 (ap_ssid ap) = ssid_text (sdk_chip_id sdk)")
    case True
    have "sdk\<lparr>sdk_softap_get := Some ap\<rparr> = sdk" using assms(4) by simp
    then show ?thesis using quiet [OF assms(5) True] True by simp
  next
    case False
    obtain c where c: "wifi_apconf sdk (wifi_ssid sdk ssid) ap = Some c" "length (ap_ssid c) = 32"
        "take 17 (ap_ssid c) = ssid_text (sdk_chip_id sdk) @ [0]" "cstr (ap_password c) = WIFI_PASSWORD" "ap_authmode c = AUTH_WPA_WPA2_PSK"
      using apconf_written [OF assms(1,5,6)] by blast
    define calls where "calls = (if sdk_opmode sdk \<noteq> STATIONAP_MODE then [Set_opmode STATIONAP_MODE] else []) @ [Softap_set_config c]"
    obtain ls where "wifi_init_station sdk (wifi_ssid sdk ssid) calls = Some (calls @ Set_event_handler # map Wifi_log ls, Returned)"
      using init_station [OF l sta] by blast
    then have i: "wifi_init sdk ssid = Some (calls @ Set_event_handler # map Wifi_log ls, Returned)"
      using assms(2,3,4) c(1) ssid_compare [OF assms(1,5), of sdk] False by (auto simp: wifi_init_def Let_def calls_def)
    have "take 16 (take 17 (ap_ssid c)) = ssid_text (sdk_chip_id sdk)" unfolding c(3) by (simp add: ssid_text)
    then have "take 16 (ap_ssid c) = ssid_text (sdk_chip_id sdk)" by simp
    from quiet [OF c(2) this] show ?thesis using i c(3-5) False by (auto simp: calls_def)
  qed
qed

section \<open>Properties\<close>

text \<open>
  C35: \<^verbatim>\<open>wifi_init\<close> stays within its arrays and returns whenever the SDK calls succeed. It writes a new
  access point configuration exactly when the stored network name does not begin with \<^verbatim>\<open>esp8266-\<close> and the chip id;
  the one it writes carries that name, the configured password and WPA/WPA2, and on the next start, with the stored
  configuration read back, nothing is written any more.
\<close>

theorem wifi_init_converges:
  assumes "length ssid = 33" "sdk_set_opmode sdk" "sdk_softap_set sdk" "sdk_softap_get sdk = Some ap"
    and "length (ap_ssid ap) = 32" "length (ap_password ap) = 64"
    and "case sdk_station_get sdk of None \<Rightarrow> True | Some sta \<Rightarrow> length (sta_ssid sta) = 32"
  shows "\<exists>calls. wifi_init sdk ssid = Some (calls, Returned) \<and>
    (if take 16 (ap_ssid ap) = ssid_text (sdk_chip_id sdk) then \<forall>c. Softap_set_config c \<notin> set calls
     else \<exists>c. Softap_set_config c \<in> set calls \<and> take 17 (ap_ssid c) = ssid_text (sdk_chip_id sdk) @ [0] \<and>
        cstr (ap_password c) = WIFI_PASSWORD \<and> ap_authmode c = AUTH_WPA_WPA2_PSK \<and>
        (\<exists>calls2. wifi_init (sdk\<lparr>sdk_softap_get := Some c\<rparr>) ssid = Some (calls2, Returned) \<and>
           (\<forall>c2. Softap_set_config c2 \<notin> set calls2)))"
  by (rule wifi_init_result [OF assms])

text \<open>
  The event callback never writes outside its arrays, reports a network name of up to 32 bytes correctly
  whether or not it is terminated, and reaches the mail client on exactly one event, when the station has
  got its address: a mail with the chip id in its subject is handed to \<^verbatim>\<open>smtp_send\<close>.
\<close>

theorem wifi_events_safe:
  assumes "length ssid = 33" "length subj = 64"
    and "case evt of EVENT_STAMODE_CONNECTED src n c \<Rightarrow> length src = 32 | EVENT_STAMODE_DISCONNECTED src n c \<Rightarrow> length src = 32 | _ \<Rightarrow> True"
  shows "\<exists>ls s'. wifi_evt_cb sdk sv chip_id ssid subj evt s = Some (ls, s') \<and>
    (case evt of
       EVENT_STAMODE_CONNECTED src n c \<Rightarrow> ls = [Sta_connected (if n = 0 then cstr src else take (unat n) (cstr src)) c] \<and> s' = s
     | EVENT_STAMODE_DISCONNECTED src n c \<Rightarrow> ls = [Sta_disconnected (if n = 0 then cstr src else take (unat n) (cstr src)) c] \<and> s' = s
     | EVENT_STAMODE_GOT_IP ip m gw \<Rightarrow>
         s' = smtp_send sdk sv (cstr (sv_from sv)) (cstr (sv_to sv)) (ssid_text chip_id @ ascii '' online'') [] s
     | _ \<Rightarrow> s' = s)"
proof -
  have "0 \<notin> set (ssid_text chip_id @ ascii '' online'')" "length (ssid_text chip_id @ ascii '' online'') = 23"
    using ssid_text [of chip_id] by (auto simp: ascii_def)
  moreover have "subj \<noteq> []" using assms(2) by auto
  ultimately have "cstr (c_snprintf subj (ssid_text chip_id @ ascii '' online'')) = ssid_text chip_id @ ascii '' online''"
    using cstr_snprintf [of "ssid_text chip_id @ ascii '' online''" subj] assms(2) by simp
  then show ?thesis using assms(1,3) copy_ssid [OF assms(1)]
    by (cases evt) (force simp: wifi_evt_cb_def Let_def ssid_text_def)+
qed

text \<open>A device as it comes from the factory, and its two events.\<close>

definition wifi_sample :: wifi_sdk where
  "wifi_sample = \<lparr>sdk_opmode = SOFTAP_MODE, sdk_set_opmode = True,
     sdk_softap_get = Some \<lparr>ap_ssid = replicate 32 0, ap_password = replicate 64 0, ap_ssid_len = 0, ap_channel = 1, ap_authmode = AUTH_OPEN,
       ap_ssid_hidden = 0, ap_max_connection = 4, ap_beacon_interval = 100\<rparr>,
     sdk_softap_set = True, sdk_station_get = None, sdk_chip_id = 0x12ab34cd\<rparr>"

theorem wifi_init_converges_witness: "\<exists>calls. wifi_init wifi_sample (replicate 33 0) = Some (calls, Returned)"
  using wifi_init_converges [of "replicate 33 0" wifi_sample "the (sdk_softap_get wifi_sample)"] by (auto simp: wifi_sample_def)

definition mail_sdk_sample :: smtp_sdk where
  "mail_sdk_sample = \<lparr>sdk_dns = Dns_failed, sdk_connectcb = False, sdk_reconcb = False, sdk_connect = False, sdk_disconcb = False,
     sdk_recvcb = False, sdk_sentcb = False, sdk_send = False\<rparr>"

theorem wifi_events_safe_witness:
  "wifi_evt_cb mail_sdk_sample (server_of_bytes (replicate 450 0)) 5 (replicate 33 0) (replicate 64 0)
     (EVENT_STAMODE_CONNECTED (replicate 32 65) 0 6) smtp_state0 = Some ([Sta_connected (replicate 32 65) 6], smtp_state0)"
  using wifi_events_safe [of "replicate 33 0" "replicate 64 0" "EVENT_STAMODE_CONNECTED (replicate 32 65) 0 6" mail_sdk_sample
      "server_of_bytes (replicate 450 0)" 5 smtp_state0]
  by (auto simp: cstr_def)

end
