(* ===== verification/Http_Output.thy ===== *)
theory Http_Output
  imports Http_Pages
begin

text \<open>
  The output buffer: a list of \<^verbatim>\<open>HTTP_OUTBUF_APPEND\<close> statements stores the concatenation of its texts when
  that fits, and a page that begins with an empty buffer is sent whole.
\<close>

lemma block_append: "block (ss @ ts) w = (case block ss w of Go w' \<Rightarrow> block ts w' | Return r w' \<Rightarrow> Return r w' | Fault \<Rightarrow> Fault)"
  by (induction ss arbitrary: w) (auto split: flow.split)

lemma append_stores:
  assumes "w_outbuflen w + length s < length (w_outbuf w)"
  shows "HTTP_OUTBUF_APPEND s w = Go (w\<lparr>w_outbuf := patch (w_outbuf w) (w_outbuflen w) (s @ [0]), w_outbuflen := w_outbuflen w + length s\<rparr>)"
  using assms by (simp add: HTTP_OUTBUF_APPEND_def)

lemma block_appends:
  assumes "w_outbuflen w + length (concat ss) < length (w_outbuf w)"
  shows "\<exists>b. block (map HTTP_OUTBUF_APPEND ss @ ts) w = block ts (w\<lparr>w_outbuf := b, w_outbuflen := w_outbuflen w + length (concat ss)\<rparr>) \<and>
    length b = length (w_outbuf w) \<and> take (w_outbuflen w + length (concat ss)) b = take (w_outbuflen w) (w_outbuf w) @ concat ss"
  using assms
proof (induction ss arbitrary: w)
  case Nil
  show ?case by (intro exI [of _ "w_outbuf w"]) simp
next
  case (Cons s ss)
  define w1 where "w1 = w\<lparr>w_outbuf := patch (w_outbuf w) (w_outbuflen w) (s @ [0]), w_outbuflen := w_outbuflen w + length s\<rparr>"
  have a: "HTTP_OUTBUF_APPEND s w = Go w1" using append_stores [of w s] Cons.prems by (simp add: w1_def)
  have l: "length (w_outbuf w1) = length (w_outbuf w)" "w_outbuflen w1 = w_outbuflen w + length s"
    "take (w_outbuflen w1) (w_outbuf w1) = take (w_outbuflen w) (w_outbuf w) @ s"
    using Cons.prems by (simp_all add: w1_def patch_def)
  obtain b where b: "block (map HTTP_OUTBUF_APPEND ss @ ts) w1 = block ts (w1\<lparr>w_outbuf := b, w_outbuflen := w_outbuflen w1 + length (concat ss)\<rparr>)"
    "length b = length (w_outbuf w1)" "take (w_outbuflen w1 + length (concat ss)) b = take (w_outbuflen w1) (w_outbuf w1) @ concat ss"
    using Cons.IH [of w1] Cons.prems l by auto
  show ?case using a b l by (intro exI [of _ b]) (simp add: w1_def add.assoc)
qed

lemma block_page:
  assumes "w_outbuflen w = 0" "length (concat ss) < length (w_outbuf w)"
  shows "\<exists>b. block (map HTTP_OUTBUF_APPEND ss @ SEND # ts) w = block ts (w\<lparr>w_outbuf := b, w_outbuflen := length (concat ss),
      w_calls := w_calls w @ [Espconn_send (hc_conn (w_client w)) (concat ss)]\<rparr>) \<and> length b = length (w_outbuf w)"
proof -
  obtain b where "block (map HTTP_OUTBUF_APPEND ss @ SEND # ts) w = block (SEND # ts) (w\<lparr>w_outbuf := b, w_outbuflen := length (concat ss)\<rparr>)"
    "length b = length (w_outbuf w)" "take (length (concat ss)) b = concat ss"
    using block_appends [of w ss "SEND # ts"] assms by auto
  then show ?thesis by (intro exI [of _ b]) (simp add: SEND_def call_def)
qed

text \<open>The texts of the fixed pages.\<close>

definition text_202 :: "u8 list list" where
  "text_202 = [rn ''HTTP/1.1 202 Accepted'', rn ''Connection: close'', rn ''Content-type: text/html'', rn ''Content-length: 48'', rn '''',
     nl ''<html><body><h1>202 Accepted</h1></body></html>'']"

definition text_400 :: "u8 list list" where
  "text_400 = [rn ''HTTP/1.1 400 Bad Request'', rn ''Connection: close'', rn ''Content-type: text/html'', rn ''Content-length: 51'', rn '''',
     nl ''<html><body><h1>400 Bad Request</h1></body></html>'']"

lemma fixed_pages: "page_202 = map HTTP_OUTBUF_APPEND text_202 @ [SEND]" "page_400 = map HTTP_OUTBUF_APPEND text_400 @ [SEND]"
  by (simp_all add: page_202_def text_202_def page_400_def text_400_def)

lemma text_lengths: "length (concat text_202) = 137" "length (concat text_400) = 143"
  by (simp_all add: text_202_def text_400_def rn_def nl_def ascii_def)

text \<open>The static data after power-on, with a given key store and flash.\<close>

definition world_reset :: "store \<Rightarrow> flash \<Rightarrow> http_world" where
  "world_reset st f = \<lparr>w_client = http_client0, w_id = 0, w_outbuf = replicate 4096 0, w_outbuflen = 0, w_log = log_init,
     w_levels = log_levels0, w_uptime = \<lparr>uptime_high = 0, uptime_last = 0\<rparr>, w_smtp = server_of_bytes (replicate 450 0),
     w_ota = \<lparr>ota_client = None, ota_sha256 = \<lparr>sha_buf = replicate 64 0, sha_buflen = 0, sha_totallen = 0, sha_h = replicate 8 0\<rparr>,
       ota_hash1 = replicate 32 0, ota_hash2 = replicate 32 0, ota_newaddr_beg = 0, ota_newaddr_cur = 0, ota_appsize = 0,
       ota_secbuf = replicate 4096 0, ota_secused = 0, ota_hash3 = replicate 32 0\<rparr>,
     w_store = st, w_flash = f, w_calls = []\<rparr>"

end
