(* ===== verification/Http_Handlers.thy ===== *)
theory Http_Handlers
  imports Http_Server Http_Output
begin

text \<open>
  The contract of the URL handlers: a handler that starts with an empty output buffer keeps the identity and the
  array sizes of its client, and every message it sends is a complete HTTP response whose \<^verbatim>\<open>Content-length\<close> is
  the length of its body. The contract is proved statement by statement with the rules below; the locale
  \<open>url_table\<close> states it for a table of handlers.
\<close>

section \<open>Messages\<close>

definition http_lines :: "u8 list list \<Rightarrow> u8 list" where
  "http_lines ls = concat (map (\<lambda>l. l @ [13, 10]) ls)"

definition header_text :: "u8 list \<Rightarrow> bool" where
  "header_text l \<longleftrightarrow> l \<noteq> [] \<and> 13 \<notin> set l \<and> 10 \<notin> set l"

definition framed :: "u8 list \<Rightarrow> bool" where
  "framed bs \<longleftrightarrow> (\<exists>ls n body. bs = http_lines (ls @ [ascii ''Content-length: '' @ n, []]) @ body \<and>
     ls \<noteq> [] \<and> list_all header_text ls \<and> take 9 (hd ls) = ascii ''HTTP/1.1 '' \<and>
     set n \<subseteq> {32} \<union> {48..57} \<and> c_atoi n = int (length body))"

text \<open>What a handler for the connection \<open>conn\<close> may ask of the SDK: everything, but sends only of messages to \<open>conn\<close>.\<close>

definition framed_call :: "nat \<Rightarrow> http_call \<Rightarrow> bool" where
  "framed_call conn c = (case c of Espconn_send d bs \<Rightarrow> d = conn \<and> framed bs | _ \<Rightarrow> True)"

lemma framed_fixed:
  assumes "list_all (header_text \<circ> ascii) ls" "ls \<noteq> []" "take 9 (hd ls) = ''HTTP/1.1 ''" "set (ascii n) \<subseteq> {48..57}" "c_atoi (ascii n) = int (length body)"
  shows "framed (concat (map rn ls @ [rn (''Content-length: '' @ n), rn '''', body]))"
proof -
  have "concat (map rn ls @ [rn (''Content-length: '' @ n), rn '''', body]) =
      http_lines (map ascii ls @ [ascii ''Content-length: '' @ ascii n, []]) @ body"
    by (simp add: http_lines_def rn_def [abs_def] ascii_def comp_def)
  moreover have "take 9 (hd (map ascii ls)) = ascii ''HTTP/1.1 ''"
    using assms(2,3) by (cases ls) (simp_all add: ascii_def take_map del: take_Cons_numeral)
  moreover have "list_all header_text (map ascii ls)" using assms(1) by (simp add: list.pred_map)
  ultimately show ?thesis unfolding framed_def using assms(2,4,5)
    by (intro exI [of _ "map ascii ls"] exI [of _ "ascii n"] exI [of _ body]) auto
qed

text \<open>A number written by \<^verbatim>\<open>%u\<close> is read back.\<close>

lemma fmt_u_value: "foldl (\<lambda>a c. 10 * a + (int (unat c) - 48)) 0 (fmt_u n) = int n"
proof (induction n rule: fmt_u.induct)
  case (1 n)
  have d: "int (unat ((48 :: u8) + of_nat k)) - 48 = int k" if "k < 10" for k
  proof -
    have "k \<in> {0, 1, 2, 3, 4, 5, 6, 7, 8, 9}" using that by auto
    then show ?thesis by auto
  qed
  show ?case
  proof (cases "n < 10")
    case True
    then have "fmt_u n = [48 + of_nat n]" by (subst fmt_u.simps) simp
    then show ?thesis using d [OF True] by simp
  next
    case False
    have "10 * int (n div 10) + int (n mod 10) = int n" by (metis mult_div_mod_eq of_nat_add of_nat_mult of_nat_numeral)
    moreover have "fmt_u n = fmt_u (n div 10) @ [48 + of_nat (n mod 10)]" using False by (subst fmt_u.simps) simp
    moreover have "n mod 10 < 10" by simp
    ultimately show ?thesis using 1 [OF False] d [of "n mod 10"] by simp
  qed
qed

lemma c_atoi_fmt_u: "n < 2 ^ 31 \<Longrightarrow> c_atoi (replicate k 32 @ fmt_u n) = int n"
proof -
  assume n: "n < 2 ^ 31"
  have s: "\<forall>c \<in> set (fmt_u n). 48 \<le> c \<and> c \<le> 57" using fmt_u_digits [of n] by auto
  obtain c cs where c: "fmt_u n = c # cs" using fmt_u_nonempty [of n] by (cases "fmt_u n") auto
  have h: "48 \<le> c" "c \<le> 57" using s c by simp_all
  have "dropWhile (\<lambda>c. c = 32 \<or> (9 \<le> c \<and> c \<le> 13)) (replicate k (32 :: u8) @ ys) =
      dropWhile (\<lambda>c. c = 32 \<or> (9 \<le> c \<and> c \<le> 13)) ys" for ys by (induction k) simp_all
  moreover have "\<not> (c = 32 \<or> (9 \<le> c \<and> c \<le> 13))" "c \<noteq> 45" "c \<noteq> 43"
    using h by (auto simp: word_le_nat_alt)
  ultimately have d: "dropWhile (\<lambda>c. c = 32 \<or> (9 \<le> c \<and> c \<le> 13)) (replicate k 32 @ fmt_u n) = fmt_u n"
      "hd (fmt_u n) \<noteq> 45" "hd (fmt_u n) \<noteq> 43"
    using c by (simp_all only: dropWhile.simps list.sel) simp_all
  have "takeWhile (\<lambda>c. 48 \<le> c \<and> c \<le> 57) (fmt_u n) = fmt_u n" using s by (simp add: takeWhile_eq_all_conv)
  then show ?thesis using n d(2,3) unfolding c_atoi_def Let_def d(1) by (simp only: fmt_u_value if_False simp_thms) simp
qed

section \<open>Rules\<close>

definition client_ok :: "http_client \<Rightarrow> bool" where
  "client_ok c \<longleftrightarrow> length (hc_url c) = 256 \<and> length (hc_host c) = 64 \<and> length (hc_buf c) = 2048 \<and> unat (hc_bufused c) \<le> 2048"

text \<open>What a handler may change, and what it may send.\<close>

definition kept :: "http_world \<Rightarrow> http_world \<Rightarrow> bool" where
  "kept w0 w \<longleftrightarrow> hc_inuse (w_client w) = hc_inuse (w_client w0) \<and> hc_conn (w_client w) = hc_conn (w_client w0) \<and> w_id w = w_id w0 \<and>
     client_ok (w_client w) \<and> length (w_outbuf w) = 4096 \<and> (\<exists>cs. w_calls w = w_calls w0 @ cs \<and> list_all (framed_call (hc_conn (w_client w0))) cs)"

text \<open>The output buffer holds the text \<open>t\<close>.\<close>

definition said :: "http_world \<Rightarrow> u8 list \<Rightarrow> http_world \<Rightarrow> bool" where
  "said w0 t w \<longleftrightarrow> kept w0 w \<and> w_outbuflen w = length t \<and> length t < 4096 \<and> take (length t) (w_outbuf w) = t"

text \<open>The result of a statement: it returns within the contract, or goes on with \<open>P\<close>.\<close>

definition ends :: "http_world \<Rightarrow> (http_world \<Rightarrow> bool) \<Rightarrow> http_world flow \<Rightarrow> bool" where
  "ends w0 P f = (case f of Fault \<Rightarrow> True | Return r w \<Rightarrow> kept w0 w | Go w \<Rightarrow> P w)"

lemma ends_simps [simp]: "ends w0 P Fault" "ends w0 P (Return r w) \<longleftrightarrow> kept w0 w" "ends w0 P (Go w) \<longleftrightarrow> P w"
  by (simp_all add: ends_def)

lemma ends_block:
  assumes "ends w0 P (a w)" "\<And>w'. P w' \<Longrightarrow> ends w0 Q (block ss w')"
  shows "ends w0 Q (block (a # ss) w)"
  using assms by (cases "a w") simp_all

lemma ends_append:
  assumes "ends w0 P (block ss w)" "\<And>w'. P w' \<Longrightarrow> ends w0 Q (block ts w')"
  shows "ends w0 Q (block (ss @ ts) w)"
  using assms by (cases "block ss w") (simp_all add: block_append)

lemma said_kept: "said w0 t w \<Longrightarrow> kept w0 w"
  by (simp add: said_def)

lemma ends_RETURN [simp]: "ends w0 P (block (RETURN r # ss) w) \<longleftrightarrow> kept w0 w"
  by (simp add: RETURN_def)

lemma kept_updates [simp]:
  "kept w0 (w\<lparr>w_log := l\<rparr>) = kept w0 w" "kept w0 (w\<lparr>w_levels := v\<rparr>) = kept w0 w" "kept w0 (w\<lparr>w_smtp := m\<rparr>) = kept w0 w"
  by (simp_all add: kept_def)

lemma said_updates [simp]:
  "said w0 t (w\<lparr>w_log := l\<rparr>) = said w0 t w" "said w0 t (w\<lparr>w_levels := v\<rparr>) = said w0 t w" "said w0 t (w\<lparr>w_smtp := m\<rparr>) = said w0 t w"
  by (simp_all add: said_def)

lemma kept_call: "kept w0 w \<Longrightarrow> framed_call (hc_conn (w_client w0)) c \<Longrightarrow> kept w0 (w\<lparr>w_calls := w_calls w @ [c]\<rparr>)"
  by (auto simp: kept_def)

lemma said_call: "said w0 t w \<Longrightarrow> framed_call (hc_conn (w_client w0)) c \<Longrightarrow> ends w0 (said w0 t) (call c w)"
  by (simp add: said_def call_def kept_call)

lemma said_SEND: "said w0 t w \<Longrightarrow> framed t \<Longrightarrow> ends w0 (said w0 t) (SEND w)"
  unfolding SEND_def by (rule said_call) (simp_all add: said_def kept_def framed_call_def)

lemma said_append:
  assumes "said w0 t w"
  shows "ends w0 (said w0 (t @ s)) (HTTP_OUTBUF_APPEND s w)" "ends w0 (said w0 (t @ s)) (HTTP_OUTBUF_PRINTF s w)"
proof -
  have "said w0 (t @ s) (w\<lparr>w_outbuf := patch (w_outbuf w) (w_outbuflen w) (s @ [0]), w_outbuflen := w_outbuflen w + length s\<rparr>)"
    if "length s < length (w_outbuf w) - w_outbuflen w"
    using assms that by (auto simp: said_def kept_def patch_def)
  then show "ends w0 (said w0 (t @ s)) (HTTP_OUTBUF_APPEND s w)" "ends w0 (said w0 (t @ s)) (HTTP_OUTBUF_PRINTF s w)"
    using said_kept [OF assms] by (simp_all add: HTTP_OUTBUF_APPEND_def HTTP_OUTBUF_PRINTF_def not_le)
qed

text \<open>Statements that only add text.\<close>

definition adds :: "http_stm \<Rightarrow> bool" where
  "adds a \<longleftrightarrow> (\<forall>w0 t w. said w0 t w \<longrightarrow> ends w0 (\<lambda>w'. \<exists>u. said w0 (t @ u) w') (a w))"

lemma ends_mono: "ends w0 P f \<Longrightarrow> (\<And>w. P w \<Longrightarrow> Q w) \<Longrightarrow> ends w0 Q f"
  by (cases f) simp_all

lemma adds_text [simp]: "adds (HTTP_OUTBUF_APPEND s)" "adds (HTTP_OUTBUF_PRINTF s)"
  unfolding adds_def by (auto intro: ends_mono [OF said_append(1)] ends_mono [OF said_append(2)])

lemma adds_block: "list_all adds ss \<Longrightarrow> adds (block ss)"
proof (induction ss)
  case Nil
  then show ?case by (auto simp: adds_def intro: exI [of _ "[]"])
next
  case (Cons a ss)
  then have a: "adds a" "adds (block ss)" by simp_all
  show ?case unfolding adds_def
  proof (intro allI impI)
    fix w0 t w assume "said w0 t w"
    show "ends w0 (\<lambda>w'. \<exists>u. said w0 (t @ u) w') (block (a # ss) w)"
    proof (rule ends_block)
      show "ends w0 (\<lambda>w'. \<exists>u. said w0 (t @ u) w') (a w)" using a(1) \<open>said w0 t w\<close> by (simp add: adds_def)
      fix w' assume "\<exists>u. said w0 (t @ u) w'"
      then obtain u where "said w0 (t @ u) w'" ..
      then have "ends w0 (\<lambda>w'. \<exists>v. said w0 ((t @ u) @ v) w') (block ss w')" using a(2) unfolding adds_def by blast
      then show "ends w0 (\<lambda>w'. \<exists>u. said w0 (t @ u) w') (block ss w')" by (rule ends_mono) auto
    qed
  qed
qed

lemma adds_IF [simp]: "list_all adds a \<Longrightarrow> list_all adds b \<Longrightarrow> adds (IF c a b)"
  using adds_block [of a] adds_block [of b] by (simp add: adds_def IF_def)

text \<open>A page of fixed texts.\<close>

lemma said_texts: "said w0 t w \<Longrightarrow> ends w0 (said w0 (t @ concat ss)) (block (map HTTP_OUTBUF_APPEND ss) w)"
proof (induction ss arbitrary: t w)
  case (Cons s ss)
  show ?case unfolding list.map 
    by (rule ends_block [where P = "said w0 (t @ s)"]) (use said_append(1) [OF Cons.prems] Cons.IH in fastforce)+
qed simp

lemma said_page:
  assumes "said w0 [] w" "framed (concat ss)" "\<And>w'. said w0 (concat ss) w' \<Longrightarrow> ends w0 Q (block ts w')"
  shows "ends w0 Q (block (map HTTP_OUTBUF_APPEND ss @ SEND # ts) w)"
proof (rule ends_append)
  show "ends w0 (said w0 (concat ss)) (block (map HTTP_OUTBUF_APPEND ss) w)" using said_texts [OF assms(1)] by simp
  show "ends w0 Q (block (SEND # ts) w')" if "said w0 (concat ss) w'" for w'
    by (rule ends_block [where P = "said w0 (concat ss)"]) (use said_SEND [OF that assms(2)] assms(3) in auto)
qed

section \<open>Pages of variable length\<close>

definition variable_head :: "u8 list \<Rightarrow> u8 list" where
  "variable_head n = http_lines [ascii ''HTTP/1.1 200 OK'', ascii ''Connection: close'', ascii ''Content-type: text/html'', ascii ''Content-length: '' @ n, []]"

lemma variable_head_split:
  obtains pre where "\<And>n. variable_head n = pre @ n @ [13, 10, 13, 10]" "length pre = 77"
proof -
  let ?pre = "http_lines [ascii ''HTTP/1.1 200 OK'', ascii ''Connection: close'', ascii ''Content-type: text/html''] @ ascii ''Content-length: ''"
  have "variable_head n = ?pre @ n @ [13, 10, 13, 10]" for n by (simp add: variable_head_def http_lines_def)
  moreover have "length ?pre = 77" by (simp add: http_lines_def ascii_def)
  ultimately show thesis by (rule that)
qed

lemma length_variable_head: "length n = 4 \<Longrightarrow> length (variable_head n) = 85"
  by (rule variable_head_split) simp

lemma framed_variable:
  assumes "length body < 2 ^ 31"
  shows "framed (variable_head (fmt_pu 4 (length body)) @ body)"
  unfolding framed_def variable_head_def
proof (intro exI conjI)
  let ?ls = "[ascii ''HTTP/1.1 200 OK'', ascii ''Connection: close'', ascii ''Content-type: text/html'']"
  show "http_lines [ascii ''HTTP/1.1 200 OK'', ascii ''Connection: close'', ascii ''Content-type: text/html'', ascii ''Content-length: '' @ fmt_pu 4 (length body), []] @ body =
    http_lines (?ls @ [ascii ''Content-length: '' @ fmt_pu 4 (length body), []]) @ body" by simp
  show "list_all header_text ?ls" by (simp add: header_text_def ascii_def)
  show "take 9 (hd ?ls) = ascii ''HTTP/1.1 ''" by (simp add: ascii_def)
  show "set (fmt_pu 4 (length body)) \<subseteq> {32} \<union> {48..57}" using fmt_u_digits [of "length body"] by (auto simp: fmt_pu_def)
  show "c_atoi (fmt_pu 4 (length body)) = int (length body)" using c_atoi_fmt_u [OF assms] by (simp add: fmt_pu_def)
qed simp

lemma said_PATCH_LENGTH:
  assumes "said w0 (variable_head (ascii ''xxxx'') @ body) w"
  shows "ends w0 (said w0 (variable_head (fmt_pu 4 (length body)) @ body)) (PATCH_LENGTH 85 w)"
proof -
  define b where "b = w_outbuf w"
  define num where "num = fmt_pu 4 (length body)"
  have w: "kept w0 w" "w_outbuflen w = 85 + length body" "length b = 4096" "85 + length body < 4096"
    "take (85 + length body) b = variable_head (ascii ''xxxx'') @ body"
    using assms length_variable_head [of "ascii ''xxxx''"] by (simp_all add: said_def kept_def b_def ascii_def)
  have num: "length num = 4" unfolding num_def by (rule length_fmt_pu) (use w(4) in simp_all)
  have sn: "c_snprintf (take 5 (drop 77 b)) num = num @ [0]" using num w(3) by (simp add: c_snprintf_def)
  have up: "(patch b 77 (num @ [0]))[81 := 13] = patch b 77 (num @ [13])" using num w(3) by (simp add: patch_def list_update_append)
  obtain pre where pre: "\<And>n. variable_head n = pre @ n @ [13, 10, 13, 10]" "length pre = 77" using variable_head_split by blast
  have "take (85 + length body) (patch b 77 (num @ [13])) = take 77 (take (85 + length body) b) @ num @ [13] @ drop 82 (take (85 + length body) b)"
    using num w(3,4) by (simp add: patch_def drop_take take_Cons')
  also have "\<dots> = variable_head num @ body" unfolding w(5) pre(1) using pre(2) by (simp add: ascii_def)
  finally have "take (85 + length body) (patch b 77 (num @ [13])) = variable_head num @ body" .
  moreover have "length (variable_head num) = 85" using num by (rule length_variable_head)
  moreover have "PATCH_LENGTH 85 w = Go (w\<lparr>w_outbuf := patch b 77 (num @ [13])\<rparr>)"
    using w(2) sn up by (simp add: PATCH_LENGTH_def Let_def b_def num_def)
  moreover have "kept w0 (w\<lparr>w_outbuf := patch b 77 (num @ [13])\<rparr>)" using w(1,3) num by (simp add: kept_def)
  ultimately show ?thesis using w(2,4) by (simp add: said_def num_def)
qed

lemma said_variable_page:
  assumes "said w0 [] w" "list_all adds body"
  shows "ends w0 Q (block (variable_page body) w)"
proof -
  let ?ss = "[rn ''HTTP/1.1 200 OK'', rn ''Connection: close'', rn ''Content-type: text/html'', rn ''Content-length: xxxx'', rn '''']"
  have head: "concat ?ss = variable_head (ascii ''xxxx'')" by (simp add: variable_head_def http_lines_def rn_def ascii_def)
  have l: "length (variable_head (ascii ''xxxx'')) = 85" by (rule length_variable_head) (simp add: ascii_def)
  have "variable_page body = map HTTP_OUTBUF_APPEND ?ss @ [\<lambda>w. let beg = w_outbuflen w in block (body @ [PATCH_LENGTH beg, SEND, RETURN 1]) w]"
    by (simp add: variable_page_def)
  moreover have "ends w0 Q (block (map HTTP_OUTBUF_APPEND ?ss @ [\<lambda>w. let beg = w_outbuflen w in block (body @ [PATCH_LENGTH beg, SEND, RETURN 1]) w]) w)"
  proof (rule ends_append)
    show "ends w0 (said w0 (variable_head (ascii ''xxxx''))) (block (map HTTP_OUTBUF_APPEND ?ss) w)"
      using said_texts [OF assms(1), of ?ss] unfolding head by simp
    fix w1 assume s: "said w0 (variable_head (ascii ''xxxx'')) w1"
    have "ends w0 Q (block (body @ [PATCH_LENGTH 85, SEND, RETURN 1]) w1)"
    proof (rule ends_append)
      show "ends w0 (\<lambda>w2. \<exists>u. said w0 (variable_head (ascii ''xxxx'') @ u) w2) (block body w1)"
        using adds_block [OF assms(2)] s unfolding adds_def by blast
      fix w2 assume "\<exists>u. said w0 (variable_head (ascii ''xxxx'') @ u) w2"
      then obtain u where u: "said w0 (variable_head (ascii ''xxxx'') @ u) w2" ..
      let ?t = "variable_head (fmt_pu 4 (length u)) @ u"
      have f: "framed ?t" by (rule framed_variable) (use u in \<open>simp add: said_def\<close>)
      show "ends w0 Q (block [PATCH_LENGTH 85, SEND, RETURN 1] w2)"
      proof (rule ends_block [where P = "said w0 ?t"])
        show "ends w0 (said w0 ?t) (PATCH_LENGTH 85 w2)" by (rule said_PATCH_LENGTH [OF u])
        fix w3 assume "said w0 ?t w3"
        from said_SEND [OF this f] show "ends w0 Q (block [SEND, RETURN 1] w3)"
          by (rule ends_block [where P = "said w0 ?t"]) (auto simp: RETURN_def dest: said_kept)
      qed
    qed
    then show "ends w0 Q (block [\<lambda>w. let beg = w_outbuflen w in block (body @ [PATCH_LENGTH beg, SEND, RETURN 1]) w] w1)"
      using s l by (cases "block (body @ [PATCH_LENGTH 85, SEND, RETURN 1]) w1") (simp_all add: said_def Let_def)
  qed
  ultimately show ?thesis by (simp only:)
qed

section \<open>The handlers\<close>

lemma said_IGNORE_POSTDATA:
  assumes "said w0 [] w"
  shows "ends w0 (said w0 []) (HTTP_IGNORE_POSTDATA w)"
proof -
  define c where "c = w_client w"
  define len where "len = (min (ucast (hc_bufused c)) (hc_postlen c - hc_postused c) :: u32)"
  define c1 where "c1 = c\<lparr>hc_postused := hc_postused c + len,
    hc_buf := patch (hc_buf c) 0 (take (unat (hc_bufused c) - unat len) (drop (unat len) (hc_buf c))), hc_bufused := hc_bufused c - ucast len\<rparr>"
  have ok: "client_ok c" "kept w0 w" using assms by (simp_all add: said_def kept_def c_def)
  have "unat len \<le> unat (hc_bufused c)"
  proof -
    have "len \<le> ucast (hc_bufused c)" by (simp add: len_def)
    moreover have "unat (ucast (hc_bufused c) :: u32) = unat (hc_bufused c)" 
      using unsigned_less [of "hc_bufused c", where 'a = nat] by (simp add: unsigned_ucast_eq take_bit_nat_eq_self)
    ultimately show ?thesis unfolding word_le_nat_alt by simp
  qed
  moreover have "unat (ucast len :: u16) = unat len" using calculation unsigned_less [of "hc_bufused c", where 'a = nat]
    by (simp add: unsigned_ucast_eq take_bit_nat_eq_self)
  ultimately have "unat (hc_bufused c1) \<le> 2048" using ok(1) by (simp add: c1_def client_ok_def unat_sub_if') linarith
  then have "client_ok c1" using ok(1) by (simp add: client_ok_def c1_def)
  then have "said w0 [] (w\<lparr>w_client := c1\<lparr>hc_state := HTTP_STATE_RESPONSE\<rparr>\<rparr>)" "kept w0 (w\<lparr>w_client := c1\<rparr>)"
    using assms by (simp_all add: said_def kept_def client_ok_def c1_def c_def)
  then show ?thesis using assms unfolding HTTP_IGNORE_POSTDATA_def Let_def by (simp flip: c_def len_def c1_def)
qed

definition handled :: "http_stm \<Rightarrow> bool" where
  "handled h \<longleftrightarrow> (\<forall>w. said w [] w \<longrightarrow> ends w (\<lambda>_. False) (h w))"

lemma handledI: "(\<And>w. said w [] w \<Longrightarrow> ends w (\<lambda>_. False) (h w)) \<Longrightarrow> handled h"
  by (simp add: handled_def)

text \<open>A handler that first ignores post data.\<close>

lemma ends_postdata:
  assumes "said w0 [] w" "\<And>w'. said w0 [] w' \<Longrightarrow> ends w0 Q (block ss w')"
  shows "ends w0 Q (block (HTTP_IGNORE_POSTDATA # ss) w)"
  by (rule ends_block [where P = "said w0 []"]) (use said_IGNORE_POSTDATA assms in auto)

lemma handled_postdata: "(\<And>w0 w. said w0 [] w \<Longrightarrow> ends w0 (\<lambda>_. False) (block ss w)) \<Longrightarrow> handled (block (HTTP_IGNORE_POSTDATA # ss))"
  by (rule handledI, rule ends_postdata) auto

text \<open>The fixed pages.\<close>

lemma framed_html:
  assumes "list_all (header_text \<circ> ascii) [''HTTP/1.1 '' @ st]" "set (ascii n) \<subseteq> {48..57}" "c_atoi (ascii n) = int (length body)"
  shows "framed (concat [rn (''HTTP/1.1 '' @ st), rn ''Connection: close'', rn ''Content-type: text/html'', rn (''Content-length: '' @ n), rn '''', body])"
  using framed_fixed [of "[''HTTP/1.1 '' @ st, ''Connection: close'', ''Content-type: text/html'']" n body] assms
  by (simp add: header_text_def ascii_def)

lemma pages_framed:
  "framed (concat [rn ''HTTP/1.1 404 Not Found'', rn ''Connection: close'', rn ''Content-type: text/html'', rn ''Content-length: 49'', rn '''',
     nl ''<html><body><h1>404 Not Found</h1></body></html>''])"
  "framed (concat [rn ''HTTP/1.1 200 OK'', rn ''Connection: close'', rn ''Content-type: text/html'', rn ''Content-length: 27'', rn '''', nl ''<html><body></body></html>''])"
  "framed (concat [rn ''HTTP/1.1 200 OK'', rn ''Connection: close'', rn ''Content-type: text/html'', rn ''Content-length: 42'', rn '''',
     nl ''<html><body><h1>200 OK</h1></body></html>''])"
  "framed (concat text_202)" "framed (concat text_400)"
  unfolding text_202_def text_400_def
  using framed_html [of "''404 Not Found''" "''49''" "nl ''<html><body><h1>404 Not Found</h1></body></html>''"]
    framed_html [of "''200 OK''" "''27''" "nl ''<html><body></body></html>''"]
    framed_html [of "''200 OK''" "''42''" "nl ''<html><body><h1>200 OK</h1></body></html>''"]
    framed_html [of "''202 Accepted''" "''48''" "nl ''<html><body><h1>202 Accepted</h1></body></html>''"]
    framed_html [of "''400 Bad Request''" "''51''" "nl ''<html><body><h1>400 Bad Request</h1></body></html>''"]
  by (simp_all add: header_text_def ascii_def c_atoi_def Let_def nl_def)

lemma said_fixed_page:
  assumes "said w0 [] w" "\<And>t w'. said w0 t w' \<Longrightarrow> ends w0 Q (block ts w')"
  shows "ends w0 Q (block (page_200 @ ts) w)" "ends w0 Q (block (page_202 @ ts) w)" "ends w0 Q (block (page_400 @ ts) w)"
proof -
  show "ends w0 Q (block (page_200 @ ts) w)"
    using said_page [OF assms(1) pages_framed(3) assms(2)] by (simp add: page_200_def)
  show "ends w0 Q (block (page_202 @ ts) w)" "ends w0 Q (block (page_400 @ ts) w)"
    using said_page [OF assms(1) pages_framed(4) assms(2)] said_page [OF assms(1) pages_framed(5) assms(2)] unfolding fixed_pages by simp_all
qed

lemma ends_return: "said w0 t w \<Longrightarrow> ends w0 Q (block [RETURN r] w)"
  by (simp add: RETURN_def said_kept)

lemma ends_call_return: "said w0 t w \<Longrightarrow> framed_call (hc_conn (w_client w0)) c \<Longrightarrow> ends w0 Q (block [call c, RETURN r] w)"
  by (rule ends_block [where P = "said w0 t"]) (simp_all add: said_call said_kept del: block.simps)

lemma handled_404: "handled http_url_404"
  unfolding http_url_404_def
proof (rule handled_postdata)
  fix w0 w assume "said w0 [] w"
  from said_page [OF this pages_framed(1), of "\<lambda>_. False" "[RETURN 1]"] ends_return
  show "ends w0 (\<lambda>_. False) (block page_404 w)" unfolding page_404_def list.map append.simps by blast
qed

lemma handled_blank: "handled http_url_blank"
  unfolding http_url_blank_def
proof (rule handled_postdata)
  fix w0 w assume "said w0 [] w"
  from said_page [OF this pages_framed(2), of "\<lambda>_. False" "[RETURN 1]"] ends_return
  show "ends w0 (\<lambda>_. False) (block [HTTP_OUTBUF_APPEND (rn ''HTTP/1.1 200 OK''), HTTP_OUTBUF_APPEND (rn ''Connection: close''),
      HTTP_OUTBUF_APPEND (rn ''Content-type: text/html''), HTTP_OUTBUF_APPEND (rn ''Content-length: 27''), HTTP_OUTBUF_APPEND (rn ''''),
      HTTP_OUTBUF_APPEND (nl ''<html><body></body></html>''), SEND, RETURN 1] w)"
    unfolding list.map append.simps by blast
qed

lemma handled_reset: "handled http_url_reset"
  unfolding http_url_reset_def append.simps
  by (rule handled_postdata, rule said_fixed_page(2)) (simp_all add: ends_call_return framed_call_def del: block.simps)

lemma handled_uptime: "handled (http_url_uptime env)"
  unfolding http_url_uptime_def Let_def
  by (rule handledI, rule ends_postdata, assumption, rule said_variable_page) simp_all

lemma handled_version: "handled (http_url_version env)"
  unfolding http_url_version_def
  by (rule handled_postdata, rule said_variable_page) simp_all

lemma handled_levels: "handled http_url_logs_lower" "handled http_url_logs_raise"
proof -
  have "ends w0 Q (block [\<lambda>w. case set_level f w of Some l \<Rightarrow> block (page_200 @ [RETURN 1]) (w\<lparr>w_levels := l\<rparr>)
      | None \<Rightarrow> block (page_400 @ [RETURN 1]) w] w)" if s: "said w0 [] w" for w0 w f Q
  proof (rule ends_block [where P = "\<lambda>_. False"])
    show "ends w0 (\<lambda>_. False) (case set_level f w of Some l \<Rightarrow> block (page_200 @ [RETURN 1]) (w\<lparr>w_levels := l\<rparr>) | None \<Rightarrow> block (page_400 @ [RETURN 1]) w)"
      using said_fixed_page(3) [OF s, of "\<lambda>_. False" "[RETURN 1]"] said_fixed_page(1) [of w0 "w\<lparr>w_levels := the (set_level f w)\<rparr>" "\<lambda>_. False" "[RETURN 1]"] s ends_return
      by (auto split: option.split)
  qed simp
  then show "handled http_url_logs_lower" "handled http_url_logs_raise"
    unfolding http_url_logs_lower_def http_url_logs_raise_def by (auto intro: handled_postdata)
qed

lemma handled_ota_bin:
  assumes "unat (env_userbin_check env) < 16"
  shows "handled (http_url_ota_bin env)"
proof -
  let ?x = "fmt_x (env_userbin_check env)"
  have x: "length ?x = 1" using assms by (simp add: fmt_x_def)
  let ?a = "[rn ''HTTP/1.1 200 OK'', rn ''Connection: close'', rn ''Content-type: text/plain'', rn ''Content-length: 2'', rn '''']"
  let ?b = "[rn ''HTTP/1.1 200 OK'', rn ''Connection: close'', rn ''Content-type: text/html'', rn ''Content-length: 37'', rn '''']"
  let ?q = "ascii ''<html><body><h1>'' @ ?x @ nl ''</h1></body></html>''"
  have fa: "framed (concat (?a @ [?x @ [10]]))"
    using framed_fixed [of "[''HTTP/1.1 200 OK'', ''Connection: close'', ''Content-type: text/plain'']" "''2''" "?x @ [10]"] x
    by (simp add: header_text_def ascii_def c_atoi_def Let_def)
  have fb: "framed (concat (?b @ [?q]))"
    using framed_html [of "''200 OK''" "''37''" ?q] x by (simp add: header_text_def ascii_def c_atoi_def Let_def nl_def)
  have page: "ends w0 (\<lambda>w'. \<exists>t. framed t \<and> said w0 t w') (block (map HTTP_OUTBUF_APPEND ss @ [HTTP_OUTBUF_PRINTF t]) w)"
    if "said w0 [] w" "framed (concat (ss @ [t]))" for w0 w ss t
  proof (rule ends_append)
    show "ends w0 (said w0 (concat ss)) (block (map HTTP_OUTBUF_APPEND ss) w)" using said_texts [OF that(1)] by simp
    show "ends w0 (\<lambda>w'. \<exists>t. framed t \<and> said w0 t w') (block [HTTP_OUTBUF_PRINTF t] w')" if "said w0 (concat ss) w'" for w'
      by (rule ends_block [where P = "said w0 (concat ss @ t)"]) (use said_append(2) [OF that] \<open>framed (concat (ss @ [t]))\<close> in auto)
  qed
  have body: "http_url_ota_bin env = block [HTTP_IGNORE_POSTDATA,
      IF (url_has ''?text'') (map HTTP_OUTBUF_APPEND ?a @ [HTTP_OUTBUF_PRINTF (?x @ [10])]) (map HTTP_OUTBUF_APPEND ?b @ [HTTP_OUTBUF_PRINTF ?q]),
      SEND, RETURN 1]"
    by (simp add: http_url_ota_bin_def)
  show ?thesis unfolding body
  proof (rule handled_postdata, rule ends_block [where P = "\<lambda>w'. \<exists>t. framed t \<and> said w0 t w'" for w0])
    fix w0 w assume s: "said w0 [] w"
    show "ends w0 (\<lambda>w'. \<exists>t. framed t \<and> said w0 t w') (IF (url_has ''?text'') (map HTTP_OUTBUF_APPEND ?a @ [HTTP_OUTBUF_PRINTF (?x @ [10])])
        (map HTTP_OUTBUF_APPEND ?b @ [HTTP_OUTBUF_PRINTF ?q]) w)"
      unfolding IF_def using page [OF s fa] page [OF s fb] by (cases "url_has ''?text'' w") (simp_all only: if_True if_False)
  next
    fix w0 w w' assume "\<exists>t. framed t \<and> said w0 t w'"
    then obtain t where t: "framed t" "said w0 t w'" by blast
    show "ends w0 (\<lambda>_. False) (block [SEND, RETURN 1] w')"
      by (rule ends_block [where P = "said w0 t"]) (use t in \<open>simp_all add: said_SEND said_kept del: block.simps\<close>)
  qed
qed

text \<open>The log page.\<close>

lemma adds_log_rows: "adds (log_rows ls)"
proof -
  have "said w0 t w \<Longrightarrow> ends w0 (\<lambda>w'. \<exists>u. said w0 (t @ u) w') (log_rows ls w)" for w0 t w
  proof (induction ls w arbitrary: t rule: log_rows.induct)
    case (1 a b ls w)
    define w1 where "w1 = w\<lparr>w_log := (w_log w)\<lparr>log_main := (log_main (w_log w))[b := 0]\<rparr>\<rparr>"
    let ?row = "[HTTP_OUTBUF_APPEND (ascii ''<tr><td><pre class=\"inline\">''), HTTP_OUTBUF_APPEND (cstr (drop a (log_mem (w_log w1)))),
      HTTP_OUTBUF_APPEND (nl ''</pre></td></tr>'')]"
    show ?case
    proof (cases "w_outbuflen w + 19 + (b - a) \<ge> 4 * 1024 - 24")
      case True
      then show ?thesis using "1.prems" by (auto intro: exI [of _ "[]"])
    next
      case False
      have "said w0 t w1" using "1.prems" by (simp add: w1_def)
      moreover have "adds (block ?row)" by (rule adds_block) simp
      ultimately have r: "ends w0 (\<lambda>w'. \<exists>u. said w0 (t @ u) w') (block ?row w1)" unfolding adds_def by blast
      show ?thesis
      proof (cases "block ?row w1")
        case (Go w2)
        then obtain u where u: "said w0 (t @ u) w2" using r by auto
        define w3 where "w3 = w2\<lparr>w_log := (w_log w2)\<lparr>log_main := (log_main (w_log w2))[b := log_main (w_log w) ! b]\<rparr>\<rparr>"
        have "said w0 (t @ u) w3" using u by (simp add: w3_def)
        then have "ends w0 (\<lambda>w'. \<exists>v. said w0 ((t @ u) @ v) w') (log_rows (b # ls) w3)"
          using "1.IH" [OF False refl refl Go [unfolded w1_def]] unfolding w3_def by blast
        then have "ends w0 (\<lambda>w'. \<exists>v. said w0 (t @ v) w') (log_rows (b # ls) w3)" by (rule ends_mono) auto
        then show ?thesis using False Go by (simp add: Let_def w1_def w3_def del: block.simps)
      qed (use r False in \<open>simp_all add: Let_def w1_def del: block.simps\<close>)
    qed
  qed (auto intro: exI [of _ "[]"])
  then show ?thesis by (simp add: adds_def)
qed

lemma handled_logs: "handled http_url_logs"
  unfolding http_url_logs_def
proof (rule handled_postdata, rule ends_block [where P = "\<lambda>_. False"])
  fix w0 w assume s: "said w0 [] w"
  show "ends w0 (\<lambda>_. False) (case log_lines (log_mem (w_log w)) (length (log_main (w_log w))) 0 [] of
        None \<Rightarrow> Fault
      | Some lines \<Rightarrow> block (variable_page
          [HTTP_OUTBUF_APPEND (
             nl ''<html><head><style type=\"text/css\">'' @
             nl ''tr:nth-child(even) { background-color: #ffffff; }'' @
             nl ''tr:nth-child(odd)  { background-color: #dddddd; }'' @
             nl ''pre.inline         {          display: inline;  }'' @
             nl ''</style></head><body>''),
           IF (url_has ''?refresh'')
             [HTTP_OUTBUF_APPEND (nl ''<script type=\"text/javascript\">''),
              HTTP_OUTBUF_APPEND (nl ''setTimeout(function() { window.location.reload(true); }, 20000);''),
              HTTP_OUTBUF_APPEND (nl ''</script>'')] [],
           HTTP_OUTBUF_APPEND (nl ''<table>''),
           log_rows lines,
           HTTP_OUTBUF_APPEND (nl ''</table></body></html>'')]) w)"
    using said_variable_page [OF s] by (auto split: option.split simp: adds_log_rows simp del: block.simps)
qed simp

text \<open>The forms: the query is decoded in place.\<close>

lemma length_entry: "(enc, ch) \<in> set url_map \<Longrightarrow> url_decode_entry (enc, ch) (bs, l, f) = Some (bs', l', f') \<Longrightarrow> length bs' = length bs"
proof -
  assume e: "(enc, ch) \<in> set url_map" and d: "url_decode_entry (enc, ch) (bs, l, f) = Some (bs', l', f')"
  have "length enc = 3" using e url_map_entries by auto
  moreover have "p + length enc \<le> length bs" if "c_strstr (cstr bs) enc = Some p" for p
  proof -
    have "p + length enc \<le> length (cstr bs)" using c_strstr_Some [OF that] by simp
    also have "\<dots> \<le> length bs" by (simp add: cstr_def length_takeWhile_le)
    finally show ?thesis .
  qed
  ultimately show "length bs' = length bs" using d by (auto simp: patch_def split: option.splits if_splits)
qed

lemma length_pass: "set es \<subseteq> set url_map \<Longrightarrow> url_decode_pass es (bs, l, f) = Some (bs', l', f') \<Longrightarrow> length bs' = length bs"
proof (induction es arbitrary: bs l f)
  case (Cons e es)
  obtain enc ch where e: "e = (enc, ch)" by fastforce
  obtain bs1 l1 f1 where d: "url_decode_entry (enc, ch) (bs, l, f) = Some (bs1, l1, f1)" using Cons.prems(2) e by (auto simp: bind_eq_Some_conv)
  then have "length bs1 = length bs" using length_entry Cons.prems(1) e by auto
  moreover have "url_decode_pass es (bs1, l1, f1) = Some (bs', l', f')" using Cons.prems(2) e d by simp
  ultimately show ?case using Cons.IH Cons.prems(1) by fastforce
qed simp

lemma length_url_decode: "url_decode bs = Some bs' \<Longrightarrow> length bs' = length bs"
proof -
  have "url_decode_loop bs l = Some bs' \<Longrightarrow> length bs' = length bs" for bs l
    by (induction bs l rule: url_decode_loop.induct) (subst (asm) (2) url_decode_loop.simps, auto dest: length_pass [OF subset_refl] split: option.splits if_splits)
  then show "url_decode bs = Some bs' \<Longrightarrow> length bs' = length bs" by (simp add: url_decode_def)
qed

definition form_length :: "nat \<Rightarrow> 's form_exit \<Rightarrow> bool" where
  "form_length n e = (case e of Form_fault \<Rightarrow> True | Form_form m s \<Rightarrow> length m = n | Form_fail m s \<Rightarrow> length m = n | Form_done m s \<Rightarrow> length m = n)"

lemma form_length_simps [simp]: "form_length n Form_fault" "form_length n (Form_form m s) \<longleftrightarrow> length m = n"
  "form_length n (Form_fail m s) \<longleftrightarrow> length m = n" "form_length n (Form_done m s) \<longleftrightarrow> length m = n"
  by (simp_all add: form_length_def)

lemma form_loop_length: "form_length (length m) (form_loop pair n m key s)"
proof (induction pair n m key s rule: form_loop.induct)
  case (1 pair n m key s)
  show ?case
  proof (cases "key \<ge> n \<or> 0 \<notin> set (drop key m)")
    case True
    then show ?thesis by (simp add: form_loop.simps [of pair n m key s])
  next
    case nf: False
    show ?thesis
    proof (cases "c_strstr (cstr (drop key m)) [61]")
      case None
      then show ?thesis using nf by (simp add: form_loop.simps [of pair n m key s])
    next
      case (Some k)
      define val where "val = key + k + 1"
      define m1 where "m1 = m[val - 1 := 0]"
      define amp where "amp = c_strstr (cstr (drop val m1)) [38]"
      define m2 where "m2 = (case amp of None \<Rightarrow> m1 | Some q \<Rightarrow> m1[val + q := 0])"
      have l2: "length m2 = length m" by (simp add: m2_def m1_def split: option.split)
      have e: "form_loop pair n m key s = (case url_decode (drop val m2) of None \<Rightarrow> Form_fault
        | Some d \<Rightarrow> (case pair (drop key (take val m2 @ d)) (cstr (drop val (take val m2 @ d))) s of None \<Rightarrow> Form_fail (take val m2 @ d) s
          | Some s' \<Rightarrow> (case amp of None \<Rightarrow> Form_done (take val m2 @ d) s' | Some q \<Rightarrow> form_loop pair n (take val m2 @ d) (val + q + 1) s')))"
        unfolding form_loop.simps [of pair n m key s] Let_def if_not_P [OF nf] Some option.case val_def m1_def amp_def m2_def by (rule refl)
      show ?thesis
      proof (cases "url_decode (drop val m2)")
        case None
        then show ?thesis using e by simp
      next
        case d: (Some d)
        define m3 where "m3 = take val m2 @ d"
        have l3: "length m3 = length m" using length_url_decode [OF d] l2 by (simp add: m3_def)
        note ih = "1.IH" [OF nf Some val_def m1_def amp_def m2_def d m3_def]
        show ?thesis unfolding e d using ih l3 by (auto simp flip: m3_def split: option.split)
      qed
    qed
  qed
qed

lemma form_query_length: "form_length (length (url_mem (w_client w))) (form_query pair s w)"
  unfolding form_query_def Let_def by (auto simp: form_loop_length split: option.split)

lemma said_set_url_mem:
  assumes "said w0 t w" "length m = length (url_mem (w_client w))"
  shows "said w0 t (set_url_mem m w)"
  using assms by (simp add: said_def kept_def client_ok_def set_url_mem_def url_mem_def)

lemma handled_wifi: "handled (http_url_wifi_setup env)"
  unfolding http_url_wifi_setup_def
proof (rule handled_postdata, rule ends_block [where P = "\<lambda>_. False"])
  fix w0 w assume s: "said w0 [] w"
  let ?conf = "\<lparr>sc_ssid = replicate (env_ssid_size env) 0, sc_password = replicate (env_password_size env) 0\<rparr>"
  have fl: "form_length (length (url_mem (w_client w))) (form_query wifi_pair ?conf w)" by (rule form_query_length)
  have form: "ends w0 (\<lambda>_. False) (wifi_form env w')" if "said w0 [] w'" for w'
    unfolding wifi_form_def by (rule said_variable_page [OF that]) simp
  have bad: "ends w0 (\<lambda>_. False) (block (page_400 @ [RETURN 1]) w')" if "said w0 [] w'" for w'
    by (rule said_fixed_page(3) [OF that ends_return])
  have set: "ends w0 (\<lambda>_. False) (block ([call (Wifi_set_config a b), IF (\<lambda>_. \<not> env_wifi_set_config env) (page_400 @ [RETURN 1]) [], call Wifi_disconnect, call Wifi_connect] @
      page_202 @ [RETURN 1]) w')" if "said w0 [] w'" for w' a b
    unfolding append.simps
  proof (rule ends_block [where P = "said w0 []"])
    show "ends w0 (said w0 []) (call (Wifi_set_config a b) w')" using that by (simp add: said_call framed_call_def)
    fix w1 assume s1: "said w0 [] w1"
    show "ends w0 (\<lambda>_. False) (block (IF (\<lambda>_. \<not> env_wifi_set_config env) (page_400 @ [RETURN 1]) [] # call Wifi_disconnect # call Wifi_connect # page_202 @ [RETURN 1]) w1)"
    proof (rule ends_block [where P = "said w0 []"])
      show "ends w0 (said w0 []) (IF (\<lambda>_. \<not> env_wifi_set_config env) (page_400 @ [RETURN 1]) [] w1)"
        using ends_mono [OF bad [OF s1], of "said w0 []"] s1 by (simp add: IF_def)
      fix w2 assume s2: "said w0 [] w2"
      show "ends w0 (\<lambda>_. False) (block (call Wifi_disconnect # call Wifi_connect # page_202 @ [RETURN 1]) w2)"
      proof (rule ends_block [where P = "said w0 []"], rule said_call [OF s2], simp add: framed_call_def, rule ends_block [where P = "said w0 []"])
        fix w3 assume s3: "said w0 [] w3"
        show "ends w0 (said w0 []) (call Wifi_connect w3)" by (rule said_call [OF s3]) (simp add: framed_call_def)
      next
        fix w4 assume "said w0 [] w4"
        then show "ends w0 (\<lambda>_. False) (block (page_202 @ [RETURN 1]) w4)" by (rule said_fixed_page(2) [OF _ ends_return])
      qed
    qed
  qed
  show "ends w0 (\<lambda>_. False) (case form_query wifi_pair ?conf w of
        Form_fault \<Rightarrow> Fault
      | Form_form m conf \<Rightarrow> wifi_form env (set_url_mem m w)
      | Form_fail m conf \<Rightarrow> block (page_400 @ [RETURN 1]) (set_url_mem m w)
      | Form_done m conf \<Rightarrow>
          if c_strlen (sc_ssid conf) = 0 \<or> c_strlen (sc_password conf) = 0 then wifi_form env (set_url_mem m w)
          else block
            ([call (Wifi_set_config (sc_ssid conf) (sc_password conf)),
              IF (\<lambda>_. \<not> env_wifi_set_config env) (page_400 @ [RETURN 1]) [],
              call Wifi_disconnect,
              call Wifi_connect] @ page_202 @ [RETURN 1]) (set_url_mem m w))"
    using form bad set said_set_url_mem [OF s] fl by (cases "form_query wifi_pair ?conf w") (auto simp del: block.simps append.simps)
qed simp

lemma handled_smtp: "handled http_url_smtp_setup"
  unfolding http_url_smtp_setup_def
proof (rule handled_postdata, rule ends_block [where P = "\<lambda>_. False"])
  fix w0 w assume s: "said w0 [] w"
  have fl: "form_length (length (url_mem (w_client w))) (form_query smtp_pair (w_smtp w) w)" by (rule form_query_length)
  have form: "ends w0 (\<lambda>_. False) (smtp_form w')" if "said w0 [] w'" for w'
    unfolding smtp_form_def by (rule said_variable_page [OF that]) (simp add: smtp_row_def)
  have bad: "ends w0 (\<lambda>_. False) (block (page_400 @ [RETURN 1]) w')" if "said w0 [] w'" for w'
    by (rule said_fixed_page(3) [OF that ends_return])
  have stored: "ends w0 (\<lambda>_. False) (block ([call (Arm_smtp_param 3000)] @ page_202 @ [RETURN 1]) w')" if "said w0 [] w'" for w'
    unfolding append.simps
    by (rule ends_block [where P = "said w0 []"], rule said_call [OF that], simp add: framed_call_def, rule said_fixed_page(2) [OF _ ends_return])
  show "ends w0 (\<lambda>_. False) (case form_query smtp_pair (w_smtp w) w of
        Form_fault \<Rightarrow> Fault
      | Form_form m sv \<Rightarrow> smtp_form ((set_url_mem m w)\<lparr>w_smtp := sv\<rparr>)
      | Form_fail m sv \<Rightarrow> block (page_400 @ [RETURN 1]) ((set_url_mem m w)\<lparr>w_smtp := sv\<rparr>)
      | Form_done m sv \<Rightarrow>
          let w1 = (set_url_mem m w)\<lparr>w_smtp := sv\<rparr> in
          if c_strlen (sv_host sv) = 0 \<or> sv_port sv = 0 \<or> c_strlen (sv_user sv) = 0 \<or>
             c_strlen (sv_pass sv) = 0 \<or> c_strlen (sv_from sv) = 0 \<or> c_strlen (sv_to sv) = 0
          then smtp_form w1
          else block ([call (Arm_smtp_param 3000)] @ page_202 @ [RETURN 1]) w1)"
    using form bad stored said_set_url_mem [OF s] fl by (cases "form_query smtp_pair (w_smtp w) w") (auto simp: Let_def simp del: block.simps append.simps)
qed simp

text \<open>The update.\<close>

lemma handled_fail:
  assumes "said w0 [] w"
  shows "ends w0 Q (ota_fail w)"
  unfolding ota_fail_def by (rule said_fixed_page(3) [OF assms ends_return])

lemma said_ota [simp]:
  "said w0 t (w\<lparr>w_ota := ot\<rparr>) = said w0 t w" "said w0 t (w\<lparr>w_store := st\<rparr>) = said w0 t w" "said w0 t (w\<lparr>w_flash := f\<rparr>) = said w0 t w"
  by (simp_all add: said_def kept_def)

lemma said_start: "said w0 [] w \<Longrightarrow> said w0 [] (snd (ota_start env w))"
  by (simp add: ota_start_def Let_def split: option.split)

lemma said_copy:
  assumes "said w0 [] w"
  shows "said w0 [] (ota_copy w)"
proof -
  have ok: "client_ok (w_client w)" using assms by (simp add: said_def kept_def)
  have l: "ota_len w \<le> unat (hc_bufused (w_client w))" by (simp add: ota_len_def)
  then have "unat (of_nat (ota_len w) :: u16) = ota_len w" using unsigned_less [of "hc_bufused (w_client w)", where 'a = nat] by (simp add: unat_of_nat_small)
  then have "unat (hc_bufused (w_client w) - of_nat (ota_len w)) \<le> 2048" using ok l by (simp add: client_ok_def unat_sub_if') linarith
  then have "client_ok (w_client (ota_copy w))" using ok by (simp add: client_ok_def ota_copy_def Let_def)
  then show ?thesis using assms by (simp add: said_def kept_def ota_copy_def Let_def)
qed

lemma said_flash: "ota_flash env w = Some (r, w') \<Longrightarrow> said w0 [] w \<Longrightarrow> said w0 [] w'"
  by (auto simp: ota_flash_def Let_def split: option.splits)

lemma said_loop: "ota_loop env w = Some (r, w') \<Longrightarrow> said w0 [] w \<Longrightarrow> said w0 [] w'"
proof -
  have "\<forall>r w'. y = (r, w') \<longrightarrow> said w0 [] w \<longrightarrow> said w0 [] w'" if "ota_loop env w = Some y" for y
  proof (rule ota_loop.raw_induct [OF _ that, where P = "\<lambda>env w y. \<forall>r w'. y = (r, w') \<longrightarrow> said w0 [] w \<longrightarrow> said w0 [] w'"])
    fix loop :: "http_env \<Rightarrow> http_world \<Rightarrow> (bool \<times> http_world) option" and env w y
    assume ih: "\<And>env w y. loop env w = Some y \<Longrightarrow> \<forall>r w'. y = (r, w') \<longrightarrow> said w0 [] w \<longrightarrow> said w0 [] w'"
    assume "(if hc_bufused (w_client w) > 0 \<and> hc_postlen (w_client w) > hc_postused (w_client w) then
        if unat (ota_secused (w_ota w)) > 4096 then None
        else let w1 = ota_copy w in
          if unat (ota_secused (w_ota w1)) = 4096 \<or> hc_postused (w_client w1) = hc_postlen (w_client w1) then
            Option.bind (ota_flash env w1) (\<lambda>(fl, w2). if fl then Some (True, w2) else loop env w2)
          else loop env w1
      else Some (False, w)) = Some y"
    then show "\<forall>r w'. y = (r, w') \<longrightarrow> said w0 [] w \<longrightarrow> said w0 [] w'"
      using ih said_copy [of w0 w] said_flash [of env "ota_copy w" _ _ w0]
      by (fastforce simp: Let_def bind_eq_Some_conv split: if_splits)
  qed
  then show "ota_loop env w = Some (r, w') \<Longrightarrow> said w0 [] w \<Longrightarrow> said w0 [] w'" by blast
qed

lemma said_read: "ota_read env addr fin w = Some (r, w') \<Longrightarrow> said w0 [] w \<Longrightarrow> said w0 [] w'"
proof (induction env addr fin w rule: ota_read.induct)
  case (1 env addr fin w)
  from "1.prems"(1) [unfolded ota_read.simps [of env addr fin w]] show ?case
    using "1.IH" "1.prems"(2) by (auto split: if_splits option.splits)
qed

lemma said_signature: "ota_signature w = Some (r, w') \<Longrightarrow> said w0 [] w \<Longrightarrow> said w0 [] w'"
  by (auto simp: ota_signature_def Let_def split: option.splits prod.splits if_splits)

lemma said_finish:
  assumes "said w0 [] w"
  shows "ends w0 (\<lambda>_. False) (ota_finish env w)"
proof -
  obtain s1 hash1 where s1: "sha256_done (ota_sha256 (w_ota w)) = (s1, hash1)" by fastforce
  define w1 where "w1 = w\<lparr>w_ota := (w_ota w)\<lparr>ota_hash1 := hash1, ota_sha256 := sha256_init s1\<rparr>\<rparr>"
  have "said w0 [] w1" using assms by (simp add: w1_def)
  note rd = said_read [OF _ this]
  define beg where "beg = unat (ota_newaddr_beg (w_ota w1))"
  define fin where "fin = beg + unat (ota_appsize (w_ota w1))"
  show ?thesis
  proof (cases "ota_read env beg fin w1")
    case None
    then show ?thesis unfolding ota_finish_def Let_def s1 prod.case w1_def [symmetric] beg_def [symmetric] fin_def [symmetric] by simp
  next
    case (Some x)
    obtain r w2 where x: "x = (r, w2)" by fastforce
    have s2: "said w0 [] w2" using rd Some x by simp
    obtain s3 hash2 where s3: "sha256_done (ota_sha256 (w_ota w2)) = (s3, hash2)" by fastforce
    define w3 where "w3 = w2\<lparr>w_ota := (w_ota w2)\<lparr>ota_hash2 := hash2, ota_sha256 := s3\<rparr>\<rparr>"
    have w3: "said w0 [] w3" using s2 by (simp add: w3_def)
    have "ends w0 (\<lambda>_. False) (case ota_signature w3 of None \<Rightarrow> Fault | Some (True, w4) \<Rightarrow> ota_fail w4
      | Some (False, w4) \<Rightarrow> block (page_202 @ [call Upgrade_flag_finish, call (Arm_ota_reboot 5000), RETURN 1]) w4)"
    proof (cases "ota_signature w3")
      case (Some y)
      obtain q w4 where y: "y = (q, w4)" by fastforce
      have s4: "said w0 [] w4" using said_signature Some y w3 by blast
      have "ends w0 (\<lambda>_. False) (block [call Upgrade_flag_finish, call (Arm_ota_reboot 5000), RETURN 1] w5)" if "said w0 t w5" for t w5
        by (rule ends_block [where P = "said w0 t"], rule said_call [OF that]) (simp_all add: ends_call_return framed_call_def del: block.simps)
      from said_fixed_page(2) [OF s4 this] show ?thesis using Some y handled_fail [OF s4] by (cases q) (simp_all del: block.simps)
    qed simp
    then show ?thesis
      unfolding ota_finish_def Let_def s1 prod.case w1_def [symmetric] beg_def [symmetric] fin_def [symmetric] Some x option.case s3 w3_def [symmetric]
      using handled_fail [OF s2] handled_fail [OF w3] by (cases r) (simp_all del: block.simps)
  qed
qed

lemma handled_push: "handled (http_url_ota_push env)"
proof (rule handledI)
  fix w assume s: "said w [] w"
  obtain fl w1 where w1: "(if hc_postused (w_client w) = 0 then ota_start env w else (False, w)) = (fl, w1)" by fastforce
  have s1: "said w [] w1" using w1 s said_start [OF s, of env] by (auto split: if_splits)
  show "ends w (\<lambda>_. False) (http_url_ota_push env w)"
  proof (cases "fl \<or> ota_client (w_ota w1) \<noteq> Some (w_id w1)")
    case True
    then show ?thesis using w1 handled_fail [OF s1] by (simp add: http_url_ota_push_def)
  next
    case False
    define w2 where "w2 = w1\<lparr>w_calls := w_calls w1 @ [Recv_hold (hc_conn (w_client w1))]\<rparr>"
    have s2: "said w [] w2" using said_call [OF s1, of "Recv_hold (hc_conn (w_client w1))"] by (simp add: call_def w2_def framed_call_def)
    show ?thesis
    proof (cases "ota_loop env w2")
      case None
      then show ?thesis using w1 False by (simp add: http_url_ota_push_def Let_def flip: w2_def)
    next
      case (Some x)
      obtain r w3 where x: "x = (r, w3)" by fastforce
      have s3: "said w [] w3" using said_loop [OF _ s2] Some x by blast
      define w4 where "w4 = w3\<lparr>w_calls := w_calls w3 @ [Recv_unhold (hc_conn (w_client w1))]\<rparr>"
      have s4: "said w [] w4" using said_call [OF s3, of "Recv_unhold (hc_conn (w_client w1))"] by (simp add: call_def w4_def framed_call_def)
      show ?thesis
        using w1 False Some x handled_fail [OF s3] said_finish [OF s4] said_kept [OF s4]
        by (cases r) (simp_all add: http_url_ota_push_def Let_def flip: w2_def w4_def)
    qed
  qed
qed

section \<open>The table\<close>

text \<open>A table of handlers with a fallback that all keep the contract, and the lookup.\<close>

locale url_table =
  fixes sane :: bool and urls :: "(u8 list \<times> http_stm) list" and fallback :: http_stm
  assumes entry_handled: "sane \<Longrightarrow> (base, h) \<in> set urls \<Longrightarrow> handled h" and fallback_handled: "handled fallback"
begin

lemma lookup_handled:
  assumes "sane" "said w [] w"
  shows "ends w (\<lambda>_. False) (case map_of urls base of Some h \<Rightarrow> h w | None \<Rightarrow> fallback w)"
  using assms entry_handled [of base] fallback_handled by (auto simp: handled_def split: option.split dest: map_of_SomeD)

end

text \<open>The boot flag that \<^verbatim>\<open>system_upgrade_userbin_check\<close> returns is 0 or 1.\<close>

definition env_ok :: "http_env \<Rightarrow> bool" where
  "env_ok env \<longleftrightarrow> unat (env_userbin_check env) \<le> 1"

interpretation table: url_table "env_ok env" "http_urls env" http_url_404 for env
proof unfold_locales
  fix base h assume "env_ok env" "(base, h) \<in> set (http_urls env)"
  moreover from this have "unat (env_userbin_check env) < 16" by (simp add: env_ok_def)
  ultimately show "handled h"
    using handled_blank handled_logs handled_levels handled_ota_bin [of env] handled_push handled_reset handled_smtp handled_uptime handled_version handled_wifi
    by (auto simp: http_urls_def)
qed (rule handled_404)

text \<open>The dispatch empties the output buffer.\<close>

lemma kept_trans: "kept w0 w1 \<Longrightarrow> kept w1 w2 \<Longrightarrow> kept w0 w2"
  by (auto simp: kept_def)

lemma dispatch_handled:
  assumes "env_ok env" "kept w0 w"
  shows "ends w0 (\<lambda>_. False) (http_dispatch env w)"
proof -
  define w1 where "w1 = w\<lparr>w_outbuf := replicate (length (w_outbuf w)) 0, w_outbuflen := 0\<rparr>"
  have k: "kept w0 w1" "said w1 [] w1" using assms(2) by (simp_all add: w1_def said_def kept_def)
  have "ends w0 (\<lambda>_. False) (case map_of (http_urls env) base of Some h \<Rightarrow> h w1 | None \<Rightarrow> http_url_404 w1)" for base
    using table.lookup_handled [OF assms(1) k(2), of base] kept_trans [OF k(1)]
    by (cases "case map_of (http_urls env) base of Some h \<Rightarrow> h w1 | None \<Rightarrow> http_url_404 w1") simp_all
  then show ?thesis unfolding http_dispatch_def Let_def w1_def [symmetric] using assms(2) by simp
qed

text \<open>The parser keeps the sizes of the arrays.\<close>

definition same_client :: "http_client \<Rightarrow> http_client \<Rightarrow> bool" where
  "same_client c0 c \<longleftrightarrow> hc_inuse c = hc_inuse c0 \<and> hc_conn c = hc_conn c0 \<and> client_ok c"

lemma same_set_url: "same_client c0 c \<Longrightarrow> length t \<le> 256 \<Longrightarrow> same_client c0 (set_url t c)"
  by (simp add: same_client_def client_ok_def set_url_def Let_def)

lemma same_set_host: "same_client c0 c \<Longrightarrow> length t \<le> 64 \<Longrightarrow> same_client c0 (set_host t c)"
  by (simp add: same_client_def client_ok_def set_host_def Let_def)

lemma same_header_line:
  assumes "same_client c0 c"
  shows "header_line off nextline c = Return r c' \<Longrightarrow> same_client c0 c'" "header_line off nextline c = Go c' \<Longrightarrow> same_client c0 c'"
proof -
  have "same_client c0 (c\<lparr>hc_postlen := n\<rparr>)" for n using assms by (simp add: same_client_def client_ok_def)
  then show "header_line off nextline c = Return r c' \<Longrightarrow> same_client c0 c'" "header_line off nextline c = Go c' \<Longrightarrow> same_client c0 c'"
    using assms by (auto simp: header_line_def Let_def same_set_host split: option.splits if_splits)
qed

lemma same_header_loop:
  "same_client c0 c \<Longrightarrow> header_loop off len c = Return r (c', off') \<or> header_loop off len c = Go (c', off') \<Longrightarrow> same_client c0 c'"
proof (induction off len c rule: header_loop.induct)
  case (1 off len c)
  note h = same_header_line [OF "1.prems"(1), of off]
  from "1.prems"(2) show ?case unfolding header_loop.simps [of off len c]
    using "1.IH" "1.prems"(1) h by (auto split: option.splits flow.splits if_splits)
qed

lemma same_parse_request:
  assumes "same_client c0 c" "parse_request c = Return r c' \<or> parse_request c = Go c'"
  shows "same_client c0 c'"
proof -
  have m: "same_client c0 (c\<lparr>hc_method := x\<rparr>)" for x using assms(1) by (simp add: same_client_def client_ok_def)
  have u: "same_client c0 (set_url (take (e - b) (drop b xs)) (c\<lparr>hc_method := x\<rparr>))" if "\<not> e - b > 256" for e b xs x
    by (rule same_set_url [OF m]) (use that in simp)
  have f: "same_client c0 (c2\<lparr>hc_buf := patch (hc_buf c2) 0 (take (unat (hc_bufused c2) - off) (drop off (hc_buf c2))),
      hc_bufused := of_nat (unat (hc_bufused c2) - off), hc_state := st\<rparr>)" if "same_client c0 c2" for c2 off st
  proof -
    have "unat (of_nat (unat (hc_bufused c2) - off) :: u16) = unat (hc_bufused c2) - off"
      using unsigned_less [of "hc_bufused c2", where 'a = nat] by (simp add: unat_of_nat_small del: of_nat_diff)
    then show ?thesis using that by (simp add: same_client_def client_ok_def del: of_nat_diff) linarith
  qed
  define tok where "tok = (\<lambda>off nx. parsetoken (hc_buf c) off (ptr_diff nx off))"
  define go where "go = (\<lambda>x nx u. case header_loop nx (unat (hc_bufused c)) (set_url (take (snd u - fst u) (drop (fst u) (hc_buf c))) (c\<lparr>hc_method := x\<rparr>)) of
      Fault \<Rightarrow> Fault
    | Return r (c2, off) \<Rightarrow> Return r c2
    | Go (c2, off) \<Rightarrow> if off > unat (hc_bufused c2) then Fault
        else let n = unat (hc_bufused c2) - off; c3 = c2\<lparr>hc_buf := patch (hc_buf c2) 0 (take n (drop off (hc_buf c2))), hc_bufused := of_nat n\<rparr>
          in Go (c3\<lparr>hc_state := (if hc_method c3 = HTTP_METHOD_GET then HTTP_STATE_RESPONSE else HTTP_STATE_POSTDATA)\<rparr>))"
  have go: "same_client c0 c'" if "\<not> snd u - fst u > 256" "go x nx u = Return r c' \<or> go x nx u = Go c'" for x nx u
    using that(2) same_header_loop [OF u [OF that(1)] disjI1] same_header_loop [OF u [OF that(1)] disjI2] f unfolding go_def Let_def
    by (auto split: flow.splits prod.splits if_splits simp del: of_nat_diff)
  have e: "parse_request c = (case parseline (hc_buf c) 0 (unat (hc_bufused c)) of None \<Rightarrow> Fault | Some None \<Rightarrow> Return 0 c
    | Some (Some nx) \<Rightarrow> (case tok 0 nx of None \<Rightarrow> Fault | Some None \<Rightarrow> Return 1 c
      | Some (Some t) \<Rightarrow> if \<not> token_is (hc_buf c) t (ascii ''GET'') \<and> \<not> token_is (hc_buf c) t (ascii ''POST'') then Return 1 c
          else let x = (if token_is (hc_buf c) t (ascii ''GET'') then HTTP_METHOD_GET else HTTP_METHOD_POST) in
            (case tok (snd t) nx of None \<Rightarrow> Fault | Some None \<Rightarrow> Return 1 (c\<lparr>hc_method := x\<rparr>)
              | Some (Some u) \<Rightarrow> if snd u - fst u > 256 then Return 1 (c\<lparr>hc_method := x\<rparr>) else go x nx u)))"
    unfolding parse_request_def Let_def tok_def go_def by (rule refl)
  show ?thesis using assms m go unfolding e Let_def by (auto split: option.splits if_splits)
qed

lemma process_kept:
  assumes "env_ok env" "kept w w"
  shows "ends w (\<lambda>_. False) (http_process env w)"
proof -
  have k: "kept w (w\<lparr>w_client := c\<rparr>)" if "same_client (w_client w) c" for c
    using that assms(2) by (auto simp: kept_def same_client_def)
  have s: "same_client (w_client w) (w_client w)" using assms(2) by (simp add: kept_def same_client_def)
  show ?thesis
  proof (cases "hc_state (w_client w) = HTTP_STATE_HEADERS")
    case True
    then show ?thesis
      using same_parse_request [OF s] k dispatch_handled [OF assms(1) k]
      by (cases "parse_request (w_client w)") (auto simp: http_process_def)
  next
    case False
    then show ?thesis using dispatch_handled [OF assms] by (simp add: http_process_def)
  qed
qed

end
