(* ===== verification/Http_Slots.thy ===== *)
theory Http_Slots
  imports Http_Handlers
begin

text \<open>
  The server under any order of the network's events: which connections are live, which slot serves which of them,
  and what is sent. A connection is live from the connect callback to the disconnect callback; the
  network delivers data and disconnects for live connections only. The task may run at any time.
\<close>

section \<open>Runs\<close>

inductive http_run :: "http_world \<Rightarrow> http_server \<Rightarrow> nat set \<Rightarrow> bool" for w where
  start: "http_run w (http_init w) {}"
| connect: "http_run w s L \<Longrightarrow> conn \<notin> L \<Longrightarrow> http_run w (http_server_conn_cb e1 e2 conn s) (insert conn L)"
| receive: "http_run w s L \<Longrightarrow> conn \<in> L \<Longrightarrow> env_ok env \<Longrightarrow> http_client_recv_cb env conn data s = Some s' \<Longrightarrow> http_run w s' L"
| disconnect: "http_run w s L \<Longrightarrow> conn \<in> L \<Longrightarrow> http_run w (http_client_disconn_cb conn s) (L - {conn})"
| task: "http_run w s L \<Longrightarrow> http_run w (http_task sig conn s) L"

text \<open>
  The invariant: the array sizes, and the slots in use are those of the live connections that were accepted, one each.
\<close>

definition slots_ok :: "http_server \<Rightarrow> nat set \<Rightarrow> bool" where
  "slots_ok s L \<longleftrightarrow> length (sv_clients s) = 4 \<and> (\<forall>c \<in> set (sv_clients s). client_ok c) \<and>
     (\<forall>conn \<in> L. \<forall>i. sv_reverse s conn = Some i \<longrightarrow> i < 4 \<and> hc_inuse (sv_clients s ! i) \<and> hc_conn (sv_clients s ! i) = conn) \<and>
     (\<forall>i < 4. hc_inuse (sv_clients s ! i) \<longrightarrow> hc_conn (sv_clients s ! i) \<in> L \<and> sv_reverse s (hc_conn (sv_clients s ! i)) = Some i)"

definition server_ok :: "http_server \<Rightarrow> nat set \<Rightarrow> bool" where
  "server_ok s L \<longleftrightarrow> slots_ok s L \<and> length (w_outbuf (sv_world s)) = 4096"

lemma client0_ok: "client_ok http_client0" "client_ok (http_client0\<lparr>hc_inuse := True, hc_conn := conn\<rparr>)"
  by (simp_all add: client_ok_def http_client0_def)

lemma ok_init: "length (w_outbuf w) = 4096 \<Longrightarrow> server_ok (http_init w) {}"
  by (auto simp: server_ok_def slots_ok_def http_init_def client0_ok) (auto simp: http_client0_def)

lemma post_kill_simps [simp]: "sv_clients (post_kill c s) = sv_clients s" "sv_reverse (post_kill c s) = sv_reverse s" "sv_world (post_kill c s) = sv_world s"
  "sv_posts (post_kill c s) = sv_posts s @ [c]" "sv_closes (post_kill c s) = sv_closes s"
  by (simp_all add: post_kill_def)

lemma slots_post_kill [simp]: "slots_ok (post_kill c s) L = slots_ok s L"
  by (simp add: slots_ok_def)

lemma free_slot: "free_slot cs i = Some j \<Longrightarrow> i \<le> j \<and> j < i + length cs \<and> \<not> hc_inuse (cs ! (j - i))"
  by (induction cs i rule: free_slot.induct) (auto split: if_splits simp: Suc_diff_le)

lemma free_slot_none: "free_slot cs i = None \<Longrightarrow> \<forall>c \<in> set cs. hc_inuse c"
  by (induction cs i rule: free_slot.induct) (auto split: if_splits)

lemma slots_refused:
  assumes "slots_ok s L" "conn \<notin> L"
  shows "slots_ok (s\<lparr>sv_reverse := (sv_reverse s)(conn := None)\<rparr>) (insert conn L)"
  using assms unfolding slots_ok_def by (auto simp: nth_list_update)

lemma slots_accepted:
  assumes "slots_ok s L" "conn \<notin> L" "i < 4" "\<not> hc_inuse (sv_clients s ! i)"
  shows "slots_ok (s\<lparr>sv_clients := (sv_clients s)[i := http_client0\<lparr>hc_inuse := True, hc_conn := conn\<rparr>],
     sv_reverse := (sv_reverse s)(conn := Some i)\<rparr>) (insert conn L)"
  using assms unfolding slots_ok_def
  by (auto simp: nth_list_update client0_ok dest!: set_update_subset_insert [THEN subsetD])

lemma ok_connect:
  assumes "server_ok s L" "conn \<notin> L"
  shows "server_ok (http_server_conn_cb e1 e2 conn s) (insert conn L)"
proof -
  define s1 where "s1 = s\<lparr>sv_reverse := (sv_reverse s)(conn := None)\<rparr>"
  have s1: "slots_ok s1 (insert conn L)" using slots_refused assms by (simp add: s1_def server_ok_def)
  have refuse: "server_ok (post_kill conn s1) (insert conn L)" using s1 assms(1) by (simp add: server_ok_def s1_def)
  show ?thesis
  proof (cases "e1 \<or> e2 \<or> free_slot (sv_clients s1) 0 = None")
    case True
    then show ?thesis using refuse by (auto simp: http_server_conn_cb_def Let_def simp flip: s1_def split: option.split)
  next
    case False
    then obtain i where i: "free_slot (sv_clients s1) 0 = Some i" by auto
    then have "i < 4" "\<not> hc_inuse (sv_clients s ! i)" using free_slot [OF i] assms(1) by (simp_all add: s1_def server_ok_def slots_ok_def)
    from slots_accepted [OF _ assms(2) this] assms(1) show ?thesis using False i
      by (simp add: http_server_conn_cb_def Let_def server_ok_def s1_def)
  qed
qed

lemma slots_okD:
  assumes "slots_ok s L"
  shows "length (sv_clients s) = 4" "\<And>c. c \<in> set (sv_clients s) \<Longrightarrow> client_ok c" "\<And>i. i < 4 \<Longrightarrow> client_ok (sv_clients s ! i)"
    "\<And>conn i. conn \<in> L \<Longrightarrow> sv_reverse s conn = Some i \<Longrightarrow> i < 4 \<and> hc_inuse (sv_clients s ! i) \<and> hc_conn (sv_clients s ! i) = conn"
    "\<And>i. i < 4 \<Longrightarrow> hc_inuse (sv_clients s ! i) \<Longrightarrow> hc_conn (sv_clients s ! i) \<in> L \<and> sv_reverse s (hc_conn (sv_clients s ! i)) = Some i"
  using assms by (simp_all add: slots_ok_def)

text \<open>A slot that stays with its connection.\<close>

lemma slots_update:
  assumes "slots_ok s L" "i < 4" "client_ok c" "hc_inuse c = hc_inuse (sv_clients s ! i)" "hc_conn c = hc_conn (sv_clients s ! i)"
  shows "slots_ok (s\<lparr>sv_world := w, sv_clients := (sv_clients s)[i := c]\<rparr>) L"
proof -
  note D = slots_okD [OF assms(1)]
  have "\<forall>x \<in> set ((sv_clients s)[i := c]). client_ok x" using D(2) assms(3) set_update_subset_insert [of "sv_clients s" i c] by auto
  moreover have "hc_inuse ((sv_clients s)[i := c] ! j) = hc_inuse (sv_clients s ! j)" "hc_conn ((sv_clients s)[i := c] ! j) = hc_conn (sv_clients s ! j)" for j
    using assms(2,4,5) D(1) by (simp_all add: nth_list_update)
  ultimately show ?thesis using D(1) assms(1) unfolding slots_ok_def by simp
qed

text \<open>A slot that is given back.\<close>

lemma slots_released:
  assumes "slots_ok s L" "conn \<in> L" "sv_reverse s conn = Some i"
  shows "slots_ok (s\<lparr>sv_clients := (sv_clients s)[i := (sv_clients s ! i)\<lparr>hc_inuse := False\<rparr>]\<rparr>) (L - {conn})"
proof -
  note D = slots_okD [OF assms(1)]
  define c where "c = (sv_clients s ! i)\<lparr>hc_inuse := False\<rparr>"
  have i: "i < 4" "hc_conn (sv_clients s ! i) = conn" using D(4) [OF assms(2,3)] by simp_all
  have "client_ok c" using D(3) [OF i(1)] by (simp add: c_def client_ok_def)
  then have a: "\<forall>x \<in> set ((sv_clients s)[i := c]). client_ok x" using D(2) set_update_subset_insert [of "sv_clients s" i c] by auto
  have b: "j < 4 \<and> hc_inuse ((sv_clients s)[i := c] ! j) \<and> hc_conn ((sv_clients s)[i := c] ! j) = conn'"
    if "conn' \<in> L - {conn}" "sv_reverse s conn' = Some j" for conn' j
    using D(4) [of conn' j] that i by (cases "j = i") auto
  have d: "hc_conn ((sv_clients s)[i := c] ! j) \<in> L - {conn} \<and> sv_reverse s (hc_conn ((sv_clients s)[i := c] ! j)) = Some j"
    if "j < 4" "hc_inuse ((sv_clients s)[i := c] ! j)" for j
    using D(1) D(5) [of j] that i assms(3) by (cases "j = i") (auto simp: c_def)
  show ?thesis unfolding slots_ok_def c_def [symmetric] using a b d D(1) by simp
qed

lemma ok_disconnect:
  assumes "server_ok s L" "conn \<in> L"
  shows "server_ok (http_client_disconn_cb conn s) (L - {conn})"
proof (cases "sv_reverse s conn")
  case None
  have "slots_ok s L" using assms(1) by (simp add: server_ok_def)
  note D = slots_okD [OF this]
  have "hc_conn (sv_clients s ! i) \<noteq> conn" if "i < 4" "hc_inuse (sv_clients s ! i)" for i using D(5) [OF that] None by auto
  then have "slots_ok s (L - {conn})" using \<open>slots_ok s L\<close> unfolding slots_ok_def by blast
  then show ?thesis using assms(1) None by (simp add: http_client_disconn_cb_def server_ok_def)
next
  case (Some i)
  then show ?thesis using assms slots_released [of s L conn i] by (simp add: http_client_disconn_cb_def server_ok_def)
qed

lemma ok_receive:
  assumes "server_ok s L" "conn \<in> L" "env_ok env" "http_client_recv_cb env conn data s = Some s'"
  shows "server_ok s' L \<and> (\<exists>cs. w_calls (sv_world s') = w_calls (sv_world s) @ cs \<and> list_all (framed_call conn) cs)"
proof (cases "sv_reverse s conn")
  case None
  then show ?thesis using assms(1,4) by (auto simp: http_client_recv_cb_def server_ok_def)
next
  case (Some i)
  have sl: "slots_ok s L" using assms(1) by (simp add: server_ok_def)
  note D = slots_okD [OF sl]
  have i: "i < 4" "hc_conn (sv_clients s ! i) = conn" using D(4) [OF assms(2) Some] by simp_all
  define c where "c = sv_clients s ! i"
  show ?thesis
  proof (cases "unat (hc_bufused c) + length data > length (hc_buf c)")
    case True
    then show ?thesis using assms(1,4) Some by (auto simp: http_client_recv_cb_def server_ok_def c_def)
  next
    case False
    define c1 where "c1 = c\<lparr>hc_buf := patch (hc_buf c) (unat (hc_bufused c)) data, hc_bufused := hc_bufused c + of_nat (length data)\<rparr>"
    define w1 where "w1 = (sv_world s)\<lparr>w_client := c1, w_id := i\<rparr>"
    have co: "client_ok c" using D(3) [OF i(1)] by (simp add: c_def)
    have "unat (hc_bufused c + of_nat (length data)) = unat (hc_bufused c) + length data"
      using co False by (simp add: client_ok_def unat_word_ariths unat_of_nat)
    then have "client_ok c1" using co False by (simp add: client_ok_def c1_def)
    then have k: "kept w1 w1" using assms(1) by (simp add: kept_def w1_def server_ok_def)
    have p: "http_client_recv_cb env conn data s = (case http_process env w1 of Return r w' \<Rightarrow>
        (let s1 = s\<lparr>sv_world := w', sv_clients := (sv_clients s)[i := w_client w']\<rparr> in Some (if r \<noteq> 0 then post_kill conn s1 else s1)) | _ \<Rightarrow> None)"
      unfolding http_client_recv_cb_def Some option.case Let_def w1_def c1_def c_def using False by (simp add: c_def)
    then obtain r w' where w': "http_process env w1 = Return r w'" using assms(4) by (cases "http_process env w1") simp_all
    have kw: "kept w1 w'" using process_kept [OF assms(3) k] w' by simp
    have "slots_ok (s\<lparr>sv_world := w', sv_clients := (sv_clients s)[i := w_client w']\<rparr>) L"
      by (rule slots_update [OF sl i(1)]) (use kw in \<open>simp_all add: kept_def w1_def c1_def c_def\<close>)
    moreover have "\<exists>cs. w_calls w' = w_calls (sv_world s) @ cs \<and> list_all (framed_call conn) cs"
      using kw i(2) by (simp add: kept_def w1_def c1_def c_def)
    ultimately show ?thesis using assms(1,4) p w' kw by (auto simp: server_ok_def Let_def kept_def split: if_splits)
  qed
qed

text \<open>The invariant holds in every run.\<close>

lemma http_run_ok: "http_run w s L \<Longrightarrow> length (w_outbuf w) = 4096 \<Longrightarrow> server_ok s L"
proof (induction rule: http_run.induct)
  case (task s L)
  then show ?case by (auto simp: http_task_def server_ok_def slots_ok_def)
qed (use ok_init ok_connect ok_receive ok_disconnect in blast)+

text \<open>The connections that are served, and their number.\<close>

definition served :: "http_server \<Rightarrow> nat set \<Rightarrow> nat set" where
  "served s L = {c \<in> L. sv_reverse s c \<noteq> None}"

text \<open>Slots in use and served connections correspond one to one, so a slot is free exactly if fewer than four are served.\<close>

lemma served_slots:
  assumes "slots_ok s L"
  shows "bij_betw (\<lambda>i. hc_conn (sv_clients s ! i)) {i. i < 4 \<and> hc_inuse (sv_clients s ! i)} (served s L)"
proof (rule bij_betw_byWitness [where f' = "\<lambda>c. the (sv_reverse s c)"])
  note D = slots_okD [OF assms]
  show "\<forall>i \<in> {i. i < 4 \<and> hc_inuse (sv_clients s ! i)}. the (sv_reverse s (hc_conn (sv_clients s ! i))) = i" using D(5) by auto
  show "\<forall>c \<in> served s L. hc_conn (sv_clients s ! the (sv_reverse s c)) = c" using D(4) by (auto simp: served_def)
  show "(\<lambda>i. hc_conn (sv_clients s ! i)) ` {i. i < 4 \<and> hc_inuse (sv_clients s ! i)} \<subseteq> served s L" using D(5) by (auto simp: served_def)
  show "(\<lambda>c. the (sv_reverse s c)) ` served s L \<subseteq> {i. i < 4 \<and> hc_inuse (sv_clients s ! i)}" using D(4) by (auto simp: served_def)
qed

lemma free_slot_served:
  assumes "slots_ok s L"
  shows "finite (served s L)" "free_slot (sv_clients s) 0 = None \<longleftrightarrow> 4 \<le> card (served s L)"
proof -
  define U where "U = {i. i < 4 \<and> hc_inuse (sv_clients s ! i)}"
  have U: "U \<subseteq> {..<4}" by (auto simp: U_def)
  have b: "card U = card (served s L)" "finite (served s L) = finite U" using served_slots [OF assms] bij_betw_same_card bij_betw_finite by (fastforce simp: U_def)+
  then show "finite (served s L)" using U finite_subset by blast
  have l: "length (sv_clients s) = 4" using slots_okD(1) [OF assms] .
  have "free_slot (sv_clients s) 0 = None \<longleftrightarrow> U = {..<4}"
  proof
    assume "free_slot (sv_clients s) 0 = None"
    then show "U = {..<4}" using free_slot_none l by (auto simp: U_def)
  next
    assume u: "U = {..<4}"
    show "free_slot (sv_clients s) 0 = None"
    proof (rule ccontr)
      assume "free_slot (sv_clients s) 0 \<noteq> None"
      then obtain j where "free_slot (sv_clients s) 0 = Some j" by blast
      from free_slot [OF this] have "j < 4" "j \<notin> U" using l by (auto simp: U_def)
      then show False using u by auto
    qed
  qed
  also have "\<dots> \<longleftrightarrow> 4 \<le> card U"
  proof
    assume "4 \<le> card U"
    then show "U = {..<4}" using U card_seteq [of "{..<4}" U] by simp
  qed simp
  finally show "free_slot (sv_clients s) 0 = None \<longleftrightarrow> 4 \<le> card (served s L)" using b by simp
qed

lemma free_slot_first: "free_slot cs i = Some j \<Longrightarrow> i \<le> k \<Longrightarrow> k < j \<Longrightarrow> hc_inuse (cs ! (k - i))"
proof (induction cs i arbitrary: k rule: free_slot.induct)
  case (2 c cs i)
  then have "hc_inuse c" by (auto split: if_splits)
  then show ?case using 2 by (cases "k = i") (auto simp: nth_Cons' split: if_splits)
qed simp

section \<open>Properties\<close>

text \<open>
  C5: the slots. In every run of the server, whatever arrives in whatever order, two live connections never share a client
  slot, a slot is in use exactly while a live connection holds it, and the arrays of every slot keep their sizes.
\<close>

theorem http_slots_exclusive:
  assumes "http_run w s L" "length (w_outbuf w) = 4096"
  shows "length (sv_clients s) = 4 \<and>
    (\<forall>i < 4. client_ok (sv_clients s ! i) \<and> (hc_inuse (sv_clients s ! i) \<longleftrightarrow> (\<exists>c \<in> L. sv_reverse s c = Some i))) \<and>
    (\<forall>c \<in> L. \<forall>d \<in> L. \<forall>i. sv_reverse s c = Some i \<and> sv_reverse s d = Some i \<longrightarrow> c = d)"
proof -
  have "slots_ok s L" using http_run_ok [OF assms] by (simp add: server_ok_def)
  note D = slots_okD [OF this]
  have "hc_inuse (sv_clients s ! i) \<longleftrightarrow> (\<exists>c \<in> L. sv_reverse s c = Some i)" if "i < 4" for i using D(4,5) that by blast
  then show ?thesis using D(1,3,4) by blast
qed

text \<open>
  C16: admission. In every run, a new connection is accepted exactly if its callbacks could be registered and fewer than four
  connections are being served; it then gets the first slot that is not in use, cleared, and nothing else changes. Otherwise no
  slot changes, the task is asked once to close it, and whatever it sends is not processed but asked about again. The same request,
  and nothing else, is the answer to data that does not fit the buffer of an accepted connection.
\<close>

theorem http_admission:
  fixes e1 e2 :: bool and conn :: nat
  assumes "http_run w s L" "length (w_outbuf w) = 4096" "conn \<notin> L"
  defines "s' \<equiv> http_server_conn_cb e1 e2 conn s"
  shows "(if \<not> e1 \<and> \<not> e2 \<and> card (served s L) < 4
     then \<exists>i < 4. \<not> hc_inuse (sv_clients s ! i) \<and> (\<forall>j < i. hc_inuse (sv_clients s ! j)) \<and>
       s' = s\<lparr>sv_reverse := (sv_reverse s)(conn := Some i),
              sv_clients := (sv_clients s)[i := http_client0\<lparr>hc_inuse := True, hc_conn := conn\<rparr>]\<rparr>
     else s' = s\<lparr>sv_reverse := (sv_reverse s)(conn := None), sv_posts := sv_posts s @ [conn]\<rparr> \<and>
       http_client_recv_cb env conn data s' = Some (s'\<lparr>sv_posts := sv_posts s' @ [conn]\<rparr>)) \<and>
    (\<forall>c i. sv_reverse s c = Some i \<and> 2048 < unat (hc_bufused (sv_clients s ! i)) + length data \<and> c \<in> L \<longrightarrow>
       http_client_recv_cb env c data s = Some (s\<lparr>sv_posts := sv_posts s @ [c]\<rparr>))"
proof -
  have sl: "slots_ok s L" using http_run_ok [OF assms(1,2)] by (simp add: server_ok_def)
  note f = free_slot_served(2) [OF sl] and D = slots_okD [OF sl]
  have full: "http_client_recv_cb env c data s = Some (s\<lparr>sv_posts := sv_posts s @ [c]\<rparr>)"
    if "sv_reverse s c = Some i" "2048 < unat (hc_bufused (sv_clients s ! i)) + length data" "c \<in> L" for c i
  proof -
    have "client_ok (sv_clients s ! i)" using D(3,4) that(1,3) by blast
    then show ?thesis using that(1,2) by (simp add: http_client_recv_cb_def client_ok_def post_kill_def)
  qed
  show ?thesis
  proof (cases "\<not> e1 \<and> \<not> e2 \<and> card (served s L) < 4")
    case True
    then obtain i where i: "free_slot (sv_clients s) 0 = Some i" using f by fastforce
    from free_slot [OF i] free_slot_first [OF i] have "i < 4" "\<not> hc_inuse (sv_clients s ! i)" "\<forall>j < i. hc_inuse (sv_clients s ! j)" using D(1) by simp_all
    then show ?thesis using True i full by (auto simp: s'_def http_server_conn_cb_def Let_def)
  next
    case False
    then have "s' = s\<lparr>sv_reverse := (sv_reverse s)(conn := None), sv_posts := sv_posts s @ [conn]\<rparr>"
      using f by (auto simp: s'_def http_server_conn_cb_def Let_def post_kill_def split: option.split)
    then show ?thesis using False full by (auto simp: http_client_recv_cb_def post_kill_def)
  qed
qed

section \<open>Witnesses\<close>

text \<open>A connection is accepted and sends nothing yet, and a fifth one is refused.\<close>

definition run_world :: http_world where
  "run_world = world_reset (\<lambda>_. bi_byte 0) (\<lambda>_. 0)"

definition run_sample :: http_server where
  "run_sample = http_server_conn_cb False False 7 (http_init run_world)"

lemma run_sample: "http_run run_world run_sample {7}" "length (w_outbuf run_world) = 4096"
  using http_run.connect [OF http_run.start [of run_world], of 7 False False] by (simp_all add: run_sample_def run_world_def world_reset_def)

theorem http_slots_exclusive_witness: "length (sv_clients run_sample) = 4 \<and> (hc_inuse (sv_clients run_sample ! 0) \<longleftrightarrow> (\<exists>c \<in> {7}. sv_reverse run_sample c = Some 0))"
  using http_slots_exclusive [OF run_sample] by simp

theorem http_admission_witness:
  "sv_posts (http_server_conn_cb True False 8 run_sample) = [8] \<and>
   (\<exists>i < 4. sv_reverse (http_server_conn_cb False False 8 run_sample) 8 = Some i)"
proof -
  have "served run_sample {7} \<subseteq> {7}" by (auto simp: served_def)
  then have "card (served run_sample {7}) < 4" using card_mono [of "{7}" "served run_sample {7}"] by simp
  moreover have "sv_posts run_sample = []"
    by (simp add: run_sample_def http_server_conn_cb_def http_init_def Let_def http_client0_def numeral_eq_Suc)
  ultimately show ?thesis using http_admission [OF run_sample, of 8 True False] http_admission [OF run_sample, of 8 False False] by fastforce
qed

end
