(* ===== verification/User_Init.thy ===== *)
theory User_Init
  imports Wifi Tsl2561 Http_Slots Smtp_Session
begin

text \<open>
  The entry point and the periodic light monitor of \<^verbatim>\<open>src/user_init.c\<close>, which join the components. The state of
  the running system is the record \<open>system\<close>; a timer is armed with its period in milliseconds, and \<open>sys_log\<close>
  holds the messages that \<^verbatim>\<open>user_init\<close> itself logs. The monitor measures with \<open>tsl2561_lux\<close>, reads the clock with
  \<open>uptime_us\<close> and mails with \<open>smtp_send\<close>. The last section runs it together with the uptime handler.
\<close>

section \<open>The code\<close>


record monitor_state =
  mon_oldlux :: int
  mon_lastmail :: u64


text \<open>The static variables before \<^verbatim>\<open>user_init\<close> runs.\<close>

definition monitor_state0 :: monitor_state where
  "monitor_state0 = \<lparr>mon_oldlux = -1, mon_lastmail = 0\<rparr>"





text \<open>The condition under which the monitor mails, once it has a measurement.\<close>

definition monitor_due :: "int \<Rightarrow> u64 \<Rightarrow> monitor_state \<Rightarrow> bool" where
  "monitor_due lux now m \<longleftrightarrow>
     mon_oldlux m \<noteq> -1 \<and> lux > mon_oldlux m * 14 div 10 \<and> \<bar>sint (now - mon_lastmail m)\<bar> div 1000000 > 5 * 60"

text \<open>\<open>up\<close> and \<open>t\<close> are the uptime counter and the clock when it is read, \<open>subj\<close> is the array on the stack.\<close>

definition monitor ::
    "(nat \<Rightarrow> bool) \<Rightarrow> uptime_state \<Rightarrow> u32 \<Rightarrow> smtp_sdk \<Rightarrow> smtp_server \<Rightarrow> u32 \<Rightarrow> u8 list \<Rightarrow>
     monitor_state \<times> i2c_state \<times> smtp_state \<Rightarrow> monitor_state \<times> i2c_state \<times> smtp_state" where
  "monitor gpio up t sdk sv chip_id subj = (\<lambda>(m, i, s).
     (let (lux, i') = run_state (tsl2561_lux gpio) i in
      if lux \<noteq> -1 then
        let now = uptime_us up t;
            (m', s') =
              (if monitor_due lux now m then
                 (let subj = c_snprintf subj (ascii ''esp8266-'' @ fmt_08x chip_id @ ascii '' sharp lux increase'')
                  in (m\<lparr>mon_lastmail := now\<rparr>, smtp_send sdk sv (cstr (sv_from sv)) (cstr (sv_to sv)) (cstr subj) [] s))
               else (m, s))
        in (m'\<lparr>mon_oldlux := lux\<rparr>, i', s')
      else (m, i', s)))"

section \<open>Lemmas\<close>

text \<open>The distance of two readings of the clock.\<close>

lemma sint_difference:
  fixes a b :: u64
  assumes "unat a \<le> unat b" "unat b < 2 ^ 63"
  shows "sint (b - a) = int (unat b - unat a)"
proof -
  have "a \<le> b" using assms(1) by (simp add: word_le_nat_alt)
  then have u: "unat (b - a) = unat b - unat a" by (rule unat_sub)
  have n: "int n = signed_take_bit 63 (int n)" if "n < 2 ^ 63" for n using that by (simp add: signed_take_bit_int_eq_self)
  have "sint (b - a) = signed_take_bit 63 (int (unat (b - a)))" unfolding sint_uint uint_nat by simp
  also have "\<dots> = int (unat b - unat a)" unfolding u using n [of "unat b - unat a"] assms(2) by simp
  finally show ?thesis .
qed

lemma increase_40_percent: "0 \<le> old \<Longrightarrow> lux > old * 14 div 10 \<longleftrightarrow> 10 * lux > 14 * (old :: int)"
  by linarith

lemma monitor_due_iff:
  assumes "unat (mon_lastmail m) \<le> unat now" "unat now < 2 ^ 63" "-1 \<le> mon_oldlux m"
  shows "monitor_due lux now m \<longleftrightarrow>
    mon_oldlux m \<noteq> -1 \<and> 10 * lux > 14 * mon_oldlux m \<and> unat (mon_lastmail m) + 301000000 \<le> unat now"
proof -
  define n where "n = unat now - unat (mon_lastmail m)"
  have a: "\<bar>sint (now - mon_lastmail m)\<bar> = int n" using sint_difference [OF assms(1,2)] by (simp add: n_def)
  have b: "int k div 1000000 > 5 * 60 \<longleftrightarrow> 301000000 \<le> k" for k by linarith
  have c: "301000000 \<le> n \<longleftrightarrow> unat (mon_lastmail m) + 301000000 \<le> unat now" using assms(1) by (auto simp: n_def)
  have "mon_oldlux m \<noteq> -1 \<Longrightarrow> 0 \<le> mon_oldlux m" using assms(3) by simp
  then show ?thesis unfolding monitor_due_def a b c using increase_40_percent by blast
qed

text \<open>What a measurement leaves behind, in terms of the invariant of the bus.\<close>

definition bus_ready :: "bus \<Rightarrow> i2c_state \<Rightarrow> bool" where
  "bus_ready b0 i \<longleftrightarrow> i2c_inv b0 i \<and> wire_phase (i2c_view b0 i) = Idle"

lemma measure_ready:
  assumes "bus_ready b0 i"
  shows "bus_ready b0 (snd (run_state (tsl2561_lux gpio) i)) \<and>
    (fst (run_state (tsl2561_lux gpio) i) = -1 \<or> fst (run_state (tsl2561_lux gpio) i) \<in> {0..2568})"
  using lux_implements [of b0 gpio] wire_lux_clean [of "i2c_view b0 i" gpio] assms
  by (simp add: implements_def clean_result_def adds_clean_def bus_ready_def)

lemma mail_subject:
  assumes "length subj = 64"
  shows "cstr (c_snprintf subj (ascii ''esp8266-'' @ fmt_08x chip_id @ ascii '' sharp lux increase'')) =
    ssid_text chip_id @ ascii '' sharp lux increase''"
proof -
  have "0 \<notin> set (ssid_text chip_id @ ascii '' sharp lux increase'')" "length (ssid_text chip_id @ ascii '' sharp lux increase'') = 35"
    using ssid_text [of chip_id] by (auto simp: ascii_def)
  moreover have "subj \<noteq> []" using assms by auto
  ultimately show ?thesis
    using cstr_snprintf [of "ssid_text chip_id @ ascii '' sharp lux increase''" subj] assms by (simp add: ssid_text_def)
qed

text \<open>The invariant of the monitor.\<close>

definition monitor_inv :: "bus \<Rightarrow> monitor_state \<times> i2c_state \<times> smtp_state \<Rightarrow> bool" where
  "monitor_inv b0 = (\<lambda>(m, i, s). bus_ready b0 i \<and> -1 \<le> mon_oldlux m \<and> mon_oldlux m \<le> 2568)"

lemma monitor_result:
  fixes gpio :: "nat \<Rightarrow> bool"
  assumes "monitor_inv b0 (m, i, s)" "unat (mon_lastmail m) \<le> unat (uptime_us up t)" "unat (uptime_us up t) < 2 ^ 63" "length subj = 64"
  defines "lux \<equiv> fst (run_state (tsl2561_lux gpio) i)"
  shows "monitor gpio up t sdk sv chip_id subj (m, i, s) =
    (let mail = (lux \<noteq> -1 \<and> mon_oldlux m \<noteq> -1 \<and> 10 * lux > 14 * mon_oldlux m \<and> unat (mon_lastmail m) + 301000000 \<le> unat (uptime_us up t))
     in (\<lparr>mon_oldlux = if lux = -1 then mon_oldlux m else lux, mon_lastmail = if mail then uptime_us up t else mon_lastmail m\<rparr>,
         snd (run_state (tsl2561_lux gpio) i),
         if mail then smtp_send sdk sv (cstr (sv_from sv)) (cstr (sv_to sv)) (ssid_text chip_id @ ascii '' sharp lux increase'') [] s else s))"
  using assms(1) monitor_due_iff [OF assms(2,3)]
  by (cases "run_state (tsl2561_lux gpio) i")
    (simp add: monitor_def lux_def Let_def mail_subject [OF assms(4)] monitor_inv_def)

lemma monitor_keeps:
  assumes "monitor_inv b0 (m, i, s)"
  shows "monitor_inv b0 (monitor gpio up t sdk sv chip_id subj (m, i, s))"
  using assms measure_ready [of b0 i gpio]
  by (cases "run_state (tsl2561_lux gpio) i") (auto simp: monitor_def monitor_inv_def Let_def)

section \<open>Properties\<close>

text \<open>
  C32: one run of the monitor. On an idle bus and with a clock below \<open>2 ^ 63\<close> microseconds that has not gone back, it
  sends its mail exactly when the measurement succeeded, a previous one exists, the light has grown by more than 40
  percent, and at least 301 seconds have passed since the last such mail; it remembers the new reading and
  the time of the mail, a failed measurement changes nothing, and the bus is idle again afterwards.
\<close>

theorem monitor_step:
  fixes gpio :: "nat \<Rightarrow> bool"
  assumes "monitor_inv b0 (m, i, s)" "unat (mon_lastmail m) \<le> unat (uptime_us up t)" "unat (uptime_us up t) < 2 ^ 63" "length subj = 64"
  defines "lux \<equiv> fst (run_state (tsl2561_lux gpio) i)"
  shows "monitor_inv b0 (monitor gpio up t sdk sv chip_id subj (m, i, s)) \<and>
    monitor gpio up t sdk sv chip_id subj (m, i, s) =
    (let mail = (lux \<noteq> -1 \<and> mon_oldlux m \<noteq> -1 \<and> 10 * lux > 14 * mon_oldlux m \<and> unat (mon_lastmail m) + 301000000 \<le> unat (uptime_us up t))
     in (\<lparr>mon_oldlux = if lux = -1 then mon_oldlux m else lux, mon_lastmail = if mail then uptime_us up t else mon_lastmail m\<rparr>,
         snd (run_state (tsl2561_lux gpio) i),
         if mail then smtp_send sdk sv (cstr (sv_from sv)) (cstr (sv_to sv)) (ssid_text chip_id @ ascii '' sharp lux increase'') [] s else s))"
  using monitor_keeps [OF assms(1)] monitor_result [OF assms(1-4)] unfolding lux_def by blast

section \<open>The two timers\<close>

text \<open>
  Runs of the uptime handler and of the monitor, at the true times (in microseconds since power-up) at which they read the
  32-bit clock; the handler reads it three times. Each run has its own answers of the SDK, the account of the moment and
  an array on the stack.
\<close>

datatype timer_run =
    Uptime_run nat nat nat smtp_sdk smtp_server "u8 list"
  | Monitor_run nat "nat \<Rightarrow> bool" smtp_sdk smtp_server "u8 list"

type_synonym timer_state = "uptime_state \<times> monitor_state \<times> i2c_state \<times> smtp_state"

fun timer_step :: "u32 \<Rightarrow> timer_run \<Rightarrow> timer_state \<Rightarrow> timer_state" where
  "timer_step chip_id (Uptime_run t1 t t2 sdk sv subj) (up, m, i, s) =
     (let (up', mail) = uptime_handler chip_id subj (of_nat t1) (of_nat t) (of_nat t2) up
      in (up', m, i, case mail of None \<Rightarrow> s | Some subj \<Rightarrow> smtp_send sdk sv (cstr (sv_from sv)) (cstr (sv_to sv)) (cstr subj) [] s))"
| "timer_step chip_id (Monitor_run t gpio sdk sv subj) (up, m, i, s) =
     (let (m', i', s') = monitor gpio up (of_nat t) sdk sv chip_id subj (m, i, s) in (up, m', i', s'))"

text \<open>
  Time does not go back, and at every run the last one of the handler, at \<open>h\<close>, is at most a clock period less 301 seconds
  ago, that is about 66 minutes; the firmware arms the handler's timer with 20 minutes. \<open>n\<close> is the present.
\<close>

fun timeline :: "nat \<Rightarrow> nat \<Rightarrow> timer_run list \<Rightarrow> bool" where
  "timeline h n [] = True"
| "timeline h n (Uptime_run t1 t t2 sdk sv subj # rs) = (n \<le> t1 \<and> t1 \<le> t \<and> t \<le> t2 \<and> t + 301000000 \<le> h + 2 ^ 32 \<and> timeline t t2 rs)"
| "timeline h n (Monitor_run t gpio sdk sv subj # rs) =
     (n \<le> t \<and> t < 2 ^ 63 \<and> t + 301000000 \<le> h + 2 ^ 32 \<and> length subj = 64 \<and> timeline h t rs)"

text \<open>The light mails: the true time of each, and the time of the last run of the handler before it.\<close>

fun light_mails :: "u32 \<Rightarrow> nat \<Rightarrow> timer_run list \<Rightarrow> timer_state \<Rightarrow> (nat \<times> nat) list" where
  "light_mails chip_id h [] st = []"
| "light_mails chip_id h (Uptime_run t1 t t2 sdk sv subj # rs) st = light_mails chip_id t rs (timer_step chip_id (Uptime_run t1 t t2 sdk sv subj) st)"
| "light_mails chip_id h (Monitor_run t gpio sdk sv subj # rs) (up, m, i, s) =
     (let lux = fst (run_state (tsl2561_lux gpio) i)
      in (if lux \<noteq> -1 \<and> monitor_due lux (uptime_us up (of_nat t)) m then [(t, h)] else []) @
         light_mails chip_id h rs (timer_step chip_id (Monitor_run t gpio sdk sv subj) (up, m, i, s)))"

text \<open>The clock has wrapped and the handler has not counted it yet; \<open>uptime_us\<close> is then a period too small.\<close>

definition uncounted :: "nat \<times> nat \<Rightarrow> bool" where
  "uncounted a \<longleftrightarrow> fst a div 2 ^ 32 \<noteq> snd a div 2 ^ 32"

definition reading :: "nat \<times> nat \<Rightarrow> nat" where
  "reading a = (if uncounted a then fst a - 2 ^ 32 else fst a)"

lemma reading_us: "h \<le> t \<Longrightarrow> t - h < 2 ^ 32 \<Longrightarrow> t < 2 ^ 63 \<Longrightarrow> unat (uptime_us (uptime_at h) (of_nat t)) = reading (t, h)"
  using uptime_us_reading [of h t] by (simp add: reading_def uncounted_def)

lemma uncounted_ge: "uncounted (t, h) \<Longrightarrow> h \<le> t \<Longrightarrow> 2 ^ 32 \<le> t"
  by (rule ccontr) (auto simp: uncounted_def)

lemma due_distance:
  assumes "monitor_due lux now m" "unat now < 2 ^ 63" "unat (mon_lastmail m) < 2 ^ 63"
  shows "301000000 \<le> \<bar>int (unat now) - int (unat (mon_lastmail m))\<bar>"
proof -
  have "\<bar>sint (now - mon_lastmail m)\<bar> = \<bar>int (unat now) - int (unat (mon_lastmail m))\<bar>"
  proof (cases "unat (mon_lastmail m) \<le> unat now")
    case True
    then show ?thesis using sint_difference [OF True assms(2)] by simp
  next
    case False
    then have d: "sint (mon_lastmail m - now) = int (unat (mon_lastmail m) - unat now)" using sint_difference assms(3) by simp
    have "sint (now - mon_lastmail m) = - sint (mon_lastmail m - now)"
    proof -
      have "\<bar>sint (mon_lastmail m - now)\<bar> < 2 ^ 63" using d assms(3) by simp
      then have "signed_take_bit 63 (- sint (mon_lastmail m - now)) = - sint (mon_lastmail m - now)"
        by (intro signed_take_bit_int_eq_self) simp_all
      moreover have "now - mon_lastmail m = - (mon_lastmail m - now)" by simp
      ultimately show ?thesis using sint_word_ariths(4) [of "mon_lastmail m - now"] by simp
    qed
    then show ?thesis using d False by simp
  qed
  moreover have "301 \<le> \<bar>sint (now - mon_lastmail m)\<bar> div 1000000" using assms(1) by (simp add: monitor_due_def)
  ultimately show ?thesis by linarith
qed

text \<open>What holds of two consecutive light mails.\<close>

definition mail_gap :: "nat \<times> nat \<Rightarrow> nat \<times> nat \<Rightarrow> bool" where
  "mail_gap a b \<longleftrightarrow> (uncounted a \<longleftrightarrow> uncounted b) \<longrightarrow> fst a + 301000000 \<le> fst b"

definition mail_order :: "nat \<times> nat \<Rightarrow> nat \<times> nat \<Rightarrow> bool" where
  "mail_order a b \<longleftrightarrow> fst a \<le> fst b \<and> snd a \<le> snd b \<and> (\<forall>c \<in> {a, b}. snd c \<le> fst c \<and> fst c + 301000000 \<le> snd c + 2 ^ 32)"

lemma mail_gapI:
  assumes "monitor_due lux now m" "unat now = reading (t, h)" "unat (mon_lastmail m) = reading a" "t < 2 ^ 63" "mail_order a (t, h)"
  shows "mail_gap a (t, h)"
proof -
  obtain ta ha where a: "a = (ta, ha)" by fastforce
  have o: "ta \<le> t" "ha \<le> ta" "h \<le> t" using assms(5) by (simp_all add: mail_order_def a)
  have "unat now < 2 ^ 63" "unat (mon_lastmail m) < 2 ^ 63" using assms(2-4) o(1) by (auto simp: reading_def a)
  then have d: "301000000 \<le> \<bar>int (reading (t, h)) - int (reading a)\<bar>" using due_distance [OF assms(1)] assms(2,3) by simp
  show ?thesis unfolding mail_gap_def using d o uncounted_ge [of t h] uncounted_ge [of ta ha] by (auto simp: reading_def a)
qed

lemma light_mails_spaced:
  assumes "timeline h n rs" "monitor_inv b0 (m, i, s)" "unat (mon_lastmail m) = reading a" "fst a \<le> n" "h \<le> n" "mail_order a (n, h) \<or> snd a \<le> h"
    and "snd a \<le> fst a" "fst a + 301000000 \<le> snd a + 2 ^ 32"
  shows "successively (\<lambda>a b. mail_gap a b \<and> mail_order a b) (a # light_mails chip_id h rs (uptime_at h, m, i, s))"
  using assms
proof (induction rs arbitrary: h n m i s a)
  case (Cons r rs)
  have ah: "snd a \<le> h" using Cons.prems(6) by (auto simp: mail_order_def)
  show ?case
  proof (cases r)
    case (Uptime_run t1 t t2 sdk sv subj)
    have t: "n \<le> t" "t \<le> t2" "t - h < 2 ^ 32" "timeline t t2 rs" using Cons.prems(1) Uptime_run by auto
    then have "fst (uptime_handler chip_id subj (of_nat t1) (of_nat t) (of_nat t2) (uptime_at h)) = uptime_at t"
      using uptime_handler_state [of h t] Cons.prems(5) by simp
    then obtain s' where "timer_step chip_id r (uptime_at h, m, i, s) = (uptime_at t, m, i, s')"
      using Uptime_run by (auto simp: case_prod_beta)
    moreover have "monitor_inv b0 (m, i, s')" using Cons.prems(2) by (simp add: monitor_inv_def)
    ultimately show ?thesis using Cons.IH [OF t(4), of m i s' a] Cons.prems(3,4,5,7,8) Uptime_run t ah by simp
  next
    case (Monitor_run t gpio sdk sv subj)
    have t: "n \<le> t" "t < 2 ^ 63" "t + 301000000 \<le> h + 2 ^ 32" "timeline h t rs" using Cons.prems(1) Monitor_run by auto
    have ht: "h \<le> t" using Cons.prems(5) t(1) by simp
    define now where "now = uptime_us (uptime_at h) (of_nat t)"
    define lux where "lux = fst (run_state (tsl2561_lux gpio) i)"
    have now: "unat now = reading (t, h)" unfolding now_def by (rule reading_us) (use t ht in simp_all)
    obtain m' i' s' where r: "monitor gpio (uptime_at h) (of_nat t) sdk sv chip_id subj (m, i, s) = (m', i', s')" by (metis prod_cases3)
    have m': "mon_lastmail m' = (if lux \<noteq> -1 \<and> monitor_due lux now m then now else mon_lastmail m)"
      using r unfolding monitor_def lux_def now_def by (auto simp: Let_def case_prod_beta split: if_splits)
    have inv: "monitor_inv b0 (m', i', s')" using monitor_keeps [OF Cons.prems(2)] r by metis
    have o: "mail_order a (t, h)" using Cons.prems(4,7,8) t(1,3) ht ah by (simp add: mail_order_def)
    have step: "light_mails chip_id h (r # rs) (uptime_at h, m, i, s) =
        (if lux \<noteq> -1 \<and> monitor_due lux now m then [(t, h)] else []) @ light_mails chip_id h rs (uptime_at h, m', i', s')"
      using r Monitor_run by (simp add: lux_def now_def)
    show ?thesis
    proof (cases "lux \<noteq> -1 \<and> monitor_due lux now m")
      case True
      then have "mail_gap a (t, h)" using mail_gapI [OF _ now Cons.prems(3) t(2) o] by blast
      moreover have "successively (\<lambda>a b. mail_gap a b \<and> mail_order a b) ((t, h) # light_mails chip_id h rs (uptime_at h, m', i', s'))"
        by (rule Cons.IH [OF t(4) inv]) (use True m' now ht t(3) in simp_all)
      ultimately show ?thesis using o True step by simp
    next
      case False
      have "successively (\<lambda>a b. mail_gap a b \<and> mail_order a b) (a # light_mails chip_id h rs (uptime_at h, m', i', s'))"
        by (rule Cons.IH [OF t(4) inv]) (use False m' Cons.prems(3,4,7,8) ht t(1) ah in auto)
      then show ?thesis unfolding step using False by (simp only: if_False append_Nil)
    qed
  qed
qed simp

text \<open>Two uncounted mails with a counted one in between belong to different wraps of the clock.\<close>

lemma uncounted_apart:
  assumes "mail_order a b" "mail_order b c" "uncounted a" "\<not> uncounted b" "uncounted c"
  shows "fst a + 301000000 \<le> fst c"
proof -
  define P :: nat where "P = 2 ^ 32"
  define k where "k = fst a div P"
  have o: "fst a \<le> fst b" "snd b \<le> snd c" "snd a \<le> fst a" "snd c \<le> fst c" "fst a + 301000000 \<le> snd a + P"
    using assms(1,2) by (simp_all add: mail_order_def P_def)
  have "k \<le> fst b div P" using o(1) by (simp add: k_def div_le_mono)
  also have "\<dots> = snd b div P" using assms(4) by (simp add: uncounted_def P_def)
  also have "\<dots> \<le> snd c div P" using o(2) by (rule div_le_mono)
  also have "\<dots> < fst c div P" using assms(5) div_le_mono [OF o(4), of P] by (simp add: uncounted_def P_def)
  finally have "(k + 1) * P \<le> fst c div P * P" by (intro mult_le_mono1) simp
  then have c: "k * P + P \<le> fst c" using div_times_less_eq_dividend [of "fst c" P] by (simp only: add_mult_distrib mult_1)
  have "snd a div P < k" using assms(3) div_le_mono [OF o(3), of P] by (simp add: uncounted_def P_def k_def)
  then have "snd a < k * P" by (simp add: P_def div_less_iff_less_mult)
  then show ?thesis using c o(5) by linarith
qed

lemma four_mails:
  assumes "mail_gap a b" "mail_order a b" "mail_gap b c" "mail_order b c" "mail_gap c d" "mail_order c d"
  shows "fst a + 301000000 \<le> fst d"
proof -
  have o: "fst a \<le> fst b" "fst b \<le> fst c" "fst c \<le> fst d" using assms(2,4,6) by (simp_all add: mail_order_def)
  consider "uncounted a = uncounted b" | "uncounted b = uncounted c" | "uncounted c = uncounted d"
    | "uncounted a" "\<not> uncounted b" "uncounted c" | "uncounted b" "\<not> uncounted c" "uncounted d" by blast
  then show ?thesis
  proof cases
    case 4
    then show ?thesis using uncounted_apart [OF assms(2,4)] o by simp
  next
    case 5
    then show ?thesis using uncounted_apart [OF assms(4,6)] o by simp
  qed (use assms(1,3,5) o in \<open>simp_all add: mail_gap_def\<close>)
qed

text \<open>
  C18: how often light mails are sent. Whenever the timers run the monitor and the uptime handler (the latter at least every
  66 minutes) and whatever the sensor reports, two consecutive light mails are at least 301 seconds of true time apart, and
  the first one is sent no earlier than 301 seconds after the start, except when the clock has wrapped and the handler has
  not counted it yet at one of the two mails and not at the other: the monitor then compares readings that are a clock
  period apart. Even so there are never more than three light mails within 301 seconds.
\<close>

theorem monitor_rate_limit:
  fixes chip_id :: u32 and s :: smtp_state
  assumes "timeline 0 0 rs" "bus_ready b0 i"
  defines "mails \<equiv> (0, 0) # light_mails chip_id 0 rs (\<lparr>uptime_high = 0, uptime_last = 0\<rparr>, monitor_state0, i, s)"
  shows "successively (\<lambda>a b. (uncounted a \<longleftrightarrow> uncounted b) \<longrightarrow> fst a + 301000000 \<le> fst b) mails \<and>
    (\<forall>k. k + 3 < length mails \<longrightarrow> fst (mails ! k) + 301000000 \<le> fst (mails ! (k + 3)))"
proof -
  have up: "\<lparr>uptime_high = 0, uptime_last = 0\<rparr> = uptime_at 0" by (simp add: uptime_at_def)
  have inv: "monitor_inv b0 (monitor_state0, i, s)" using assms(2) by (simp add: monitor_inv_def monitor_state0_def)
  have g: "successively (\<lambda>a b. mail_gap a b \<and> mail_order a b) mails"
    unfolding mails_def up by (rule light_mails_spaced [OF assms(1) inv]) (simp_all add: monitor_state0_def reading_def uncounted_def)
  then have n: "mail_gap (mails ! k) (mails ! Suc k) \<and> mail_order (mails ! k) (mails ! Suc k)" if "Suc k < length mails" for k
    using that by (simp add: successively_conv_nth)
  have "fst (mails ! k) + 301000000 \<le> fst (mails ! (k + 3))" if "k + 3 < length mails" for k
    using four_mails [of "mails ! k" "mails ! Suc k" "mails ! Suc (Suc k)" "mails ! Suc (Suc (Suc k))"]
      n [of k] n [of "Suc k"] n [of "Suc (Suc k)"] that by (simp add: numeral_3_eq_3)
  moreover have "successively mail_gap mails" using g by (rule successively_mono) simp
  ultimately show ?thesis unfolding mail_gap_def by blast
qed

text \<open>
  The exception is real: with the handler at 20, 40 and 60 minutes after the start, the monitor finds a mail due at 4320 seconds
  though the last one was sent 30 seconds before.
\<close>

lemma monitor_wrap_due:
  fixes chip_id :: u32 and subj :: "u8 list"
  defines "up \<equiv> uptime_runs chip_id subj [1200000000, 2400000000, 3600000000]"
  shows "monitor_due 7 (uptime_us up (of_nat 4320000000)) \<lparr>mon_oldlux = 4, mon_lastmail = uptime_us up (of_nat 4290000000)\<rparr>"
proof -
  have "up = uptime_at 3600000000" unfolding up_def by (subst uptime_runs) simp_all
  then show ?thesis by (simp add: uptime_at_def uptime_us_def monitor_due_def)
qed


section \<open>Witnesses\<close>

text \<open>A clock at 400 seconds, a sensor that reports 7 lux after 4, and a mail client without an account.\<close>

definition runs_sample :: "timer_run list" where
  "runs_sample =
     [Monitor_run 400000000 sensor_sample mail_sdk_sample (server_of_bytes (replicate 450 0)) (replicate 64 0),
      Uptime_run 1200000000 1200000001 1200000002 mail_sdk_sample (server_of_bytes (replicate 450 0)) (replicate 64 0)]"

lemma bus_ready_rest: "bus_ready bus_idle i2c_rest"
  by (simp add: bus_ready_def)

lemma sensor_sample_lux: "fst (run_state (tsl2561_lux sensor_sample) i2c_rest) = 7"
proof -
  have "list_all (\<lambda>i. \<not> sensor_sample (0 + i)) lux_acks" by (simp add: lux_acks_def sensor_sample_def)
  then have "fst (wire_lux sensor_sample (i2c_view bus_idle i2c_rest)) = uint (calc_lux 1 2 0 256 16)"
    using wire_lux_reading [of sensor_sample "i2c_view bus_idle i2c_rest"]
    by (simp add: i2c_view_def i2c_bus_def i2c_rest_def bus_idle_def word_in_def sensor_sample_bytes)
  moreover have "fst (run_state (tsl2561_lux sensor_sample) i2c_rest) = fst (wire_lux sensor_sample (i2c_view bus_idle i2c_rest))"
    using lux_implements [of bus_idle sensor_sample] by (simp add: implements_def)
  ultimately show ?thesis by (simp add: calc_lux_used lux_exact_def lux_from_def lux_coeffs_T_def)
qed

theorem monitor_step_witness:
  "mon_lastmail (fst (monitor sensor_sample \<lparr>uptime_high = 0, uptime_last = 0\<rparr> 400000000 mail_sdk_sample
     (server_of_bytes (replicate 450 0)) 5 (replicate 64 0) (\<lparr>mon_oldlux = 4, mon_lastmail = 0\<rparr>, i2c_rest, smtp_state0))) = 400000000"
  using monitor_step [of bus_idle "\<lparr>mon_oldlux = 4, mon_lastmail = 0\<rparr>" i2c_rest smtp_state0 "\<lparr>uptime_high = 0, uptime_last = 0\<rparr>"
      400000000 "replicate 64 0" sensor_sample mail_sdk_sample "server_of_bytes (replicate 450 0)" 5]
  by (simp add: monitor_inv_def bus_ready_rest sensor_sample_lux uptime_us_def Let_def)

theorem monitor_rate_limit_witness:
  "successively (\<lambda>a b. (uncounted a \<longleftrightarrow> uncounted b) \<longrightarrow> fst a + 301000000 \<le> fst b)
     ((0, 0) # light_mails 5 0 runs_sample (\<lparr>uptime_high = 0, uptime_last = 0\<rparr>, monitor_state0, i2c_rest, smtp_state0))"
proof -
  have "timeline 0 0 runs_sample" by (simp add: runs_sample_def)
  from monitor_rate_limit [OF this bus_ready_rest, of 5 smtp_state0] show ?thesis by blast
qed



end
