(* ===== verification/Http_Request.thy ===== *)
theory Http_Request
  imports Http_Handlers
begin

text \<open>
  The parser of \<^verbatim>\<open>src/http/process.c\<close> on requests that are well formed: what it stores of the request line and
  of the header lines, however many there are.
\<close>

section \<open>Lines and tokens\<close>

definition token :: "u8 list \<Rightarrow> bool" where
  "token t \<longleftrightarrow> t \<noteq> [] \<and> list_all (\<lambda>c. \<not> is_ws c \<and> c \<noteq> 0) t"

lemma parseline_at:
  assumes "buf = pre @ line @ [13, 10] @ post" "13 \<notin> set line" "length line + 1 < len"
  shows "parseline buf (length pre) len = Some (Some (length pre + length line + 2))"
proof -
  have "parseline_loop buf (length pre) len i = Some (Some (length pre + length line + 2))" if "0 < i" "i \<le> length line + 1" for i
    using that
  proof (induction "length line + 1 - i" arbitrary: i)
    case 0
    then have "i = length line + 1" by simp
    then show ?case using assms by (subst parseline_loop.simps) (simp add: nth_append)
  next
    case (Suc k)
    then have i: "i - 1 < length line" by simp
    moreover have "length pre + i - 1 = length pre + (i - 1)" using Suc.prems by simp
    ultimately have "buf ! (length pre + i - 1) = line ! (i - 1)" using assms(1) by (simp only: nth_append) simp
    moreover have "line ! (i - 1) \<noteq> 13" using assms(2) i by (metis nth_mem)
    moreover have "i < len" "\<not> length pre + i - 1 \<ge> length buf" using assms(1,3) i Suc.prems by simp_all
    ultimately have "parseline_loop buf (length pre) len i = parseline_loop buf (length pre) len (i + 1)"
      unfolding parseline_loop.simps [of buf "length pre" len i] by simp
    then show ?case using Suc by simp
  qed
  from this [of 1] show ?thesis by (simp add: parseline_def)
qed

lemma parsetoken_at:
  assumes b: "buf = pre @ sp @ tok @ [w] @ post" and t: "list_all is_ws sp" "token tok" "is_ws w" and len: "length sp + length tok \<le> len"
  shows "parsetoken buf (length pre) len = Some (Some (length pre + length sp, length pre + length sp + length tok))"
proof -
  have tok: "\<not> is_ws (tok ! j)" if "j < length tok" for j using t(2) that by (simp add: token_def list_all_length)
  have pos: "0 < length tok" using t(2) by (simp add: token_def)
  have "token_skip buf (length pre) len i = Some (Some (length sp))" if "i \<le> length sp" for i
    using that
  proof (induction "length sp - i" arbitrary: i)
    case 0
    then show ?case using b tok [of 0] pos by (subst token_skip.simps) (simp add: nth_append)
  next
    case (Suc k)
    then have i: "i < length sp" by simp
    then have "is_ws (buf ! (length pre + i))" using b t(1) by (simp add: nth_append list_all_length)
    then show ?case using Suc i b len pos by (subst token_skip.simps) simp
  qed
  from this [of 0] have skip: "token_skip buf (length pre) len 0 = Some (Some (length sp))" by simp
  have "token_end buf (length pre) len i = Some (length sp + length tok)" if "length sp < i" "i \<le> length sp + length tok" for i
    using that
  proof (induction "length sp + length tok - i" arbitrary: i)
    case 0
    then have "i = length sp + length tok" by simp
    then show ?case using b t(3) by (subst token_end.simps) (simp add: nth_append)
  next
    case (Suc k)
    then have i: "i - length sp < length tok" "length sp < i" by auto
    then have "buf ! (length pre + i) = tok ! (i - length sp)" using b by (simp add: nth_append)
    then show ?case using Suc i b tok [OF i(1)] len by (subst token_end.simps) simp
  qed
  from this [of "length sp + 1"] pos have "token_end buf (length pre) len (length sp + 1) = Some (length sp + length tok)" by simp
  then show ?thesis using skip by (simp add: parsetoken_def)
qed

text \<open>The comparison with a literal looks at the shorter of the two.\<close>

definition names :: "u8 list \<Rightarrow> u8 list \<Rightarrow> bool" where
  "names lit t \<longleftrightarrow> take (min (length t) (length lit)) t = take (min (length t) (length lit)) lit"

lemma token_is_at:
  assumes "buf = pre @ tok @ post" "token tok"
  shows "token_is buf (length pre, length pre + length tok) lit = names lit tok"
proof -
  have "\<forall>k < min (length tok) (length lit). (tok @ post) ! k \<noteq> 0" using assms(2) by (simp add: token_def list_all_length nth_append)
  then show ?thesis
    using strncmp_eq_prefix [of "min (length tok) (length lit)" "tok @ post" lit] assms(1) by (simp add: token_is_def names_def)
qed

section \<open>Header lines\<close>

definition header :: "u8 list \<times> u8 list \<Rightarrow> u8 list" where
  "header h = fst h @ [32] @ snd h @ [13, 10]"

text \<open>
  A header line: a name, a blank and a value of any bytes without a line end. The two headers that are looked at have one token as
  their value: a host name that leaves room for the NUL, a length of digits.
\<close>

definition header_ok :: "u8 list \<times> u8 list \<Rightarrow> bool" where
  "header_ok h \<longleftrightarrow> token (fst h) \<and> 13 \<notin> set (snd h) \<and>
     (names (ascii ''Host:'') (fst h) \<longrightarrow> token (snd h) \<and> length (snd h) < 64) \<and>
     (\<not> names (ascii ''Host:'') (fst h) \<and> names (ascii ''Content-Length:'') (fst h) \<longrightarrow> snd h \<noteq> [] \<and> set (snd h) \<subseteq> {48..57})"

definition header_effect :: "u8 list \<times> u8 list \<Rightarrow> http_client \<Rightarrow> http_client" where
  "header_effect h c =
     (if names (ascii ''Host:'') (fst h) then c\<lparr>hc_host := patch (hc_host c) 0 (snd h @ [0])\<rparr>
      else if names (ascii ''Content-Length:'') (fst h) then c\<lparr>hc_postlen := word_of_int (c_atoi (snd h))\<rparr>
      else c)"

lemma patch_nul: "length t < length xs \<Longrightarrow> (patch xs 0 t)[length t := 0] = patch xs 0 (t @ [0])"
  by (simp add: patch_def list_update_append) (metis Cons_nth_drop_Suc list_update_code(2))

lemma c_atoi_digits:
  assumes "set v \<subseteq> {48..57}" "v \<noteq> []"
  shows "c_atoi (v @ 13 # post) = c_atoi v"
proof -
  obtain d ds where v: "v = d # ds" using assms(2) by (cases v) auto
  have a: "48 \<le> c \<and> c \<le> 57" if "c \<in> set v" for c using assms(1) that by auto
  have d: "\<not> (d = 32 \<or> (9 \<le> d \<and> d \<le> 13))" "d \<noteq> 45" "d \<noteq> 43" using a [of d] v by (auto simp: word_le_nat_alt)
  let ?d = "dropWhile (\<lambda>c. c = 32 \<or> (9 \<le> c \<and> c \<le> 13))" and ?t = "takeWhile (\<lambda>c. 48 \<le> c \<and> c \<le> 57)"
  have dw: "?d (v @ 13 # post) = v @ 13 # post" "?d v = v" using d(1) by (auto simp: v)
  have "?t (v @ 13 # post) = v @ ?t (13 # post)" by (rule takeWhile_append2) (rule a)
  then have tw: "?t (v @ 13 # post) = v" "?t v = v" using a by (simp_all add: takeWhile_eq_all_conv)
  have hd: "hd (v @ 13 # post) \<noteq> 45" "hd (v @ 13 # post) \<noteq> 43" "hd v \<noteq> 45" "hd v \<noteq> 43" using d by (simp_all add: v)
  show ?thesis unfolding c_atoi_def Let_def dw using hd tw by (simp only: simp_thms if_False)
qed

lemma digits_token: "v \<noteq> [] \<Longrightarrow> set v \<subseteq> {48..57} \<Longrightarrow> token v"
  by (auto simp: token_def is_ws_def list_all_iff)

lemma ptr_diff_le: "q \<le> p \<Longrightarrow> p < 2 ^ 32 \<Longrightarrow> ptr_diff p q = p - q"
proof -
  assume "q \<le> p" "p < 2 ^ 32"
  then have "(int p - int q) mod 2 ^ 32 = int p - int q" by (intro mod_pos_pos_trivial) simp_all
  then show "ptr_diff p q = p - q" using \<open>q \<le> p\<close> unfolding ptr_diff_def by simp
qed

lemma header_line_at:
  assumes b: "hc_buf c = pre @ header h @ post" and h: "header_ok h" and l: "length (hc_buf c) = 2048" "length (hc_host c) = 64"
  shows "header_line (length pre) (length pre + length (header h)) c = Go (header_effect h c)"
proof -
  obtain n v where nv: "h = (n, v)" by fastforce
  have t: "token n" "names (ascii ''Host:'') n \<or> names (ascii ''Content-Length:'') n \<Longrightarrow> token v"
    using h nv digits_token by (auto simp: header_ok_def)
  have e: "hc_buf c = pre @ n @ [32] @ v @ [13] @ [10] @ post" using b nv by (simp add: header_def)
  have len: "length (header h) = length n + length v + 3" using nv by (simp add: header_def)
  have sz: "length pre + length (header h) \<le> 2048" using b l(1) by simp
  have 1: "parsetoken (hc_buf c) (length pre) (ptr_diff (length pre + length (header h)) (length pre)) = Some (Some (length pre, length pre + length n))"
    using parsetoken_at [of "hc_buf c" pre "[]" n 32 "v @ [13] @ [10] @ post"] e t len sz by (simp add: ptr_diff_le is_ws_def)
  have 2: "parsetoken (hc_buf c) (length pre + length n) (ptr_diff (length pre + length (header h)) (length pre + length n)) =
      Some (Some (length pre + length n + 1, length pre + length n + 1 + length v))"
    if "names (ascii ''Host:'') n \<or> names (ascii ''Content-Length:'') n"
    using that parsetoken_at [of "hc_buf c" "pre @ n" "[32]" v 13 "[10] @ post"] e t(2) len sz by (simp add: ptr_diff_le is_ws_def)
  have nm: "token_is (hc_buf c) (length pre, length pre + length n) lit = names lit n" for lit
    using token_is_at [of "hc_buf c" pre n] e t(1) by simp
  have val: "take (length v) (drop (length pre + length n + 1) (hc_buf c)) = v" "drop (length pre + length n + 1) (hc_buf c) = v @ 13 # 10 # post"
    unfolding e by simp_all
  have "set_host v c = header_effect h c" if "names (ascii ''Host:'') n"
    using that h nv l(2) patch_nul [of v "hc_host c"] by (simp add: header_ok_def set_host_def header_effect_def Let_def)
  moreover have "c_atoi (v @ 13 # 10 # post) = c_atoi v" if "\<not> names (ascii ''Host:'') n" "names (ascii ''Content-Length:'') n"
    using that h nv by (intro c_atoi_digits) (auto simp: header_ok_def)
  moreover have "names (ascii ''Host:'') n \<Longrightarrow> length v < 64" using h nv by (simp add: header_ok_def)
  ultimately show ?thesis unfolding header_line_def Let_def 1 option.case nm snd_conv fst_conv
    using 2 val nv by (cases "names (ascii ''Host:'') n"; cases "names (ascii ''Content-Length:'') n") (auto simp: header_effect_def)
qed

lemma header_effect_simps [simp]:
  "hc_buf (header_effect h c) = hc_buf c" "hc_bufused (header_effect h c) = hc_bufused c" "hc_method (header_effect h c) = hc_method c"
  "hc_url (header_effect h c) = hc_url c" "hc_conn (header_effect h c) = hc_conn c" "hc_inuse (header_effect h c) = hc_inuse c"
  by (simp_all add: header_effect_def)

lemma header_effect_host: "header_ok h \<Longrightarrow> length (hc_host c) = 64 \<Longrightarrow> length (hc_host (header_effect h c)) = 64"
  by (auto simp: header_effect_def header_ok_def)

lemma token_no_cr: "token t \<Longrightarrow> 13 \<notin> set t" "token t \<Longrightarrow> hd t \<noteq> 13"
  by (cases t; auto simp: token_def is_ws_def list_all_iff)+

lemma header_loop_at:
  assumes "hc_buf c = pre @ concat (map header hs) @ [13, 10] @ post" "list_all header_ok hs"
    and "length (hc_buf c) = 2048" "length (hc_host c) = 64" "length (concat (map header hs)) + 2 \<le> len"
  shows "header_loop (length pre) len c = Go (fold header_effect hs c, length pre + length (concat (map header hs)) + 2)"
  using assms
proof (induction hs arbitrary: pre c)
  case Nil
  then show ?case by (subst header_loop.simps) (simp add: nth_append)
next
  case (Cons h hs)
  have h: "header_ok h" "token (fst h)" using Cons.prems(2) by (simp_all add: header_ok_def)
  have b: "hc_buf c = pre @ header h @ concat (map header hs) @ [13, 10] @ post" using Cons.prems(1) by simp
  have "hc_buf c ! length pre = hd (fst h)" using h(2) unfolding b by (cases "fst h") (simp_all add: nth_append header_def token_def)
  then have nocr: "hc_buf c ! length pre \<noteq> 13" using token_no_cr(2) [OF h(2)] by simp
  have "length pre < length (hc_buf c)" unfolding b by simp
  moreover have "parseline (hc_buf c) (length pre) len = Some (Some (length pre + length (header h)))"
    using parseline_at [of "hc_buf c" pre "fst h @ [32] @ snd h" "concat (map header hs) @ [13, 10] @ post" len] b h Cons.prems(5) token_no_cr(1)
    by (simp add: header_def header_ok_def)
  ultimately have "header_loop (length pre) len c = header_loop (length (pre @ header h)) len (header_effect h c)"
    using nocr header_line_at [OF b h(1) Cons.prems(3,4)] by (subst header_loop.simps) simp
  also have "\<dots> = Go (fold header_effect hs (header_effect h c), length (pre @ header h) + length (concat (map header hs)) + 2)"
    by (rule Cons.IH) (use Cons.prems header_effect_host [OF h(1)] in simp_all)
  finally show ?case by simp
qed

lemma fold_effect_simps [simp]:
  "hc_buf (fold header_effect hs c) = hc_buf c" "hc_bufused (fold header_effect hs c) = hc_bufused c" "hc_method (fold header_effect hs c) = hc_method c"
  "hc_url (fold header_effect hs c) = hc_url c"
  by (induction hs arbitrary: c) simp_all

section \<open>Requests\<close>

definition request :: "u8 list \<Rightarrow> u8 list \<Rightarrow> u8 list \<Rightarrow> (u8 list \<times> u8 list) list \<Rightarrow> u8 list" where
  "request m url ver hs = m @ [32] @ url @ [32] @ ver @ [13, 10] @ concat (map header hs) @ [13, 10]"

lemma parse_request_at:
  assumes b: "hc_buf c = request m url ver hs @ body @ junk" "unat (hc_bufused c) = length (request m url ver hs @ body)"
    and t: "m = ascii ''GET'' \<or> m = ascii ''POST''" "token url" "token ver" "length url < 256" "list_all header_ok hs"
    and l: "length (hc_buf c) = 2048" "length (hc_host c) = 64" "length (hc_url c) = 256"
  defines "get \<equiv> m = ascii ''GET''"
  defines "c1 \<equiv> fold header_effect hs (c\<lparr>hc_method := (if get then HTTP_METHOD_GET else HTTP_METHOD_POST), hc_url := patch (hc_url c) 0 (url @ [0])\<rparr>)"
  shows "parse_request c = Go (c1\<lparr>hc_buf := patch (hc_buf c) 0 body, hc_bufused := of_nat (length body),
    hc_state := (if get then HTTP_STATE_RESPONSE else HTTP_STATE_POSTDATA)\<rparr>)"
proof -
  have tm: "token m" using t(1) by (auto simp: token_def ascii_def is_ws_def)
  define post where "post = concat (map header hs) @ [13, 10] @ body @ junk"
  define nx where "nx = length m + length url + length ver + 4"
  have e: "hc_buf c = m @ [32] @ url @ [32] @ ver @ [13] @ [10] @ post" using b(1) by (simp add: request_def post_def)
  have len: "nx + length (concat (map header hs)) + 2 \<le> unat (hc_bufused c)" using b(2) by (simp add: nx_def request_def)
  have nx: "nx \<le> 2048" using e l(1) by (simp add: nx_def)
  have 0: "parseline (hc_buf c) 0 (unat (hc_bufused c)) = Some (Some nx)"
    using parseline_at [of "hc_buf c" "[]" "m @ [32] @ url @ [32] @ ver" post "unat (hc_bufused c)"] e tm t(2,3) token_no_cr(1) len
    by (simp add: nx_def)
  have 1: "parsetoken (hc_buf c) 0 (ptr_diff nx 0) = Some (Some (0, length m))"
    using parsetoken_at [of "hc_buf c" "[]" "[]" m 32 "url @ [32] @ ver @ [13] @ [10] @ post"] e tm nx by (simp add: ptr_diff_le is_ws_def nx_def)
  have 2: "parsetoken (hc_buf c) (length m) (ptr_diff nx (length m)) = Some (Some (length m + 1, length m + 1 + length url))"
    using parsetoken_at [of "hc_buf c" m "[32]" url 32 "ver @ [13] @ [10] @ post"] e t(2) nx by (simp add: ptr_diff_le is_ws_def nx_def)
  have nm: "token_is (hc_buf c) (0, length m) lit = names lit m" for lit using token_is_at [of "hc_buf c" "[]" m] e tm by simp
  have g: "names (ascii ''GET'') m = get" "get \<or> names (ascii ''POST'') m"
    using t(1) by (auto simp: names_def ascii_def get_def)
  have u: "take (length url) (drop (length m + 1) (hc_buf c)) = url" unfolding e by simp
  have su: "set_url url (c\<lparr>hc_method := x\<rparr>) = c\<lparr>hc_method := x, hc_url := patch (hc_url c) 0 (url @ [0])\<rparr>" for x
    using t(4) l(3) patch_nul [of url "hc_url c"] by (simp add: set_url_def Let_def)
  define c0 where "c0 = c\<lparr>hc_method := (if get then HTTP_METHOD_GET else HTTP_METHOD_POST), hc_url := patch (hc_url c) 0 (url @ [0])\<rparr>"
  have hl: "header_loop nx (unat (hc_bufused c)) c0 = Go (c1, nx + length (concat (map header hs)) + 2)"
  proof -
    let ?pre = "m @ [32] @ url @ [32] @ ver @ [13, 10]"
    have "header_loop (length ?pre) (unat (hc_bufused c)) c0 = Go (fold header_effect hs c0, length ?pre + length (concat (map header hs)) + 2)"
      by (rule header_loop_at [where post = "body @ junk"]) (use e l t(5) len in \<open>simp_all add: c0_def post_def\<close>)
    moreover have "length ?pre = nx" "fold header_effect hs c0 = c1" by (simp_all add: nx_def c1_def c0_def)
    ultimately show ?thesis by (simp only:)
  qed
  have off: "nx + length (concat (map header hs)) + 2 = length (request m url ver hs)" by (simp add: nx_def request_def)
  have bd: "take (length body) (drop (length (request m url ver hs)) (hc_buf c)) = body" unfolding b(1) by simp
  have c1: "hc_buf c1 = hc_buf c" "hc_bufused c1 = hc_bufused c" "hc_method c1 = (if get then HTTP_METHOD_GET else HTTP_METHOD_POST)" by (simp_all add: c1_def)
  show ?thesis
    unfolding parse_request_def Let_def 0 option.case 1 nm snd_conv fst_conv g(1) 2
    using g(2) u su t(4) hl b(2) c1 bd off by (auto simp flip: c0_def)
qed

text \<open>The value of the last header with a property.\<close>

definition last_value :: "(u8 list \<Rightarrow> bool) \<Rightarrow> (u8 list \<times> u8 list) list \<Rightarrow> u8 list option" where
  "last_value p hs = (case filter (p \<circ> fst) (rev hs) of [] \<Rightarrow> None | h # _ \<Rightarrow> Some (snd h))"

definition is_host :: "u8 list \<Rightarrow> bool" where
  "is_host = names (ascii ''Host:'')"

definition is_length :: "u8 list \<Rightarrow> bool" where
  "is_length n \<longleftrightarrow> \<not> names (ascii ''Host:'') n \<and> names (ascii ''Content-Length:'') n"

lemma last_value_snoc: "last_value p (hs @ [h]) = (if p (fst h) then Some (snd h) else last_value p hs)"
  by (simp add: last_value_def)

lemma fold_effect_values:
  assumes "list_all header_ok hs" "length (hc_host c) = 64"
  shows "length (hc_host (fold header_effect hs c)) = 64" (is ?L)
    and "(last_value is_host hs = None \<longrightarrow> hc_host (fold header_effect hs c) = hc_host c) \<and>
      (\<forall>v. last_value is_host hs = Some v \<longrightarrow> cstr (hc_host (fold header_effect hs c)) = v)" (is ?H)
    and "hc_postlen (fold header_effect hs c) = (case last_value is_length hs of None \<Rightarrow> hc_postlen c | Some v \<Rightarrow> word_of_int (c_atoi v))" (is ?P)
proof -
  have "?L \<and> ?H \<and> ?P" using assms(1)
  proof (induction hs rule: rev_induct)
    case Nil
    then show ?case using assms(2) by (simp add: last_value_def)
  next
    case (snoc h hs)
    define c1 where "c1 = fold header_effect hs c"
    have h: "header_ok h" and ih: "length (hc_host c1) = 64"
        "(last_value is_host hs = None \<longrightarrow> hc_host c1 = hc_host c) \<and> (\<forall>v. last_value is_host hs = Some v \<longrightarrow> cstr (hc_host c1) = v)"
        "hc_postlen c1 = (case last_value is_length hs of None \<Rightarrow> hc_postlen c | Some v \<Rightarrow> word_of_int (c_atoi v))"
      unfolding c1_def using snoc by simp_all
    have "cstr (patch (hc_host c1) 0 (snd h @ [0])) = snd h" if "names (ascii ''Host:'') (fst h)"
      using that h cstr_append [of "snd h" "drop (length (snd h) + 1) (hc_host c1)"] by (auto simp: header_ok_def token_def list_all_iff patch_def)
    then show ?case using ih header_effect_host [OF h ih(1)] unfolding fold_append fold.simps comp_apply id_apply c1_def [symmetric] last_value_snoc
      by (auto simp: header_effect_def is_host_def is_length_def)
  qed
  then show ?L ?H ?P by blast+
qed

section \<open>Property\<close>

text \<open>
  C7: a request is understood. The parser, given a buffer with a complete well-formed request, stores the method, the URL,
  the last host name and the last content length of the header lines, and leaves exactly the bytes behind the
  headers in the buffer.
\<close>

theorem http_request_parsed:
  assumes "hc_buf c = request m url ver hs @ body @ junk" "unat (hc_bufused c) = length (request m url ver hs @ body)"
    and "m = ascii ''GET'' \<or> m = ascii ''POST''" "token url" "token ver" "length url < 256" "list_all header_ok hs"
    and "length (hc_buf c) = 2048" "length (hc_host c) = 64" "length (hc_url c) = 256"
  shows "\<exists>c'. parse_request c = Go c' \<and>
    hc_method c' = (if m = ascii ''GET'' then HTTP_METHOD_GET else HTTP_METHOD_POST) \<and>
    hc_state c' = (if m = ascii ''GET'' then HTTP_STATE_RESPONSE else HTTP_STATE_POSTDATA) \<and>
    cstr (hc_url c') = url \<and> unat (hc_bufused c') = length body \<and> take (length body) (hc_buf c') = body \<and>
    (last_value is_host hs = None \<longrightarrow> hc_host c' = hc_host c) \<and> (\<forall>v. last_value is_host hs = Some v \<longrightarrow> cstr (hc_host c') = v) \<and>
    hc_postlen c' = (case last_value is_length hs of None \<Rightarrow> hc_postlen c | Some v \<Rightarrow> word_of_int (c_atoi v))"
proof -
  define c0 where "c0 = c\<lparr>hc_method := (if m = ascii ''GET'' then HTTP_METHOD_GET else HTTP_METHOD_POST), hc_url := patch (hc_url c) 0 (url @ [0])\<rparr>"
  note v = fold_effect_values [of hs c0, OF assms(7)]
  have "length body \<le> 2048" using assms(1,8) by simp
  then have "unat (of_nat (length body) :: u16) = length body" by (intro unat_of_nat_small) simp
  moreover have "cstr (patch (hc_url c) 0 (url @ [0])) = url"
    using assms(4) cstr_append [of url "drop (length url + 1) (hc_url c)"] by (auto simp: token_def list_all_iff patch_def)
  moreover have k: "hc_host c0 = hc_host c" "hc_postlen c0 = hc_postlen c" "length (hc_host c0) = 64" using assms(9) by (simp_all add: c0_def)
  moreover have "hc_url (fold header_effect hs c0) = patch (hc_url c) 0 (url @ [0])" "hc_method (fold header_effect hs c0) = hc_method c0" by (simp_all add: c0_def)
  moreover have "take (length body) (patch (hc_buf c) 0 body) = body" by (simp add: patch_def)
  moreover note v(2,3) [OF k(3), unfolded k]
  ultimately show ?thesis unfolding parse_request_at [OF assms, folded c0_def] by (simp add: c0_def)
qed

lemma http_request_parsed_witness:
  "\<exists>c'. parse_request (http_client0\<lparr>hc_buf := request (ascii ''POST'') (ascii ''/x'') (ascii ''HTTP/1.1'') [(ascii ''Host:'', ascii ''esp''), (ascii ''Content-Length:'', ascii ''12'')] @
       [7, 8] @ replicate 1995 0, hc_bufused := 53\<rparr>) = Go c' \<and> cstr (hc_url c') = ascii ''/x'' \<and> hc_postlen c' = 12 \<and> cstr (hc_host c') = ascii ''esp''"
proof -
  let ?hs = "[(ascii ''Host:'', ascii ''esp''), (ascii ''Content-Length:'', ascii ''12'')]"
  let ?r = "request (ascii ''POST'') (ascii ''/x'') (ascii ''HTTP/1.1'') ?hs"
  let ?c = "http_client0\<lparr>hc_buf := ?r @ [7, 8] @ replicate 1995 0, hc_bufused := 53\<rparr>"
  have r: "length ?r = 51" by (simp add: request_def header_def ascii_def)
  have "last_value is_host ?hs = Some (ascii ''esp'')" "last_value is_length ?hs = Some (ascii ''12'')" "c_atoi (ascii ''12'') = 12"
    by (simp_all add: last_value_def is_host_def is_length_def names_def ascii_def c_atoi_def Let_def)
  moreover have "\<exists>c'. parse_request ?c = Go c' \<and>
      hc_method c' = (if ascii ''POST'' = ascii ''GET'' then HTTP_METHOD_GET else HTTP_METHOD_POST) \<and>
      hc_state c' = (if ascii ''POST'' = ascii ''GET'' then HTTP_STATE_RESPONSE else HTTP_STATE_POSTDATA) \<and>
      cstr (hc_url c') = ascii ''/x'' \<and> unat (hc_bufused c') = length [7, 8 :: u8] \<and> take (length [7, 8 :: u8]) (hc_buf c') = [7, 8] \<and>
      (last_value is_host ?hs = None \<longrightarrow> hc_host c' = hc_host ?c) \<and> (\<forall>v. last_value is_host ?hs = Some v \<longrightarrow> cstr (hc_host c') = v) \<and>
      hc_postlen c' = (case last_value is_length ?hs of None \<Rightarrow> hc_postlen ?c | Some v \<Rightarrow> word_of_int (c_atoi v))"
    by (rule http_request_parsed) (use r in \<open>simp_all add: token_def is_ws_def header_ok_def names_def http_client0_def\<close>, simp_all add: ascii_def)
  ultimately show ?thesis by auto
qed

end
