(* ===== verification/Ota_Update.thy ===== *)
theory Ota_Update
  imports Ota Http_Output
begin

text \<open>
  The firmware update: what the signature check accepts, and that an image that arrives in any pieces is
  written, digested and read back. The behaviour of the flash is stated as \<open>flash_sdk\<close>.
\<close>

section \<open>The signature check\<close>

lemma nth_le_val: "j < length d \<Longrightarrow> d ! j = word_of_nat (le_val d div 256 ^ j)"
proof -
  assume "j < length d"
  then obtain ds where "drop j d = d ! j # ds" by (metis Cons_nth_drop_Suc)
  moreover have "le_val d div 256 ^ j = le_val (drop j d)"
    using drop_bit_le_val [of j d] by (simp add: drop_bit_eq_div power_mult)
  ultimately have "word_of_nat (le_val d div 256 ^ j) = word_of_nat (unat (d ! j)) + (256 :: u8) * word_of_nat (le_val ds)" by simp
  moreover have "(256 :: u8) = 0" by simp
  ultimately show ?thesis by simp
qed

lemma rev_take_be: "u \<le> length d \<Longrightarrow> rev (take u d) = be_bytes u (le_val d)"
proof (rule nth_equalityI)
  fix i assume u: "u \<le> length d" and "i < length (rev (take u d))"
  then have i: "i < u" by simp
  then have "rev (take u d) ! i = d ! (u - Suc i)" using u by (simp add: rev_nth)
  then show "rev (take u d) ! i = be_bytes u (le_val d) ! i"
    using i u nth_le_val [of "u - Suc i" d] by (simp add: be_bytes_def rev_nth)
qed (simp add: be_bytes_def)

lemma be_bytes_pad:
  assumes "n < 256 ^ u" "u \<le> k"
  shows "be_bytes k n = replicate (k - u) 0 @ be_bytes u n"
proof -
  have "[0..<k] = [0..<u] @ [u..<k]" using upt_add_eq_append [of 0 u "k - u"] assms(2) by simp
  moreover have "map (\<lambda>i. word_of_nat (n div 256 ^ i)) (rev [u..<k]) = replicate (k - u) (0 :: u8)"
  proof (rule nth_equalityI)
    fix i assume "i < length (map (\<lambda>i. word_of_nat (n div 256 ^ i) :: u8) (rev [u..<k]))"
    moreover from this have "(256 :: nat) ^ u \<le> 256 ^ (k - Suc i)" by (intro power_increasing) simp_all
    then have "n < 256 ^ (k - Suc i)" using assms(1) by linarith
    ultimately show "map (\<lambda>i. word_of_nat (n div 256 ^ i)) (rev [u..<k]) ! i = replicate (k - u) (0 :: u8) ! i"
      by (simp add: rev_nth)
  qed simp
  ultimately show ?thesis by (simp add: be_bytes_def)
qed

lemma c_strstr_char: "x \<notin> set xs \<Longrightarrow> c_strstr (xs @ x # ys) [x] = Some (length xs)"
  by (induction xs) (auto simp: c_strstr.simps [of "_ # _"])

text \<open>The recovered number as 32 bytes, or an overrun of the array.\<close>

lemma hash3_value:
  assumes "bi_wf x" "bi_clean x" "bi_tight x"
  defines "u \<equiv> bi_bytes x + (if bi_bits x > 0 then 1 else 0)"
  shows "u > 32 \<longleftrightarrow> bval x \<ge> 2 ^ 256"
    and "u \<le> 32 \<Longrightarrow> replicate (32 - u) 0 @ rev (take u (bi_data x)) = be_bytes 32 (bval x)"
proof -
  have b: "bi_bits x < 8" "length (bi_data x) = 150" "bi_bytes x \<le> 148" using assms(1) wf_bytes [of x] by (simp_all add: bi_wf_def)
  have u: "BITS x \<le> 8 * u" "8 * u < BITS x + 8" using b by (auto simp: BITS_def u_def)
  have d: "bval x = le_val (bi_data x)" using bval_clean [OF assms(2)] .
  have "bval x < 2 ^ BITS x" by (rule bval_less)
  also have "\<dots> \<le> 2 ^ (8 * u)" using u by (intro power_increasing) simp_all
  finally have v: "bval x < 256 ^ u" by (simp add: power_mult)
  show "u > 32 \<longleftrightarrow> bval x \<ge> 2 ^ 256"
  proof
    assume "u > 32"
    then have "BITS x > 8 * 32" using u by (simp add: BITS_def u_def split: if_splits)
    have t: "bval x < 2 ^ (8 * 32) \<Longrightarrow> BITS x \<le> 8 * 32" using assms(3) unfolding bi_tight_def by (elim allE [of _ 32]) simp
    show "bval x \<ge> 2 ^ 256"
    proof (rule ccontr)
      assume "\<not> bval x \<ge> 2 ^ 256"
      then show False using t \<open>BITS x > 8 * 32\<close> by simp
    qed
  next
    assume "bval x \<ge> 2 ^ 256"
    then have "(256 :: nat) ^ 32 < 256 ^ u" using v by simp
    then show "u > 32" by (rule power_less_imp_less_exp [rotated]) simp
  qed
  show "replicate (32 - u) 0 @ rev (take u (bi_data x)) = be_bytes 32 (bval x)" if "u \<le> 32"
    using be_bytes_pad [OF v that] rev_take_be [of u "bi_data x"] that b d by simp
qed

text \<open>What the check computes, for every signature text of up to 297 characters.\<close>

lemma ota_signature_result:
  assumes url: "cstr (url_mem (w_client w)) = base @ 63 # sig" "63 \<notin> set base" "length sig \<le> 297"
    and st: "sized (w_store w)" "rsa_key (w_store w pubkey_mod) (w_store w pubkey_exp)"
  defines "c \<equiv> hexval sig ^ bval (w_store w pubkey_exp) mod bval (w_store w pubkey_mod)"
  shows "(\<not> hex_text sig \<or> BITS (w_store w pubkey_mod) < 4 * length sig \<longrightarrow> (\<exists>w'. ota_signature w = Some (True, w'))) \<and>
    (hex_text sig \<and> 4 * length sig \<le> BITS (w_store w pubkey_mod) \<longrightarrow>
      (if c \<ge> 2 ^ 256 then ota_signature w = None
       else \<exists>st'. ota_signature w = Some (\<not> strncmp_eq (ota_hash1 (w_ota w)) (be_bytes 32 c) 32,
         w\<lparr>w_store := st', w_ota := (w_ota w)\<lparr>ota_hash3 := be_bytes 32 c\<rparr>\<rparr>)))"
proof -
  have q: "c_strstr (base @ 63 # sig) [63] = Some (length base)" using url(2) by (rule c_strstr_char)
  have l: "length (bi_data (w_store w cipher)) = 150" using st(1) by (simp add: sized_def)
  obtain x where x: "bigint_fromhex (w_store w cipher) sig = (if hex_text sig then 0 else 2, x)"
    "hex_text sig \<Longrightarrow> bi_wf x \<and> bi_clean x \<and> BITS x = 4 * length sig \<and> bval x = hexval sig"
    using bigint_fromhex [OF l url(3)] by metis
  show ?thesis
  proof (cases "hex_text sig")
    case False
    then show ?thesis using q x(1) by (simp add: ota_signature_def url(1) Let_def)
  next
    case True
    define st1 where "st1 = (w_store w)(cipher := x)"
    have s1: "sized st1" "rsa_key (st1 pubkey_mod) (st1 pubkey_exp)" "bi_wf (st1 cipher)" "bval (st1 cipher) = hexval sig"
        "BITS (st1 cipher) = 4 * length sig" "st1 pubkey_mod = w_store w pubkey_mod" "st1 pubkey_exp = w_store w pubkey_exp"
      using st x(2) [OF True] by (auto simp: st1_def sized_def bi_wf_def)
    obtain st2 where d: "rsa_pubkey_decrypt pubkey_mod pubkey_exp clear cipher st1 =
        Some (if BITS (st1 cipher) \<le> BITS (st1 pubkey_mod) then 0 else 1, st2)"
      "BITS (st1 cipher) \<le> BITS (st1 pubkey_mod) \<Longrightarrow> bi_wf (st2 clear) \<and> bi_clean (st2 clear) \<and> bi_tight (st2 clear) \<and>
        bval (st2 clear) = bval (st1 cipher) ^ bval (st1 pubkey_exp) mod bval (st1 pubkey_mod)"
      using rsa_pubkey_decrypt [of clear cipher pubkey_mod pubkey_exp st1, OF _ _ _ _ s1(1-3)] by auto
    have o: "ota_signature w = (if BITS (w_store w pubkey_mod) < 4 * length sig then Some (True, w\<lparr>w_store := st2\<rparr>)
        else let bytes = bi_bytes (st2 clear) + (if bi_bits (st2 clear) > 0 then 1 else 0);
               hash3 = replicate (32 - bytes) 0 @ rev (take bytes (bi_data (st2 clear)))
             in if bytes > 32 then None
                else Some (\<not> strncmp_eq (ota_hash1 (w_ota w)) hash3 32, w\<lparr>w_store := st2, w_ota := (w_ota w)\<lparr>ota_hash3 := hash3\<rparr>\<rparr>))"
      using q x(1) d(1) True s1(5,6) by (auto simp: ota_signature_def url(1) Let_def st1_def)
    show ?thesis
    proof (cases "4 * length sig \<le> BITS (w_store w pubkey_mod)")
      case False
      then show ?thesis using o by simp
    next
      case fits: True
      then have cl: "bi_wf (st2 clear)" "bi_clean (st2 clear)" "bi_tight (st2 clear)" "bval (st2 clear) = c"
        using d(2) s1 by (simp_all add: c_def)
      show ?thesis using fits True o hash3_value [OF cl(1-3), unfolded cl(4)] by (auto simp: Let_def)
    qed
  qed
qed

section \<open>The upload\<close>

text \<open>
  The flash as the SDK documents it: an erase sets the bytes of its sector to \<open>0xff\<close>, a write to erased bytes
  stores them, a read returns what is stored, and no other byte changes.
\<close>

definition flash_sdk :: "http_env \<Rightarrow> bool" where
  "flash_sdk env \<longleftrightarrow>
     (\<forall>sec f. \<exists>f'. env_erase env sec f = Some f' \<and> (\<forall>a. f' a = (if a div SPI_FLASH_SEC_SIZE = sec then 0xff else f a))) \<and>
     (\<forall>addr bs f. (\<forall>i < length bs. f (addr + i) = 0xff) \<longrightarrow>
        (\<exists>f'. env_write env addr bs f = Some f' \<and> (\<forall>a. f' a = (if addr \<le> a \<and> a < addr + length bs then bs ! (a - addr) else f a)))) \<and>
     (\<forall>addr n f. env_read env addr n f = Some (map f [addr..<addr + n]))"

lemma flash_sdkD:
  assumes "flash_sdk env"
  shows "\<exists>f'. env_erase env sec f = Some f' \<and> (\<forall>a. f' a = (if a div 4096 = sec then 0xff else f a))"
    and "\<forall>i < length bs. f (addr + i) = 0xff \<Longrightarrow>
      \<exists>f'. env_write env addr bs f = Some f' \<and> (\<forall>a. f' a = (if addr \<le> a \<and> a < addr + length bs then bs ! (a - addr) else f a))"
    and "env_read env addr n f = Some (map f [addr..<addr + n])"
  using assms by (simp_all add: flash_sdk_def)

text \<open>How much of an image of \<open>l\<close> bytes is in the flash when \<open>k\<close> bytes of it have arrived.\<close>

definition flushed :: "nat \<Rightarrow> nat \<Rightarrow> nat" where
  "flushed l k = (if k = l then l else 4096 * (k div 4096))"

text \<open>The first \<open>k\<close> bytes of the image \<open>img\<close> have arrived; it goes to the address \<open>beg\<close>.\<close>

definition upload :: "u8 list \<Rightarrow> nat \<Rightarrow> nat \<Rightarrow> http_world \<Rightarrow> bool" where
  "upload img beg k w \<longleftrightarrow> k \<le> length img \<and>
     hc_postlen (w_client w) = of_nat (length img) \<and> hc_postused (w_client w) = of_nat k \<and>
     ota_client (w_ota w) = Some (w_id w) \<and> ota_newaddr_beg (w_ota w) = of_nat beg \<and>
     (k < length img \<longrightarrow> ota_newaddr_cur (w_ota w) = of_nat (beg + flushed (length img) k)) \<and>
     ota_appsize (w_ota w) = of_nat (length img) \<and> length (ota_secbuf (w_ota w)) = 4096 \<and>
     ota_secused (w_ota w) = of_nat (k - flushed (length img) k) \<and>
     take (k - flushed (length img) k) (ota_secbuf (w_ota w)) = take (k - flushed (length img) k) (drop (flushed (length img) k) img) \<and>
     sha.stands_for sha256_H0 (ota_sha256 (w_ota w)) (take (flushed (length img) k) img) \<and>
     (\<forall>a < flushed (length img) k. w_flash w (beg + a) = img ! a)"

text \<open>The next \<open>m\<close> bytes are in the receive buffer of the client.\<close>

definition pending :: "u8 list \<Rightarrow> nat \<Rightarrow> nat \<Rightarrow> http_world \<Rightarrow> bool" where
  "pending img k m w \<longleftrightarrow> length (hc_buf (w_client w)) = 2048 \<and> m \<le> 2048 \<and> hc_bufused (w_client w) = of_nat m \<and>
     take (min m (length img - k)) (hc_buf (w_client w)) = take (min m (length img - k)) (drop k img)"

definition placed :: "u8 list \<Rightarrow> nat \<Rightarrow> bool" where
  "placed img beg \<longleftrightarrow> 0 < length img \<and> length img < 2 ^ 29 \<and> 4096 dvd beg \<and> beg < 2 ^ 31"

lemma unat_small32: "n < 2 ^ 32 \<Longrightarrow> unat (of_nat n :: u32) = n"
  by (simp add: unat_of_nat_small)

lemma unat_small16: "n < 2 ^ 16 \<Longrightarrow> unat (of_nat n :: u16) = n"
  by (simp add: unat_of_nat_small)

lemma flushed_bounds: "k \<le> l \<Longrightarrow> flushed l k \<le> k \<and> k - flushed l k < 4096"
  by (auto simp: flushed_def mult_div_mod_eq [symmetric] less_Suc_eq_le)

text \<open>The copy of one turn.\<close>

text \<open>Moving the rest of the receive buffer to its front keeps the body the buffer stands for.\<close>
lemma pending_rest:
  assumes "pending img k m w" "n \<le> m" "k + n \<le> length img"
    and b: "hc_buf (w_client w1) = patch (hc_buf (w_client w)) 0 (take (m - n) (drop n (hc_buf (w_client w))))"
    and u: "hc_bufused (w_client w1) = of_nat (m - n)"
  shows "pending img (k + n) (m - n) w1"
proof -
  define j where "j = min (m - n) (length img - (k + n))"
  have sz: "m \<le> 2048" "length (hc_buf (w_client w)) = 2048" using assms(1) by (simp_all add: pending_def)
  have t: "take j (drop n xs) = drop n (take (n + j) xs)" for xs :: "u8 list" by (simp add: take_drop add.commute)
  have "n + j = min m (length img - k)" using assms(2,3) by (auto simp: j_def)
  then have "take j (drop n (hc_buf (w_client w))) = take j (drop n (drop k img))"
    unfolding t using assms(1) by (simp add: pending_def)
  then have "take j (hc_buf (w_client w1)) = take j (drop (k + n) img)"
    using sz assms(2) by (simp add: b patch_def j_def add.commute)
  moreover have "length (hc_buf (w_client w1)) = 2048" using b sz assms(2) by simp
  ultimately show ?thesis using sz u by (simp add: pending_def j_def)
qed

lemma ota_copy_step:
  assumes "upload img beg k w" "pending img k m w" "placed img beg" "k < length img" "0 < m"
  defines "f \<equiv> flushed (length img) k"
  defines "n \<equiv> min (min m (length img - k)) (4096 - (k - f))"
  defines "w1 \<equiv> ota_copy w"
  shows "0 < n" "n \<le> m" "k + n \<le> length img" "k - f + n \<le> 4096"
    "hc_postused (w_client w1) = of_nat (k + n)" "hc_postlen (w_client w1) = of_nat (length img)"
    "ota_secused (w_ota w1) = of_nat (k - f + n)" "take (k - f + n) (ota_secbuf (w_ota w1)) = take (k - f + n) (drop f img)"
    "length (ota_secbuf (w_ota w1)) = 4096" "pending img (k + n) (m - n) w1"
    "ota_newaddr_cur (w_ota w1) = of_nat (beg + f)" "w_flash w1 = w_flash w" "ota_sha256 (w_ota w1) = ota_sha256 (w_ota w)"
    "ota_client (w_ota w1) = Some (w_id w1)" "ota_newaddr_beg (w_ota w1) = of_nat beg" "ota_appsize (w_ota w1) = of_nat (length img)"
proof -
  have b: "f \<le> k" "k - f < 4096" using flushed_bounds [of k "length img"] assms(4) by (simp_all add: f_def)
  have sz: "length img < 2 ^ 29" "m \<le> 2048" "length (hc_buf (w_client w)) = 2048" using assms(2,3) by (simp_all add: placed_def pending_def)
  note u = assms(1) [unfolded upload_def, folded f_def]
  have "ota_secused (w_ota w) = of_nat (k - f)" using u by blast
  then have s4: "unat (ota_secused (w_ota w)) = k - f" using b(2) unat_small16 [of "k - f"] by (simp del: of_nat_diff)
  have U: "unat (hc_bufused (w_client w)) = m" "unat (hc_postlen (w_client w)) = length img" "unat (hc_postused (w_client w)) = k"
    "unat (ota_secused (w_ota w)) = k - f"
    using u assms(2,4) sz s4 by (simp_all add: pending_def unat_small16 unat_small32 del: of_nat_diff)
  have len: "ota_len w = n" using U by (simp add: ota_len_def n_def)
  show n: "0 < n" "n \<le> m" "k + n \<le> length img" "k - f + n \<le> 4096" using assms(4,5) b by (auto simp: n_def)
  have data: "take n (hc_buf (w_client w)) = take n (drop k img)"
  proof -
    have "take n (take (min m (length img - k)) (hc_buf (w_client w))) = take n (take (min m (length img - k)) (drop k img))"
      using assms(2) by (simp add: pending_def)
    moreover have "n \<le> min m (length img - k)" unfolding n_def by (rule min.cobounded1)
    ultimately show ?thesis by (simp add: min_def split: if_splits)
  qed
  note c = ota_copy_def [of w, unfolded Let_def len, folded w1_def]
  show "hc_postused (w_client w1) = of_nat (k + n)" "hc_postlen (w_client w1) = of_nat (length img)"
    "ota_secused (w_ota w1) = of_nat (k - f + n)" using u by (simp_all add: c)
  show "ota_newaddr_cur (w_ota w1) = of_nat (beg + f)" "w_flash w1 = w_flash w" "ota_sha256 (w_ota w1) = ota_sha256 (w_ota w)"
    "ota_client (w_ota w1) = Some (w_id w1)" "ota_newaddr_beg (w_ota w1) = of_nat beg" "ota_appsize (w_ota w1) = of_nat (length img)"
    using u assms(4) by (simp_all add: c)
  have s: "ota_secbuf (w_ota w1) = patch (ota_secbuf (w_ota w)) (k - f) (take n (drop k img))"
    using U(4) data by (simp add: c)
  have ln: "length (take n (drop k img)) = n" using n(3) by simp
  have ls: "length (ota_secbuf (w_ota w)) = 4096" using u by blast
  show "length (ota_secbuf (w_ota w1)) = 4096" unfolding s using ls n(4) ln by simp
  have "take (k - f + n) (ota_secbuf (w_ota w1)) = take (k - f) (ota_secbuf (w_ota w)) @ take n (drop k img)"
    unfolding s using take_patch_end [of "k - f" "ota_secbuf (w_ota w)" "take n (drop k img)"] ls b(2) ln by simp
  also have "take (k - f) (ota_secbuf (w_ota w)) = take (k - f) (drop f img)" using u by blast
  also have "drop k img = drop (k - f) (drop f img)" using b(1) by simp
  also have "take (k - f) (drop f img) @ take n (drop (k - f) (drop f img)) = take (k - f + n) (drop f img)" by (simp only: take_add)
  finally show "take (k - f + n) (ota_secbuf (w_ota w1)) = take (k - f + n) (drop f img)" .
  show "pending img (k + n) (m - n) w1"
    by (rule pending_rest [OF assms(2) n(2,3)]) (use U(1) assms(2) n(2) in \<open>simp_all add: c pending_def of_nat_diff\<close>)
qed

text \<open>A turn of the loop: it either fills the sector buffer further or writes it out.\<close>

lemma flushed_next:
  assumes "k < l" "n \<le> 4096 - (k - flushed l k)" "0 < n" "k + n \<le> l"
  shows "k - flushed l k + n < 4096 \<Longrightarrow> k + n < l \<Longrightarrow> flushed l (k + n) = flushed l k"
    and "k - flushed l k + n = 4096 \<or> k + n = l \<Longrightarrow> flushed l (k + n) = k + n"
proof -
  have f: "flushed l k = 4096 * (k div 4096)" using assms(1) by (simp add: flushed_def)
  have k: "k = 4096 * (k div 4096) + k mod 4096" by simp
  show "flushed l (k + n) = flushed l k" if "k - flushed l k + n < 4096" "k + n < l"
  proof -
    have "k mod 4096 + n < 4096" using that(1) unfolding f by (metis minus_mult_div_eq_mod)
    then have "(k + n) div 4096 = k div 4096" by (simp add: div_add1_eq [of k n])
    then show ?thesis using that(2) f by (simp add: flushed_def)
  qed
  show "flushed l (k + n) = k + n" if "k - flushed l k + n = 4096 \<or> k + n = l"
  proof (cases "k + n = l")
    case False
    then have "k mod 4096 + n = 4096" using that unfolding f by (metis minus_mult_div_eq_mod)
    then have "k + n = 4096 * (k div 4096 + 1)" using k unfolding distrib_left by linarith
    then show ?thesis using False by (simp add: flushed_def)
  qed (simp add: flushed_def)
qed


text \<open>What an update does not touch.\<close>

definition ota_rest where
  "ota_rest w = (let c = w_client w in
     ((hc_inuse c, hc_conn c, hc_state c, hc_method c, hc_url c, hc_host c, hc_postlen c),
      (w_id w, w_outbuf w, w_outbuflen w, w_log w, w_levels w, w_uptime w, w_smtp w, w_store w)))"

text \<open>The flash outside the sectors of the image is left alone.\<close>

definition flash_kept :: "u8 list \<Rightarrow> nat \<Rightarrow> http_world \<Rightarrow> http_world \<Rightarrow> bool" where
  "flash_kept img beg w w' \<longleftrightarrow> (\<forall>a. a < beg \<or> beg + length img + 4095 \<le> a \<longrightarrow> w_flash w' a = w_flash w a)"

lemma ota_copy_rest: "ota_rest (ota_copy w) = ota_rest w" "w_calls (ota_copy w) = w_calls w"
  by (simp_all add: ota_rest_def ota_copy_def Let_def)

text \<open>Writing out the sector buffer, which holds the \<open>s\<close> bytes of the image from \<open>f\<close> on.\<close>

lemma ota_flash_step:
  assumes sdk: "flash_sdk env" and img: "placed img beg" "f + s \<le> length img"
    and sec: "length (ota_secbuf (w_ota w)) = 4096" "s \<le> 4096" "ota_secused (w_ota w) = of_nat s"
      "take s (ota_secbuf (w_ota w)) = take s (drop f img)"
    and at: "ota_newaddr_cur (w_ota w) = of_nat (beg + f)" "4096 dvd f"
    and prev: "sha.stands_for sha256_H0 (ota_sha256 (w_ota w)) (take f img)" "\<forall>a < f. w_flash w (beg + a) = img ! a"
  obtains fl sh where
    "ota_flash env w = Some (False, w\<lparr>w_flash := fl, w_ota := (w_ota w)\<lparr>ota_sha256 := sh,
       ota_newaddr_cur := of_nat (beg + f + 4096), ota_secbuf := replicate 4096 0, ota_secused := 0\<rparr>\<rparr>)"
    "sha.stands_for sha256_H0 sh (take (f + s) img)" "\<forall>a < f + s. fl (beg + a) = img ! a"
    "\<And>a. a < beg + f \<or> beg + f + 4096 \<le> a \<Longrightarrow> fl a = w_flash w a"
proof -
  have "beg + f < 2 ^ 32" "4096 dvd beg" using img by (simp_all add: placed_def)
  then have cur: "unat (ota_newaddr_cur (w_ota w)) = beg + f" and sc: "4096 dvd beg + f"
    using at unat_small32 [of "beg + f"] by simp_all
  have us: "unat (ota_secused (w_ota w)) = s" unfolding sec(3) using sec(2) by (intro unat_small16) simp
  have same: "a div 4096 = (beg + f) div 4096 \<longleftrightarrow> beg + f \<le> a \<and> a < beg + f + 4096" for a
    using sc by (auto elim!: dvdE simp: div_nat_eqI)
  obtain f1 where f1: "env_erase env ((beg + f) div 4096) (w_flash w) = Some f1"
    "\<And>a. f1 a = (if beg + f \<le> a \<and> a < beg + f + 4096 then 0xff else w_flash w a)"
    using flash_sdkD(1) [OF sdk, of "(beg + f) div 4096" "w_flash w"] unfolding same by blast
  have "\<forall>i < length (ota_secbuf (w_ota w)). f1 (beg + f + i) = 0xff" using f1(2) sec(1) by simp
  then obtain f2 where f2: "env_write env (beg + f) (ota_secbuf (w_ota w)) f1 = Some f2"
    "\<And>a. f2 a = (if beg + f \<le> a \<and> a < beg + f + 4096 then ota_secbuf (w_ota w) ! (a - (beg + f)) else f1 a)"
    using flash_sdkD(2) [OF sdk, of "ota_secbuf (w_ota w)" f1 "beg + f"] unfolding sec(1) by blast
  obtain sh where sh: "sha256_proc (ota_sha256 (w_ota w)) (take s (drop f img)) = Some sh"
    "sha.stands_for sha256_H0 sh (take f img @ take s (drop f img))"
    using sha.loop_absorbs [OF prev(1), of "take s (drop f img)" 0] by (auto simp: sha256_proc_def)
  have fl: "f2 (beg + a) = img ! a" if "a < f + s" for a
  proof (cases "a < f")
    case False
    then have "ota_secbuf (w_ota w) ! (a - f) = drop f img ! (a - f)"
      using that arg_cong [OF sec(4), of "\<lambda>xs. xs ! (a - f)"] by simp
    then show ?thesis using False that f2(2) sec(2) img(2) by simp
  qed (use prev(2) f1(2) f2(2) in simp)
  have "ota_flash env w = Some (False, w\<lparr>w_flash := f2, w_ota := (w_ota w)\<lparr>ota_sha256 := sh,
       ota_newaddr_cur := of_nat (beg + f + 4096), ota_secbuf := replicate 4096 0, ota_secused := 0\<rparr>\<rparr>)"
    unfolding ota_flash_def Let_def cur us sec(4) f1(1) option.case f2(1) sh(1)
    unfolding at(1) of_nat_add [symmetric] by (rule refl)
  moreover have "sha.stands_for sha256_H0 sh (take (f + s) img)" using sh(2) by (simp only: take_add)
  moreover have "f2 a = w_flash w a" if "a < beg + f \<or> beg + f + 4096 \<le> a" for a using that f1(2) f2(2) by auto
  ultimately show thesis using that fl by blast
qed

text \<open>One turn of the loop.\<close>

lemma ota_turn:
  assumes "flash_sdk env" "placed img beg" "upload img beg k w" "pending img k m w" "k < length img" "0 < m"
  obtains n w' where "0 < n" "n \<le> m" "k + n \<le> length img" "ota_loop env w = ota_loop env w'"
    "upload img beg (k + n) w'" "pending img (k + n) (m - n) w'" "ota_rest w' = ota_rest w" "w_calls w' = w_calls w"
    "flash_kept img beg w w'"
proof -
  define f where "f = flushed (length img) k"
  define n where "n = min (min m (length img - k)) (4096 - (k - f))"
  define w1 where "w1 = ota_copy w"
  note c = ota_copy_step [OF assms(3,4,2,5,6), folded f_def, folded n_def w1_def]
  have b: "f \<le> k" "k - f < 4096" using flushed_bounds [of k "length img"] assms(5) by (simp_all add: f_def)
  have sz: "length img < 2 ^ 29" "m \<le> 2048" "4096 dvd f" using assms(2,4,5) by (simp_all add: placed_def pending_def f_def flushed_def)
  have u: "unat (hc_bufused (w_client w)) = m" "unat (hc_postlen (w_client w)) = length img" "unat (hc_postused (w_client w)) = k"
    "ota_secused (w_ota w) = of_nat (k - f)"
    using assms(3,4,5) sz by (simp_all add: upload_def pending_def f_def unat_small16 unat_small32 del: of_nat_diff)
  have "unat (ota_secused (w_ota w)) = k - f" unfolding u(4) using b(2) by (intro unat_small16) simp
  then have enter: "hc_bufused (w_client w) > 0 \<and> hc_postlen (w_client w) > hc_postused (w_client w)" "\<not> unat (ota_secused (w_ota w)) > 4096"
    using u(1-3) b(2) assms(5,6) by (simp_all add: word_less_nat_alt)
  have u1: "unat (ota_secused (w_ota w1)) = k - f + n" unfolding c(7) using c(4) by (intro unat_small16) simp
  have u2: "hc_postused (w_client w1) = hc_postlen (w_client w1) \<longleftrightarrow> k + n = length img"
    unfolding c(5,6) word_unat_eq_iff using c(3) sz(1) unat_small32 [of "k + n"] unat_small32 [of "length img"] by simp
  have st: "ota_loop env w = (if k - f + n = 4096 \<or> k + n = length img
      then Option.bind (ota_flash env w1) (\<lambda>(fl, w2). if fl then Some (True, w2) else ota_loop env w2) else ota_loop env w1)"
    using enter u1 u2 by (subst ota_loop.simps) (simp add: Let_def flip: w1_def)
  note nx = flushed_next [OF assms(5) _ c(1,3), folded f_def]
  have s: "sha.stands_for sha256_H0 (ota_sha256 (w_ota w1)) (take f img)" "\<forall>a < f. w_flash w1 (beg + a) = img ! a"
    using assms(3) c(12,13) by (simp_all add: upload_def f_def)
  show thesis
  proof (cases "k - f + n = 4096 \<or> k + n = length img")
    case False
    then have "flushed (length img) (k + n) = f" using nx(1) c(3,4) by simp
    moreover have "k + n - f = k - f + n" using b(1) by simp
    ultimately have "upload img beg (k + n) w1" unfolding upload_def using s [unfolded c(12,13)] by (simp only: c simp_thms)
    then show thesis using that [OF c(1-3) _ _ c(10)] st False ota_copy_rest c(12) by (simp add: w1_def flash_kept_def)
  next
    case True
    then have fl: "flushed (length img) (k + n) = k + n" using nx(2) c(4) by simp
    have k: "f + (k - f + n) = k + n" using b(1) by simp
    obtain fl2 sh where w2: "ota_flash env w1 = Some (False, w1\<lparr>w_flash := fl2, w_ota := (w_ota w1)\<lparr>ota_sha256 := sh,
        ota_newaddr_cur := of_nat (beg + f + 4096), ota_secbuf := replicate 4096 0, ota_secused := 0\<rparr>\<rparr>)"
      "sha.stands_for sha256_H0 sh (take (k + n) img)" "\<forall>a < k + n. fl2 (beg + a) = img ! a"
      "\<And>a. a < beg + f \<or> beg + f + 4096 \<le> a \<Longrightarrow> fl2 a = w_flash w1 a"
      by (rule ota_flash_step [OF assms(1,2) _ c(9,4,7,8,11) sz(3) s]) (use c(3) k in simp_all)
    define w2 where "w2 = w1\<lparr>w_flash := fl2, w_ota := (w_ota w1)\<lparr>ota_sha256 := sh,
        ota_newaddr_cur := of_nat (beg + f + 4096), ota_secbuf := replicate 4096 0, ota_secused := 0\<rparr>\<rparr>"
    have "k + n < length img \<Longrightarrow> f + 4096 = k + n" using True k by simp
    then have "upload img beg (k + n) w2" unfolding upload_def fl w2_def by (simp add: c w2(2,3) add.assoc)
    moreover have "pending img (k + n) (m - n) w2" using c(10) by (simp add: pending_def w2_def)
    moreover have "ota_loop env w = ota_loop env w2" using st [unfolded w2(1), folded w2_def] True by simp
    moreover have "ota_rest w2 = ota_rest w" "w_calls w2 = w_calls w" using ota_copy_rest [of w] by (simp_all add: w2_def w1_def ota_rest_def)
    moreover have "flash_kept img beg w w2" using w2(4) c(12) b(1) assms(5) by (auto simp: flash_kept_def w2_def)
    ultimately show thesis using that [OF c(1-3)] by blast
  qed
qed

text \<open>The loop: all the bytes that have arrived are taken over.\<close>

lemma ota_loop_feeds:
  assumes "flash_sdk env" "placed img beg" "upload img beg k w" "pending img k m w"
  shows "\<exists>w'. ota_loop env w = Some (False, w') \<and> upload img beg (min (k + m) (length img)) w' \<and>
    pending img (min (k + m) (length img)) (m - (length img - k)) w' \<and> ota_rest w' = ota_rest w \<and> w_calls w' = w_calls w \<and> flash_kept img beg w w'"
  using assms(3,4)
proof (induction m arbitrary: k w rule: less_induct)
  case (less m)
  show ?case
  proof (cases "0 < m \<and> k < length img")
    case False
    have k: "k \<le> length img" using less.prems(1) by (simp add: upload_def)
    have "unat (hc_bufused (w_client w)) = m" "unat (hc_postlen (w_client w)) = length img" "unat (hc_postused (w_client w)) = k"
      using less.prems assms(2) k by (simp_all add: upload_def pending_def placed_def unat_small16 unat_small32)
    then have "\<not> (hc_bufused (w_client w) > 0 \<and> hc_postlen (w_client w) > hc_postused (w_client w))"
      using False by (auto simp: word_less_nat_alt)
    then have "ota_loop env w = Some (False, w)" unfolding ota_loop.simps [of env w] by (rule if_not_P)
    moreover have "min (k + m) (length img) = k" "m - (length img - k) = m" using False k by auto
    ultimately show ?thesis using less.prems by (simp add: flash_kept_def)
  next
    case True
    obtain n w' where n: "0 < n" "n \<le> m" "k + n \<le> length img" "ota_loop env w = ota_loop env w'"
      "upload img beg (k + n) w'" "pending img (k + n) (m - n) w'" "ota_rest w' = ota_rest w" "w_calls w' = w_calls w" "flash_kept img beg w w'"
      by (rule ota_turn [OF assms(1,2) less.prems]) (use True in blast)+
    have "k + n + (m - n) = k + m" "m - n - (length img - (k + n)) = m - (length img - k)" using n(2,3) by auto
    then show ?thesis using less.IH [of "m - n" "k + n" w'] n True by (auto simp: flash_kept_def)
  qed
qed


text \<open>Reading the image back digests it again.\<close>

lemma ota_read_back:
  assumes sdk: "flash_sdk env" and img: "length img < 2 ^ 29" "ota_appsize (w_ota w) = of_nat (length img)"
    "\<forall>a < length img. w_flash w (beg + a) = img ! a" and s: "sha.stands_for sha256_H0 (ota_sha256 (w_ota w)) (take (4096 * j) img)"
  shows "\<exists>sh sb. ota_read env (beg + 4096 * j) (beg + length img) w = Some (False, w\<lparr>w_ota := (w_ota w)\<lparr>ota_sha256 := sh, ota_secbuf := sb\<rparr>\<rparr>) \<and>
    sha.stands_for sha256_H0 sh img"
  using img s
proof (induction "length img - 4096 * j" arbitrary: j w rule: less_induct)
  case less
  show ?case
  proof (cases "4096 * j < length img")
    case False
    then have "take (4096 * j) img = img" by simp
    then have "ota_read env (beg + 4096 * j) (beg + length img) w = Some (False, w\<lparr>w_ota := (w_ota w)\<lparr>ota_sha256 := ota_sha256 (w_ota w), ota_secbuf := ota_secbuf (w_ota w)\<rparr>\<rparr>)"
      "sha.stands_for sha256_H0 (ota_sha256 (w_ota w)) img"
      using False less.prems(4) by (simp_all add: ota_read.simps [of env "beg + 4096 * j"])
    then show ?thesis by blast
  next
    case True
    define bs where "bs = map (w_flash w) [beg + 4096 * j..<beg + 4096 * j + 4096]"
    define n where "n = (if beg + 4096 * j + 4096 > beg + length img then length img mod 4096 else 4096)"
    have n: "n = min 4096 (length img - 4096 * j)"
    proof (cases "4096 * j + 4096 > length img")
      case short: True
      then have "length img div 4096 = j" using True by (intro div_nat_eqI) simp_all
      then have "length img mod 4096 = length img - 4096 * j" by (metis minus_mult_div_eq_mod)
      then show ?thesis using short True by (simp add: n_def)
    qed (simp add: n_def)
    have tk: "take n bs = take 4096 (drop (4096 * j) img)"
      using less.prems(3) by (intro nth_equalityI) (auto simp: n bs_def add.assoc)
    have us: "unat (ota_appsize (w_ota w)) = length img" using less.prems(1,2) by (simp add: unat_small32)
    obtain sh where sh: "sha256_proc (ota_sha256 (w_ota w)) (take n bs) = Some sh"
      "sha.stands_for sha256_H0 sh (take (4096 * j) img @ take n bs)"
      using sha.loop_absorbs [OF less.prems(4), of "take n bs" 0] by (auto simp: sha256_proc_def)
    define w1 where "w1 = w\<lparr>w_ota := (w_ota w)\<lparr>ota_sha256 := sh, ota_secbuf := bs\<rparr>\<rparr>"
    have "ota_read env (beg + 4096 * j) (beg + length img) w = ota_read env (beg + 4096 * Suc j) (beg + length img) w1"
      unfolding ota_read.simps [of env "beg + 4096 * j"] us flash_sdkD(3) [OF sdk] option.case bs_def [symmetric] n_def [symmetric] sh(1) w1_def
      using True by (simp add: ac_simps)
    moreover have "take (4096 * j) img @ take n bs = take (4096 * Suc j) img" unfolding tk by (simp add: take_add [symmetric] add.commute)
    ultimately show ?thesis using less.hyps [of "Suc j" w1] True less.prems sh(2) by (simp add: w1_def)
  qed
qed


section \<open>The verdict\<close>

text \<open>
  What the device answers to an image and a signature text under a key: \<open>Some True\<close> is an accepted
  update, \<open>None\<close> an access outside an array.
\<close>

definition ota_verdict :: "bigint \<Rightarrow> bigint \<Rightarrow> u8 list \<Rightarrow> u8 list \<Rightarrow> bool option" where
  "ota_verdict md e sig img =
     (if \<not> hex_text sig \<or> BITS md < 4 * length sig then Some False
      else let c = hexval sig ^ bval e mod bval md in
        if c \<ge> 2 ^ 256 then None else Some (strncmp_eq (sha256_spec img) (be_bytes 32 c) 32))"

lemma page_sends:
  assumes "w_outbuflen w = 0" "length (w_outbuf w) = 4096"
  shows "\<exists>w'. block (page_400 @ ts) w = block ts w' \<and> w_flash w' = w_flash w \<and> w_client w' = w_client w \<and>
      w_calls w' = w_calls w @ [Espconn_send (hc_conn (w_client w)) (concat text_400)]"
    and "\<exists>w'. block (page_202 @ ts) w = block ts w' \<and> w_flash w' = w_flash w \<and> w_client w' = w_client w \<and>
      w_calls w' = w_calls w @ [Espconn_send (hc_conn (w_client w)) (concat text_202)]"
  using block_page [of w text_400 ts] block_page [of w text_202 ts] assms text_lengths unfolding fixed_pages by auto

definition ota_reply :: "bool \<Rightarrow> nat \<Rightarrow> http_call list" where
  "ota_reply ok conn =
     (if ok then [Espconn_send conn (concat text_202), Upgrade_flag_finish, Arm_ota_reboot 5000]
      else [Espconn_send conn (concat text_400)])"

lemma ota_fail_reply:
  assumes "w_outbuflen w = 0" "length (w_outbuf w) = 4096"
  shows "\<exists>w'. ota_fail w = Return 1 w' \<and> w_flash w' = w_flash w \<and> w_client w' = w_client w \<and> w_calls w' = w_calls w @ ota_reply False (hc_conn (w_client w))"
  using page_sends(1) [OF assms, of "[RETURN 1]"] by (auto simp: ota_fail_def RETURN_def ota_reply_def)

lemma strncmp_eq_refl: "strncmp_eq xs xs n"
proof (induction xs arbitrary: n)
  case Nil
  show ?case by (cases n) simp_all
next
  case (Cons x xs)
  then show ?case by (cases n) simp_all
qed

lemma done_buf:
  assumes "length (sha_buf s) = 64" "unat (sha_buflen s) < 64"
  shows "length (sha_buf (fst (sha256_done s))) = 64"
  using assms by (simp add: sha256_done_def Let_def sha256_len_bytes_def)

lemma ota_signature_frame:
  assumes "ota_signature w = Some (r, w')"
  shows "w_flash w' = w_flash w \<and> w_client w' = w_client w \<and> w_calls w' = w_calls w \<and> w_outbuf w' = w_outbuf w \<and> w_outbuflen w' = w_outbuflen w"
  using assms by (auto simp: ota_signature_def Let_def split: option.splits if_splits prod.splits)

lemma ota_signature_verdict:
  assumes url: "cstr (url_mem (w_client w)) = base @ 63 # sig" "63 \<notin> set base" "length sig \<le> 297"
    and st: "sized (w_store w)" "rsa_key (w_store w pubkey_mod) (w_store w pubkey_exp)" and h: "ota_hash1 (w_ota w) = sha256_spec img"
  defines "v \<equiv> ota_verdict (w_store w pubkey_mod) (w_store w pubkey_exp) sig img"
  shows "if v = None then ota_signature w = None else \<exists>w'. ota_signature w = Some (v = Some False, w')"
proof -
  note r = ota_signature_result [OF url st]
  show ?thesis
  proof (cases "\<not> hex_text sig \<or> BITS (w_store w pubkey_mod) < 4 * length sig")
    case True
    then have "v = Some False" by (auto simp: v_def ota_verdict_def)
    then show ?thesis using r True by auto
  next
    case False
    define c where "c = hexval sig ^ bval (w_store w pubkey_exp) mod bval (w_store w pubkey_mod)"
    have "v = (if c \<ge> 2 ^ 256 then None else Some (strncmp_eq (sha256_spec img) (be_bytes 32 c) 32))"
      using False by (simp add: v_def ota_verdict_def c_def Let_def)
    then show ?thesis using conjunct2 [OF r, folded c_def] False h by (auto split: if_splits)
  qed
qed

text \<open>The second half of the update, once all of the image has arrived.\<close>

lemma ota_finish_result:
  assumes sdk: "flash_sdk env" and img: "placed img beg" and up: "upload img beg (length img) w"
    and url: "cstr (url_mem (w_client w)) = base @ 63 # sig" "63 \<notin> set base" "length sig \<le> 297"
    and st: "sized (w_store w)" "rsa_key (w_store w pubkey_mod) (w_store w pubkey_exp)"
    and out: "w_outbuflen w = 0" "length (w_outbuf w) = 4096"
  defines "v \<equiv> ota_verdict (w_store w pubkey_mod) (w_store w pubkey_exp) sig img"
  shows "case v of None \<Rightarrow> ota_finish env w = Fault
    | Some ok \<Rightarrow> \<exists>w'. ota_finish env w = Return 1 w' \<and> w_flash w' = w_flash w \<and> w_client w' = w_client w \<and>
        w_calls w' = w_calls w @ ota_reply ok (hc_conn (w_client w))"
proof -
  have l: "length img < 2 ^ 29" "beg < 2 ^ 31" "flushed (length img) (length img) = length img" using img by (simp_all add: placed_def flushed_def)
  have u: "sha.stands_for sha256_H0 (ota_sha256 (w_ota w)) img" "ota_newaddr_beg (w_ota w) = of_nat beg" "ota_appsize (w_ota w) = of_nat (length img)"
    "\<forall>a < length img. w_flash w (beg + a) = img ! a"
    using up unfolding upload_def l(3) by simp_all
  obtain s1 where s1: "sha256_done (ota_sha256 (w_ota w)) = (s1, sha256_spec img)" "length (sha_buf s1) = 64"
    using digest_spec [OF u(1) l(1)] done_buf [of "ota_sha256 (w_ota w)"] sha.stands_for_buflen [OF u(1)] by (metis prod.collapse)
  define w1 where "w1 = w\<lparr>w_ota := (w_ota w)\<lparr>ota_hash1 := sha256_spec img, ota_sha256 := sha256_init s1\<rparr>\<rparr>"
  have ub: "unat (ota_newaddr_beg (w_ota w1)) = beg" "unat (ota_appsize (w_ota w1)) = length img"
    using u(2,3) l by (simp_all add: w1_def unat_small32)
  have "sha.stands_for sha256_H0 (ota_sha256 (w_ota w1)) (take (4096 * 0) img)" using init_stands_for [OF s1(2)] by (simp add: w1_def)
  then obtain sh sb where rd: "ota_read env beg (beg + length img) w1 = Some (False, w1\<lparr>w_ota := (w_ota w1)\<lparr>ota_sha256 := sh, ota_secbuf := sb\<rparr>\<rparr>)"
    "sha.stands_for sha256_H0 sh img"
    using ota_read_back [OF sdk l(1), of w1 beg 0] u(3,4) by (auto simp: w1_def)
  obtain s2 where s2: "sha256_done sh = (s2, sha256_spec img)" using digest_spec [OF rd(2) l(1)] by (metis prod.collapse)
  define w3 where "w3 = w1\<lparr>w_ota := (w_ota w1)\<lparr>ota_secbuf := sb, ota_hash2 := sha256_spec img, ota_sha256 := s2\<rparr>\<rparr>"
  have fin: "ota_finish env w = (case ota_signature w3 of None \<Rightarrow> Fault | Some (True, w4) \<Rightarrow> ota_fail w4
      | Some (False, w4) \<Rightarrow> block (page_202 @ [call Upgrade_flag_finish, call (Arm_ota_reboot 5000), RETURN 1]) w4)"
    unfolding ota_finish_def Let_def s1(1) prod.case w1_def [symmetric] ub rd(1) option.case bool.case
    using s2 by (simp add: w3_def strncmp_eq_refl) (simp add: w1_def strncmp_eq_refl)
  have w3: "w_client w3 = w_client w" "w_store w3 = w_store w" "w_flash w3 = w_flash w" "w_calls w3 = w_calls w" "w_outbuf w3 = w_outbuf w"
    "w_outbuflen w3 = w_outbuflen w" "ota_hash1 (w_ota w3) = sha256_spec img" by (simp_all add: w3_def w1_def)
  have sg: "if v = None then ota_signature w3 = None else \<exists>w'. ota_signature w3 = Some (v = Some False, w')"
    using ota_signature_verdict [of w3 base sig img, unfolded w3(1,2), OF url st w3(7)] by (simp only: v_def)
  show ?thesis
  proof (cases v)
    case None
    then show ?thesis using sg fin by simp
  next
    case (Some ok)
    then obtain w4 where w4: "ota_signature w3 = Some (\<not> ok, w4)" using sg by auto
    note fr = ota_signature_frame [OF w4]
    have o4: "w_outbuflen w4 = 0" "length (w_outbuf w4) = 4096" using fr w3 out by simp_all
    show ?thesis
    proof (cases ok)
      case False
      then show ?thesis using Some fin w4 ota_fail_reply [OF o4] fr w3 by auto
    next
      case True
      then show ?thesis using Some fin w4 page_sends(2) [OF o4, of "[call Upgrade_flag_finish, call (Arm_ota_reboot 5000), RETURN 1]"] fr w3
        by (auto simp: call_def RETURN_def ota_reply_def)
    qed
  qed
qed


section \<open>The handler\<close>

text \<open>A device with \<open>kb\<close> KB of flash that runs one of the two images, and where it puts the other one.\<close>

definition ota_device :: "http_env \<Rightarrow> nat \<Rightarrow> bool" where
  "ota_device env kb \<longleftrightarrow> flash_size_kb (env_flash_map env) = Some kb \<and> unat (env_userbin_addr env) \<in> {4096, (kb div 2 + 4) * 1024}"

definition ota_target :: "http_env \<Rightarrow> nat \<Rightarrow> nat" where
  "ota_target env kb = (if unat (env_userbin_addr env) = 4096 then (kb div 2 + 4) * 1024 else 4096)"

definition ota_fits :: "nat \<Rightarrow> u8 list \<Rightarrow> bool" where
  "ota_fits kb img \<longleftrightarrow> 0 < length img \<and> length img \<le> (kb div 2 - 20) * 1024"

lemma flash_sizes: "flash_size_kb m = Some kb \<Longrightarrow> kb = 512 \<or> kb = 1024 \<or> kb = 2048 \<or> kb = 4096"
  by (cases m) auto

lemma ota_placed: "ota_device env kb \<Longrightarrow> ota_fits kb img \<Longrightarrow> placed img (ota_target env kb)"
  unfolding ota_device_def ota_fits_def ota_target_def placed_def using flash_sizes [of "env_flash_map env" kb] by fastforce

text \<open>Between two calls of the handler \<open>k\<close> bytes have been taken over.\<close>

definition ota_between :: "u8 list \<Rightarrow> nat \<Rightarrow> nat \<Rightarrow> http_world \<Rightarrow> bool" where
  "ota_between img beg k w \<longleftrightarrow> hc_state (w_client w) = HTTP_STATE_POSTDATA \<and> hc_postlen (w_client w) = of_nat (length img) \<and>
     hc_postused (w_client w) = of_nat k \<and> length (ota_secbuf (w_ota w)) = 4096 \<and> length (sha_buf (ota_sha256 (w_ota w))) = 64 \<and>
     (0 < k \<longrightarrow> upload img beg k w)"

lemma ota_start_upload:
  assumes "ota_device env kb" "ota_fits kb img" "ota_between img beg 0 w" "beg = ota_target env kb"
  obtains ot where "ota_start env w = (False, w\<lparr>w_ota := ot\<rparr>)" "upload img beg 0 (w\<lparr>w_ota := ot\<rparr>)"
proof -
  define ot where "ot = (w_ota w)\<lparr>ota_client := Some (w_id w), ota_sha256 := sha256_init (ota_sha256 (w_ota w)),
    ota_newaddr_beg := of_nat beg, ota_newaddr_cur := of_nat beg, ota_appsize := hc_postlen (w_client w), ota_secused := 0\<rparr>"
  have b: "hc_state (w_client w) = HTTP_STATE_POSTDATA" "hc_postlen (w_client w) = of_nat (length img)" "hc_postused (w_client w) = 0"
    "length (ota_secbuf (w_ota w)) = 4096" "length (sha_buf (ota_sha256 (w_ota w))) = 64"
    using assms(3) by (simp_all add: ota_between_def)
  have "placed img beg" using ota_placed assms by simp
  then have l: "unat (hc_postlen (w_client w)) = length img" unfolding b(2) by (intro unat_small32) (simp add: placed_def)
  have "ota_start env w = (False, w\<lparr>w_ota := ot\<rparr>)"
    using assms(1,2,4) b(1) l unfolding ota_start_def ota_device_def ota_fits_def ota_target_def
    by (auto simp: Let_def ot_def)
  moreover have "upload img beg 0 (w\<lparr>w_ota := ot\<rparr>)"
    using b init_stands_for [OF b(5)] by (simp add: upload_def ot_def flushed_def)
  ultimately show thesis using that by blast
qed

lemma ota_between_upload:
  assumes "upload img beg k w" "hc_state (w_client w) = HTTP_STATE_POSTDATA"
  shows "ota_between img beg k w"
  using assms sha.stands_for_buflen(3) unfolding ota_between_def upload_def by blast

text \<open>One call of the handler with \<open>m\<close> more bytes in the buffer.\<close>

lemma ota_push_call:
  assumes sdk: "flash_sdk env" and dev: "ota_device env kb" "ota_fits kb img" and k: "k < length img"
    and b: "ota_between img beg k w" "beg = ota_target env kb" "pending img k m w"
  obtains w4 where "http_url_ota_push env w = (if k + m < length img then Return 0 w4 else ota_finish env w4)"
    "upload img beg (min (k + m) (length img)) w4" "pending img (min (k + m) (length img)) (m - (length img - k)) w4"
    "ota_rest w4 = ota_rest w" "flash_kept img beg w w4"
    "w_calls w4 = w_calls w @ [Recv_hold (hc_conn (w_client w)), Recv_unhold (hc_conn (w_client w))]"
proof -
  have pl: "placed img beg" using ota_placed dev b(2) by simp
  then have l: "length img < 2 ^ 29" by (simp add: placed_def)
  have "unat (hc_postused (w_client w)) = k" using b(1) k l by (simp add: ota_between_def unat_small32)
  then have k0: "hc_postused (w_client w) = 0 \<longleftrightarrow> k = 0" by (metis unat_eq_zero)
  obtain w1 where w1: "(if hc_postused (w_client w) = 0 then ota_start env w else (False, w)) = (False, w1)" "upload img beg k w1"
    "w_client w1 = w_client w" "ota_rest w1 = ota_rest w" "w_calls w1 = w_calls w" "w_flash w1 = w_flash w"
  proof (cases "k = 0")
    case True
    then obtain ot where "ota_start env w = (False, w\<lparr>w_ota := ot\<rparr>)" "upload img beg 0 (w\<lparr>w_ota := ot\<rparr>)"
      using ota_start_upload [OF dev _ b(2)] b(1) by blast
    then show thesis using that [of "w\<lparr>w_ota := ot\<rparr>"] True k0 by (simp add: ota_rest_def)
  next
    case False
    then show thesis using that [of w] k0 b(1) by (simp add: ota_between_def)
  qed
  define w2 where "w2 = w1\<lparr>w_calls := w_calls w1 @ [Recv_hold (hc_conn (w_client w1))]\<rparr>"
  have up: "upload img beg k w2" "pending img k m w2" using w1(2,3) b(3) by (simp_all add: w2_def upload_def pending_def)
  obtain w3 where w3: "ota_loop env w2 = Some (False, w3)" "upload img beg (min (k + m) (length img)) w3"
    "pending img (min (k + m) (length img)) (m - (length img - k)) w3" "ota_rest w3 = ota_rest w2" "w_calls w3 = w_calls w2" "flash_kept img beg w2 w3"
    using ota_loop_feeds [OF sdk pl up] by blast
  define w4 where "w4 = w3\<lparr>w_calls := w_calls w3 @ [Recv_unhold (hc_conn (w_client w1))]\<rparr>"
  have u4: "upload img beg (min (k + m) (length img)) w4" using w3(2) by (simp add: w4_def upload_def)
  have "hc_postlen (w_client w4) > hc_postused (w_client w4) \<longleftrightarrow> k + m < length img"
  proof -
    have "unat (hc_postlen (w_client w4)) = length img" "unat (hc_postused (w_client w4)) = min (k + m) (length img)"
      using u4 l unfolding upload_def by (simp_all add: unat_small32 del: of_nat_min)
    then show ?thesis by (simp add: word_less_nat_alt min_def)
  qed
  moreover have "ota_client (w_ota w1) = Some (w_id w1)" using w1(2) by (simp add: upload_def)
  ultimately have "http_url_ota_push env w = (if k + m < length img then Return 0 w4 else ota_finish env w4)"
    unfolding http_url_ota_push_def Let_def w1(1) prod.case w2_def [symmetric] w3(1) option.case bool.case w4_def [symmetric] by simp
  moreover have "ota_rest w4 = ota_rest w" using w3(4) w1(4) by (simp add: w4_def w2_def ota_rest_def)
  moreover have "flash_kept img beg w w4" using w3(6) w1(6) by (simp add: flash_kept_def w4_def w2_def)
  moreover have "w_calls w4 = w_calls w @ [Recv_hold (hc_conn (w_client w)), Recv_unhold (hc_conn (w_client w))]"
    using w3(5) w1(3,5) by (simp add: w4_def w2_def)
  moreover have "pending img (min (k + m) (length img)) (m - (length img - k)) w4" using w3(3) by (simp add: w4_def pending_def)
  ultimately show thesis using that [OF _ u4] by blast
qed

end
