(* ===== verification/Ota_Session.thy ===== *)
theory Ota_Session
  imports Ota_Update Http_Server
begin

text \<open>
  A firmware update as the server sees it: the post data of \<^verbatim>\<open>/ota/push?<signature>\<close> arrives at
  \<^verbatim>\<open>http_client_recv_cb\<close> in packets.
\<close>

section \<open>The packets\<close>

fun http_recvs :: "http_env \<Rightarrow> nat \<Rightarrow> u8 list list \<Rightarrow> http_server \<Rightarrow> http_server option" where
  "http_recvs env conn [] s = Some s"
| "http_recvs env conn (d # ds) s = Option.bind (http_client_recv_cb env conn d s) (http_recvs env conn ds)"

lemma http_recvs_append: "http_recvs env conn (ds @ es) s = Option.bind (http_recvs env conn ds s) (http_recvs env conn es)"
  by (induction ds arbitrary: s) (auto simp: bind_assoc split: bind_splits)

text \<open>The state of the handler for the slot \<open>i\<close>.\<close>

definition slot_world :: "http_server \<Rightarrow> nat \<Rightarrow> http_world" where
  "slot_world s i = (sv_world s)\<lparr>w_client := sv_clients s ! i, w_id := i\<rparr>"

text \<open>
  The slot \<open>i\<close> serves an update with the image \<open>img\<close> and the signature text \<open>sig\<close>, of which \<open>k\<close> bytes have
  arrived.
\<close>

definition ota_serving :: "http_env \<Rightarrow> nat \<Rightarrow> u8 list \<Rightarrow> u8 list \<Rightarrow> nat \<Rightarrow> nat \<Rightarrow> nat \<Rightarrow> http_server \<Rightarrow> bool" where
  "ota_serving env kb sig img conn i k s \<longleftrightarrow>
     sv_reverse s conn = Some i \<and> i < length (sv_clients s) \<and>
     (let w = slot_world s i; c = w_client w in
        hc_conn c = conn \<and> length (hc_buf c) = 2048 \<and> hc_bufused c = 0 \<and>
        0 \<in> set (hc_url c) \<and> cstr (hc_url c) = ascii ''/ota/push?'' @ sig \<and>
        length (w_outbuf w) = 4096 \<and> sized (w_store w) \<and> rsa_key (w_store w pubkey_mod) (w_store w pubkey_exp) \<and>
        ota_between img (ota_target env kb) k w)"

lemma cstr_cut: "0 \<in> set xs \<Longrightarrow> cstr (xs @ ys) = cstr xs"
  by (simp add: cstr_def takeWhile_append1)

lemma c_strstr_none: "x \<notin> set xs \<Longrightarrow> c_strstr xs [x] = None"
  by (induction xs) (auto simp: c_strstr.simps [of "_ # _"] c_strstr.simps [of "[]"])

text \<open>The URL up to a question mark selects the handler.\<close>

lemma dispatch_base:
  assumes "0 \<in> set (hc_url (w_client w))" "cstr (hc_url (w_client w)) = base @ q" "63 \<notin> set base" "q = [] \<or> hd q = 63" "length base < 128"
  defines "w1 \<equiv> w\<lparr>w_outbuf := replicate (length (w_outbuf w)) 0, w_outbuflen := 0\<rparr>"
  shows "http_dispatch env w = (case map_of (http_urls env) base of Some h \<Rightarrow> h w1 | None \<Rightarrow> http_url_404 w1)"
proof -
  have s: "cstr (url_mem (w_client w)) = base @ q" "0 \<in> set (url_mem (w_client w))"
    using cstr_cut [OF assms(1)] assms(1,2) by (simp_all add: url_mem_def)
  have b: "(case c_strstr (base @ q) [63] of Some q' \<Rightarrow> take q' (base @ q) | None \<Rightarrow> base @ q) = base"
  proof (cases q)
    case Nil
    then show ?thesis using c_strstr_none [OF assms(3)] by simp
  next
    case (Cons x ys)
    then show ?thesis using c_strstr_char [OF assms(3)] assms(4) by simp
  qed
  show ?thesis unfolding http_dispatch_def Let_def s(1) b w1_def using s(2) assms(5) by simp
qed

lemma dispatch_ota:
  assumes "0 \<in> set (hc_url (w_client w))" "cstr (hc_url (w_client w)) = ascii ''/ota/push?'' @ sig"
  shows "http_dispatch env w = http_url_ota_push env (w\<lparr>w_outbuf := replicate (length (w_outbuf w)) 0, w_outbuflen := 0\<rparr>)"
  using dispatch_base [of w "ascii ''/ota/push''" "63 # sig" env] assms by (simp add: http_urls_def ascii_def)

text \<open>The handler starts with an empty output buffer.\<close>

definition fresh_out :: "http_world \<Rightarrow> http_world" where
  "fresh_out w = w\<lparr>w_outbuf := replicate (length (w_outbuf w)) 0, w_outbuflen := 0\<rparr>"

text \<open>A packet reaches the handler.\<close>

lemma ota_recv:
  assumes "ota_serving env kb sig img conn i k s" "length d \<le> 2048"
  defines "w \<equiv> slot_world s i"
  defines "w1 \<equiv> fresh_out (w\<lparr>w_client := (w_client w)\<lparr>hc_buf := patch (hc_buf (w_client w)) 0 d, hc_bufused := of_nat (length d)\<rparr>\<rparr>)"
  shows "http_client_recv_cb env conn d s = (case http_url_ota_push env w1 of
      Return r w' \<Rightarrow> (let s1 = s\<lparr>sv_world := w', sv_clients := (sv_clients s)[i := w_client w']\<rparr> in Some (if r \<noteq> 0 then post_kill conn s1 else s1))
    | _ \<Rightarrow> None)"
proof -
  have c: "sv_reverse s conn = Some i" "length (hc_buf (sv_clients s ! i)) = 2048" "hc_bufused (sv_clients s ! i) = 0"
    "0 \<in> set (hc_url (sv_clients s ! i))" "cstr (hc_url (sv_clients s ! i)) = ascii ''/ota/push?'' @ sig" "hc_state (sv_clients s ! i) = HTTP_STATE_POSTDATA"
    using assms(1) by (simp_all add: ota_serving_def slot_world_def Let_def ota_between_def)
  define c1 where "c1 = (sv_clients s ! i)\<lparr>hc_buf := patch (hc_buf (sv_clients s ! i)) 0 d, hc_bufused := of_nat (length d)\<rparr>"
  have "http_process env ((sv_world s)\<lparr>w_client := c1, w_id := i\<rparr>) = http_url_ota_push env (fresh_out ((sv_world s)\<lparr>w_client := c1, w_id := i\<rparr>))"
    using c(4-) by (simp add: http_process_def dispatch_ota fresh_out_def c1_def)
  moreover have "fresh_out ((sv_world s)\<lparr>w_client := c1, w_id := i\<rparr>) = w1"
    by (cases "sv_world s") (simp add: w1_def w_def slot_world_def c1_def fresh_out_def)
  moreover have "patch (hc_buf (sv_clients s ! i)) (unat (hc_bufused (sv_clients s ! i))) d = patch (hc_buf (sv_clients s ! i)) 0 d"
    "hc_bufused (sv_clients s ! i) + of_nat (length d) = of_nat (length d)"
    "\<not> unat (hc_bufused (sv_clients s ! i)) + length d > length (hc_buf (sv_clients s ! i))"
    using c(2,3) assms(2) by simp_all
  ultimately show ?thesis unfolding http_client_recv_cb_def c(1) option.case Let_def c1_def by simp
qed

text \<open>What a packet that holds the next bytes of the image makes of the handler's state.\<close>

definition ota_holds :: "nat \<Rightarrow> http_call list" where
  "ota_holds conn = [Recv_hold conn, Recv_unhold conn]"

lemma ota_packet:
  assumes sdk: "flash_sdk env" and dev: "ota_device env kb" "ota_fits kb img" and k: "k < length img"
    and s: "ota_serving env kb sig img conn i k s" and d: "length d \<le> 2048" "d = take (length d) (drop k img)"
  obtains w4 where "http_client_recv_cb env conn d s = (case (if k + length d < length img then Return 0 w4 else ota_finish env w4) of
      Return r w' \<Rightarrow> (let s1 = s\<lparr>sv_world := w', sv_clients := (sv_clients s)[i := w_client w']\<rparr> in Some (if r \<noteq> 0 then post_kill conn s1 else s1))
    | _ \<Rightarrow> None)"
    "upload img (ota_target env kb) (k + length d) w4" "pending img (k + length d) 0 w4"
    "ota_rest w4 = ota_rest (fresh_out (slot_world s i))" "flash_kept img (ota_target env kb) (sv_world s) w4" "w_calls w4 = w_calls (sv_world s) @ ota_holds conn"
proof -
  define w where "w = slot_world s i"
  define w1 where "w1 = fresh_out (w\<lparr>w_client := (w_client w)\<lparr>hc_buf := patch (hc_buf (w_client w)) 0 d, hc_bufused := of_nat (length d)\<rparr>\<rparr>)"
  have c: "length (hc_buf (w_client w)) = 2048" "hc_conn (w_client w) = conn" "ota_between img (ota_target env kb) k w"
    using s by (simp_all add: ota_serving_def Let_def w_def)
  have kd: "k + length d \<le> length img"
  proof -
    have "length d = min (length d) (length img - k)" using arg_cong [OF d(2), of length] by simp
    then show ?thesis using k by simp
  qed
  have b: "ota_between img (ota_target env kb) k w1" using c(3) by (simp add: ota_between_def upload_def w1_def fresh_out_def)
  have p: "pending img k (length d) w1"
    using c(1) d kd by (simp add: pending_def w1_def fresh_out_def patch_def)
  obtain w4 where w4: "http_url_ota_push env w1 = (if k + length d < length img then Return 0 w4 else ota_finish env w4)"
    "upload img (ota_target env kb) (min (k + length d) (length img)) w4" "pending img (min (k + length d) (length img)) (length d - (length img - k)) w4"
    "ota_rest w4 = ota_rest w1" "flash_kept img (ota_target env kb) w1 w4"
    "w_calls w4 = w_calls w1 @ [Recv_hold (hc_conn (w_client w1)), Recv_unhold (hc_conn (w_client w1))]"
    using ota_push_call [OF sdk dev k b refl p] by blast
  have "ota_rest w1 = ota_rest (fresh_out (slot_world s i))" "w_flash w1 = w_flash (sv_world s)" "w_calls w1 = w_calls (sv_world s)" "hc_conn (w_client w1) = conn"
    using c(2) by (simp_all add: ota_rest_def w1_def fresh_out_def w_def slot_world_def Let_def)
  moreover have "min (k + length d) (length img) = k + length d" "length d - (length img - k) = 0" using kd by auto
  ultimately show thesis using that [of w4] w4 ota_recv [OF s d(1)] by (simp add: w_def w1_def flash_kept_def ota_holds_def)
qed

text \<open>A packet that does not complete the image.\<close>

lemma ota_more:
  assumes "flash_sdk env" "ota_device env kb" "ota_fits kb img" "k + length d < length img"
    "ota_serving env kb sig img conn i k s" "length d \<le> 2048" "d = take (length d) (drop k img)"
  obtains s' where "http_client_recv_cb env conn d s = Some s'" "ota_serving env kb sig img conn i (k + length d) s'"
    "flash_kept img (ota_target env kb) (sv_world s) (sv_world s')" "w_calls (sv_world s') = w_calls (sv_world s) @ ota_holds conn"
    "w_store (sv_world s') = w_store (sv_world s)" "sv_posts s' = sv_posts s"
proof -
  have k: "k < length img" using assms(4) by simp
  obtain w4 where w4: "http_client_recv_cb env conn d s = Some (s\<lparr>sv_world := w4, sv_clients := (sv_clients s)[i := w_client w4]\<rparr>)"
    "upload img (ota_target env kb) (k + length d) w4" "pending img (k + length d) 0 w4"
    "ota_rest w4 = ota_rest (fresh_out (slot_world s i))" "flash_kept img (ota_target env kb) (sv_world s) w4" "w_calls w4 = w_calls (sv_world s) @ ota_holds conn"
    using ota_packet [OF assms(1-3) k assms(5-7)] assms(4) by (auto simp: Let_def)
  define s' where "s' = s\<lparr>sv_world := w4, sv_clients := (sv_clients s)[i := w_client w4]\<rparr>"
  have i: "i < length (sv_clients s)" using assms(5) by (simp add: ota_serving_def)
  note r = w4(4) [unfolded ota_rest_def fresh_out_def slot_world_def Let_def, simplified]
  have sl: "slot_world s' i = w4" using i r by (simp add: slot_world_def s'_def)
  have "ota_between img (ota_target env kb) (k + length d) w4"
    using ota_between_upload [OF w4(2)] r assms(5) by (simp add: ota_serving_def slot_world_def Let_def ota_between_def)
  then have "ota_serving env kb sig img conn i (k + length d) s'"
    using assms(5) w4(3) r unfolding ota_serving_def sl by (simp add: s'_def slot_world_def Let_def pending_def)
  then show thesis using that [of s'] w4 r by (simp add: s'_def)
qed

text \<open>Any number of packets before the last one.\<close>

lemma ota_packets:
  assumes "flash_sdk env" "ota_device env kb" "ota_fits kb img"
    and "ota_serving env kb sig img conn i k s" "\<forall>d \<in> set ds. length d \<le> 2048" "k + length (concat ds) < length img"
    "concat ds = take (length (concat ds)) (drop k img)"
  shows "\<exists>s'. http_recvs env conn ds s = Some s' \<and> ota_serving env kb sig img conn i (k + length (concat ds)) s' \<and>
    flash_kept img (ota_target env kb) (sv_world s) (sv_world s') \<and>
    w_calls (sv_world s') = w_calls (sv_world s) @ concat (replicate (length ds) (ota_holds conn)) \<and>
    w_store (sv_world s') = w_store (sv_world s) \<and> sv_posts s' = sv_posts s"
  using assms(4-)
proof (induction ds arbitrary: k s)
  case Nil
  then show ?case by (simp add: flash_kept_def)
next
  case (Cons d ds)
  have cut: "d = take (length d) (drop k img)" "concat ds = take (length (concat ds)) (drop (k + length d) img)"
    using arg_cong [OF Cons.prems(4), of "take (length d)"] arg_cong [OF Cons.prems(4), of "drop (length d)"]
    by (simp_all add: drop_take add.commute)
  obtain s1 where s1: "http_client_recv_cb env conn d s = Some s1" "ota_serving env kb sig img conn i (k + length d) s1"
    "flash_kept img (ota_target env kb) (sv_world s) (sv_world s1)" "w_calls (sv_world s1) = w_calls (sv_world s) @ ota_holds conn"
    "w_store (sv_world s1) = w_store (sv_world s)" "sv_posts s1 = sv_posts s"
    by (rule ota_more [OF assms(1-3) _ Cons.prems(1) _ cut(1)]) (use Cons.prems in simp_all)
  show ?case using Cons.IH [OF s1(2)] Cons.prems(2,3) cut(2) s1 by (auto simp: flash_kept_def add.assoc)
qed

text \<open>The last packet.\<close>

lemma ota_last:
  assumes sdk: "flash_sdk env" and dev: "ota_device env kb" "ota_fits kb img" and k: "k < length img"
    and s: "ota_serving env kb sig img conn i k s" and sig: "length sig \<le> 297" and d: "length d \<le> 2048" "d = drop k img"
  defines "v \<equiv> ota_verdict (w_store (sv_world s) pubkey_mod) (w_store (sv_world s) pubkey_exp) sig img"
  shows "case v of None \<Rightarrow> http_client_recv_cb env conn d s = None
    | Some ok \<Rightarrow> \<exists>s'. http_client_recv_cb env conn d s = Some s' \<and> (\<forall>a < length img. w_flash (sv_world s') (ota_target env kb + a) = img ! a) \<and>
        flash_kept img (ota_target env kb) (sv_world s) (sv_world s') \<and>
        w_calls (sv_world s') = w_calls (sv_world s) @ ota_holds conn @ ota_reply ok conn \<and> sv_posts s' = sv_posts s @ [conn]"
proof -
  have l: "k + length d = length img" "d = take (length d) (drop k img)" using k d(2) by simp_all
  obtain w4 where w4: "http_client_recv_cb env conn d s = (case ota_finish env w4 of
      Return r w' \<Rightarrow> (let s1 = s\<lparr>sv_world := w', sv_clients := (sv_clients s)[i := w_client w']\<rparr> in Some (if r \<noteq> 0 then post_kill conn s1 else s1))
    | _ \<Rightarrow> None)"
    "upload img (ota_target env kb) (length img) w4"
    "ota_rest w4 = ota_rest (fresh_out (slot_world s i))" "flash_kept img (ota_target env kb) (sv_world s) w4" "w_calls w4 = w_calls (sv_world s) @ ota_holds conn"
    using ota_packet [OF sdk dev k s d(1) l(2)] l(1) by auto
  note r = w4(3) [unfolded ota_rest_def fresh_out_def slot_world_def Let_def, simplified]
  have c: "hc_conn (w_client w4) = conn" "w_store w4 = w_store (sv_world s)" "w_outbuflen w4 = 0" "length (w_outbuf w4) = 4096" "sized (w_store w4)"
      "rsa_key (w_store w4 pubkey_mod) (w_store w4 pubkey_exp)" "0 \<in> set (hc_url (w_client w4))" "cstr (hc_url (w_client w4)) = ascii ''/ota/push?'' @ sig"
    using s r by (simp_all add: ota_serving_def slot_world_def Let_def)
  have "cstr (url_mem (w_client w4)) = ascii ''/ota/push'' @ 63 # sig" using cstr_cut [OF c(7)] c(8) by (simp add: url_mem_def ascii_def)
  moreover have "63 \<notin> set (ascii ''/ota/push'')" by (simp add: ascii_def)
  ultimately have fin: "case v of None \<Rightarrow> ota_finish env w4 = Fault
    | Some ok \<Rightarrow> \<exists>w'. ota_finish env w4 = Return 1 w' \<and> w_flash w' = w_flash w4 \<and> w_client w' = w_client w4 \<and> w_calls w' = w_calls w4 @ ota_reply ok conn"
    using ota_finish_result [OF sdk ota_placed [OF dev] w4(2) _ _ sig c(5,6,3,4)] unfolding c(1,2) v_def by blast
  have fl: "\<forall>a < length img. w_flash w4 (ota_target env kb + a) = img ! a" using w4(2) by (simp add: upload_def flushed_def)
  show ?thesis
  proof (cases v)
    case None
    then show ?thesis using fin w4(1) by simp
  next
    case (Some ok)
    then obtain w' where "ota_finish env w4 = Return 1 w'" "w_flash w' = w_flash w4" "w_calls w' = w_calls w4 @ ota_reply ok conn" using fin by auto
    then show ?thesis using w4 fl Some by (simp add: Let_def post_kill_def flash_kept_def)
  qed
qed

text \<open>The regions of the flash that an update must not touch: the running image and the parameters.\<close>

definition ota_spared :: "http_env \<Rightarrow> nat \<Rightarrow> nat \<Rightarrow> bool" where
  "ota_spared env kb a \<longleftrightarrow>
     (unat (env_userbin_addr env) \<le> a \<and> a < unat (env_userbin_addr env) + (kb div 2 - 20) * 1024) \<or>
     (param_sector kb \<le> a div 4096 \<and> a div 4096 < param_sector kb + 3)"

lemma ota_spared_outside:
  assumes "ota_device env kb" "ota_fits kb img" "ota_spared env kb a"
  shows "a < ota_target env kb \<or> ota_target env kb + length img + 4095 \<le> a"
proof -
  have kb: "kb = 512 \<or> kb = 1024 \<or> kb = 2048 \<or> kb = 4096" using assms(1) flash_sizes by (auto simp: ota_device_def)
  then have p: "4096 * param_sector kb = (kb div 2 - 12) * 1024" by (auto simp: param_sector_def)
  define u where "u = unat (env_userbin_addr env)"
  have dev: "u = 4096 \<and> ota_target env kb = (kb div 2 + 4) * 1024 \<or> u = (kb div 2 + 4) * 1024 \<and> ota_target env kb = 4096"
    using assms(1) kb by (auto simp: ota_device_def ota_target_def u_def)
  have img: "length img \<le> (kb div 2 - 20) * 1024" using assms(2) by (simp add: ota_fits_def)
  have "u \<le> a \<and> a < u + (kb div 2 - 20) * 1024 \<or> (kb div 2 - 12) * 1024 \<le> a \<and> a < (kb div 2 - 12) * 1024 + 12288"
  proof (cases "u \<le> a \<and> a < u + (kb div 2 - 20) * 1024")
    case False
    then have "param_sector kb \<le> a div 4096 \<and> a div 4096 < param_sector kb + 3" using assms(3) unfolding ota_spared_def u_def by blast
    then have "4096 * param_sector kb \<le> 4096 * (a div 4096)" "4096 * (a div 4096) + 4096 \<le> 4096 * param_sector kb + 12288" by auto
    moreover have "a = 4096 * (a div 4096) + a mod 4096" "a mod 4096 < 4096" by simp_all
    ultimately show ?thesis unfolding p by linarith
  qed simp
  then show ?thesis using dev img kb by (elim disjE) simp_all
qed

section \<open>Digests as numbers\<close>

definition digest_val :: "u8 list \<Rightarrow> nat" where
  "digest_val d = le_val (rev d)"

lemma le_val_bytes: "le_val (map (\<lambda>i. word_of_nat (n div 256 ^ i)) [0..<k]) = n mod 256 ^ k"
proof (induction k)
  case (Suc k)
  have "unat (word_of_nat (n div 256 ^ k) :: u8) = n div 256 ^ k mod 256" by (simp add: unat_of_nat)
  moreover have "n mod 256 ^ Suc k = 256 ^ k * (n div 256 ^ k mod 256) + n mod 256 ^ k"
    using mod_mult2_eq [of n "256 ^ k" 256] by (simp add: mult.commute)
  ultimately show ?case using Suc by (simp add: le_val_append)
qed simp

lemma digest_val_be: "n < 2 ^ 256 \<Longrightarrow> digest_val (be_bytes 32 n) = n"
  using le_val_bytes [of n 32] by (simp add: digest_val_def be_bytes_def rev_map)

lemma be_digest_val: "length d = 32 \<Longrightarrow> be_bytes 32 (digest_val d) = d" "length d = 32 \<Longrightarrow> digest_val d < 2 ^ 256"
  using rev_take_be [of 32 "rev d"] le_val_less [of "rev d"] by (simp_all add: digest_val_def)

lemma length_sha256_spec: "length (sha256_spec m) = 32"
proof -
  have "length (foldl sha256_compress sha256_H0 (blocks 64 b)) = 8" for b
    by (rule foldl_consume(2)) (simp add: sha256_H0_def)
  then show ?thesis by (simp add: sha256_spec_def be_bytes_def length_concat comp_def sum_list_triv)
qed

section \<open>Properties\<close>

text \<open>
  The update, once the headers have been received. An image that fits arrives as post data in any packets; then the half
  of the flash that is not running holds it, the flash outside its sectors is unchanged, and the device
  answers 202 and arms the reboot into it, or answers 400, as \<open>ota_verdict\<close> says of the signature
  text in the URL under the public key.
\<close>

lemma ota_upload:
  assumes "flash_sdk env" "ota_device env kb" "ota_fits kb img"
    and "ota_serving env kb sig img conn i 0 s" "length sig \<le> 297"
    and "concat ds @ d = img" "d \<noteq> []" "\<forall>d \<in> set (ds @ [d]). length d \<le> 2048"
  shows "case ota_verdict (w_store (sv_world s) pubkey_mod) (w_store (sv_world s) pubkey_exp) sig img of
      None \<Rightarrow> http_recvs env conn (ds @ [d]) s = None
    | Some ok \<Rightarrow> \<exists>s'. http_recvs env conn (ds @ [d]) s = Some s' \<and>
        (\<forall>a < length img. w_flash (sv_world s') (ota_target env kb + a) = img ! a) \<and>
        (\<forall>a. a < ota_target env kb \<or> ota_target env kb + length img + 4095 \<le> a \<longrightarrow> w_flash (sv_world s') a = w_flash (sv_world s) a) \<and>
        w_calls (sv_world s') = w_calls (sv_world s) @ concat (replicate (length ds + 1) (ota_holds conn)) @ ota_reply ok conn \<and>
        sv_posts s' = sv_posts s @ [conn]"
proof -
  define k where "k = length (concat ds)"
  have k: "k < length img" "concat ds = take k img" "d = drop k img" using assms(6,7) by (auto simp: k_def)
  obtain s1 where s1: "http_recvs env conn ds s = Some s1" "ota_serving env kb sig img conn i k s1"
    "flash_kept img (ota_target env kb) (sv_world s) (sv_world s1)"
    "w_calls (sv_world s1) = w_calls (sv_world s) @ concat (replicate (length ds) (ota_holds conn))"
    "w_store (sv_world s1) = w_store (sv_world s)" "sv_posts s1 = sv_posts s"
    using ota_packets [OF assms(1-4), of ds, folded k_def] assms(8) k(1,2) by auto
  have rep: "concat (replicate (length ds + 1) h) = concat (replicate (length ds) h) @ h" for h :: "http_call list"
    by (simp add: replicate_append_same [symmetric])
  have r: "http_recvs env conn (ds @ [d]) s = http_client_recv_cb env conn d s1" using s1(1) by (simp add: http_recvs_append) (cases "http_client_recv_cb env conn d s1"; simp)
  have fl: "flash_kept img beg (sv_world s1) w' \<Longrightarrow> beg = ota_target env kb \<Longrightarrow>
      \<forall>a. a < beg \<or> beg + length img + 4095 \<le> a \<longrightarrow> w_flash w' a = w_flash (sv_world s) a" for beg w'
    using s1(3) by (simp add: flash_kept_def)
  define v where "v = ota_verdict (w_store (sv_world s) pubkey_mod) (w_store (sv_world s) pubkey_exp) sig img"
  have "length d \<le> 2048" using assms(8) by simp
  note last = ota_last [OF assms(1-3) k(1) s1(2) assms(5) this k(3), unfolded s1(4-6), folded v_def]
  show ?thesis
  proof (cases v)
    case None
    then show ?thesis using last r by (simp flip: v_def)
  next
    case (Some ok)
    then obtain s' where "http_client_recv_cb env conn d s1 = Some s'" "\<forall>a < length img. w_flash (sv_world s') (ota_target env kb + a) = img ! a"
      "flash_kept img (ota_target env kb) (sv_world s1) (sv_world s')"
      "w_calls (sv_world s') = (w_calls (sv_world s) @ concat (replicate (length ds) (ota_holds conn))) @ ota_holds conn @ ota_reply ok conn"
      "sv_posts s' = sv_posts s @ [conn]"
      using last by auto
    then show ?thesis using Some r fl [of "ota_target env kb" "sv_world s'"] unfolding rep v_def [symmetric] by simp
  qed
qed

text \<open>
  C4: an interrupted update. As long as packets are missing, the device answers nothing and arms no reboot, and the
  running image and the stored parameters keep every byte.
\<close>

theorem ota_partial:
  assumes "flash_sdk env" "ota_device env kb" "ota_fits kb img" "ota_serving env kb sig img conn i 0 s"
    and "concat ds @ missing = img" "missing \<noteq> []" "\<forall>d \<in> set ds. length d \<le> 2048"
  shows "\<exists>s'. http_recvs env conn ds s = Some s' \<and> (\<forall>a. ota_spared env kb a \<longrightarrow> w_flash (sv_world s') a = w_flash (sv_world s) a) \<and>
    w_calls (sv_world s') = w_calls (sv_world s) @ concat (replicate (length ds) (ota_holds conn)) \<and> sv_posts s' = sv_posts s"
proof -
  have "length (concat ds) < length img" "concat ds = take (length (concat ds)) (drop 0 img)" using assms(5,6) by auto
  then obtain s' where "http_recvs env conn ds s = Some s'" "flash_kept img (ota_target env kb) (sv_world s) (sv_world s')"
    "w_calls (sv_world s') = w_calls (sv_world s) @ concat (replicate (length ds) (ota_holds conn))" "sv_posts s' = sv_posts s"
    using ota_packets [OF assms(1-4,7)] by auto
  then show ?thesis using ota_spared_outside [OF assms(2,3)] unfolding flash_kept_def by blast
qed

text \<open>
  C2: what the signature check accepts. For a digest without a zero byte it is exactly a hexadecimal text with no
  more bits than the modulus whose number, raised to the public exponent, is the digest modulo the public modulus.
\<close>

theorem ota_signature_exact:
  assumes "cstr (url_mem (w_client w)) = base @ 63 # sig" "63 \<notin> set base" "length sig \<le> 297"
    and "sized (w_store w)" "rsa_key (w_store w pubkey_mod) (w_store w pubkey_exp)"
    and "length (ota_hash1 (w_ota w)) = 32" "0 \<notin> set (ota_hash1 (w_ota w))"
  shows "(\<exists>w'. ota_signature w = Some (False, w')) \<longleftrightarrow>
    hex_text sig \<and> 4 * length sig \<le> BITS (w_store w pubkey_mod) \<and>
    hexval sig ^ bval (w_store w pubkey_exp) mod bval (w_store w pubkey_mod) = digest_val (ota_hash1 (w_ota w))"
proof -
  define c where "c = hexval sig ^ bval (w_store w pubkey_exp) mod bval (w_store w pubkey_mod)"
  note r = ota_signature_result [OF assms(1-5), folded c_def]
  have "strncmp_eq (ota_hash1 (w_ota w)) (be_bytes 32 c) 32 \<longleftrightarrow> ota_hash1 (w_ota w) = be_bytes 32 c"
    using strncmp_eq_prefix [of 32 "ota_hash1 (w_ota w)" "be_bytes 32 c"] assms(6,7) by (simp add: be_bytes_def) (metis nth_mem)
  then have "c < 2 ^ 256 \<Longrightarrow> strncmp_eq (ota_hash1 (w_ota w)) (be_bytes 32 c) 32 \<longleftrightarrow> c = digest_val (ota_hash1 (w_ota w))"
    using digest_val_be be_digest_val(1) [OF assms(6)] by metis
  moreover have "\<not> c < 2 ^ 256 \<Longrightarrow> c \<noteq> digest_val (ota_hash1 (w_ota w))" using be_digest_val(2) [OF assms(6)] by auto
  ultimately show ?thesis using r unfolding c_def [symmetric]
    by (cases "hex_text sig \<and> 4 * length sig \<le> BITS (w_store w pubkey_mod)"; cases "c < 2 ^ 256") auto
qed

text \<open>
  C22: the comparison stops at a zero byte. An image whose digest starts with one is accepted under every key with
  a signature that consists of the digit \<open>0\<close>.
\<close>

theorem ota_nul_bypass:
  assumes "cstr (url_mem (w_client w)) = base @ 63 # [48]" "63 \<notin> set base"
    and "sized (w_store w)" "rsa_key (w_store w pubkey_mod) (w_store w pubkey_exp)" "0 < bval (w_store w pubkey_exp)" "4 \<le> BITS (w_store w pubkey_mod)"
    and "ota_hash1 (w_ota w) = 0 # h"
  shows "\<exists>w'. ota_signature w = Some (False, w')"
proof -
  have "hex_text [48]" "hexval [48] = 0" by (simp_all add: hex_text_def hexval_def hexchar_def)
  moreover have "strncmp_eq (0 # h) (be_bytes 32 0) 32"
  proof -
    have "be_bytes 32 0 = replicate (Suc 31) 0" by (simp add: be_bytes_def map_replicate_const)
    then show ?thesis using strncmp_eq.simps(2) [of 0 h 0 "replicate 31 0" 31] by (simp only: replicate_Suc) simp
  qed
  ultimately show ?thesis using ota_signature_result [OF assms(1,2) _ assms(3,4)] assms(5-7) by (auto simp: zero_power)
qed

section \<open>Witnesses\<close>

text \<open>
  A flash that behaves as documented, a device that runs its first image, a key with the modulus 15 and the exponent
  3, and a server whose slot 0 has received the headers of an update.
\<close>

definition env_sample :: http_env where
  "env_sample = \<lparr>env_time = 0, env_build = [], env_userbin_check = 0, env_userbin_addr = 4096, env_flash_map = FLASH_SIZE_8M_MAP_512_512,
     env_ssid_size = 32, env_password_size = 64, env_wifi_set_config = True,
     env_erase = (\<lambda>sec f. Some (\<lambda>a. if a div 4096 = sec then 0xff else f a)),
     env_write = (\<lambda>addr bs f. Some (\<lambda>a. if addr \<le> a \<and> a < addr + length bs then bs ! (a - addr) else f a)),
     env_read = (\<lambda>addr n f. Some (map f [addr..<addr + n]))\<rparr>"

definition ota_store :: store where
  "ota_store = (bi_store 0 0 15)(Var 3 := bi_byte 3)"

definition ota_server :: "u8 list \<Rightarrow> nat \<Rightarrow> http_server" where
  "ota_server sig n = (http_init (world_reset ota_store (\<lambda>_. 0)))\<lparr>sv_reverse := [5 \<mapsto> 0],
     sv_clients := [http_client0\<lparr>hc_inuse := True, hc_conn := 5, hc_state := HTTP_STATE_POSTDATA, hc_method := HTTP_METHOD_POST,
       hc_url := ascii ''/ota/push?'' @ sig @ replicate (246 - length sig) 0, hc_postlen := of_nat n\<rparr>]\<rparr>"

lemma env_sample: "flash_sdk env_sample" "ota_device env_sample 1024" "ota_target env_sample 1024 = 528384"
  by (simp_all add: flash_sdk_def env_sample_def ota_device_def ota_target_def)

lemma ota_store: "sized ota_store" "rsa_key (ota_store (Var 2)) (ota_store (Var 3))"
  using bi_store(5) [of 0 0 15] by (simp_all add: ota_store_def sized_def rsa_key_def)

lemma ota_server:
  assumes "0 \<notin> set sig" "length sig < 246"
  shows "ota_serving env_sample 1024 sig img 5 0 0 (ota_server sig (length img))"
proof -
  have "replicate (246 - length sig) (0 :: u8) = 0 # replicate (245 - length sig) 0" using assms(2) by (cases "246 - length sig") auto
  then have "cstr (ascii ''/ota/push?'' @ sig @ replicate (246 - length sig) 0) = ascii ''/ota/push?'' @ sig"
    using cstr_append [of "ascii ''/ota/push?'' @ sig"] assms(1) by (simp add: ascii_def)
  then show ?thesis using assms ota_store
    by (simp add: ota_serving_def ota_server_def slot_world_def Let_def http_init_def http_client0_def world_reset_def ota_between_def)
qed

theorem ota_partial_witness:
  "\<exists>s'. http_recvs env_sample 5 [[1], [2]] (ota_server (ascii ''d'') 3) = Some s' \<and> w_flash (sv_world s') 4096 = 0 \<and>
     w_calls (sv_world s') = [Recv_hold 5, Recv_unhold 5, Recv_hold 5, Recv_unhold 5]"
proof -
  have "ota_spared env_sample 1024 4096" by (simp add: ota_spared_def env_sample_def)
  then show ?thesis
    using ota_partial [OF env_sample(1,2), of "[1, 2, 3]" "ascii ''d''" 5 0 "ota_server (ascii ''d'') 3" "[[1], [2]]" "[3]"]
      ota_server [of "ascii ''d''" "[1, 2, 3]"]
    by (auto simp: ota_fits_def ascii_def ota_server_def http_init_def world_reset_def ota_holds_def)
qed

text \<open>The state before the signature check, with a digest and a signature text.\<close>

definition sign_world :: "store \<Rightarrow> u8 list \<Rightarrow> u8 list \<Rightarrow> http_world" where
  "sign_world st h sig = (world_reset st (\<lambda>_. 0))\<lparr>w_client := http_client0\<lparr>hc_url := ascii ''/ota/push?'' @ sig @ replicate (246 - length sig) 0\<rparr>,
     w_ota := (w_ota (world_reset st (\<lambda>_. 0)))\<lparr>ota_hash1 := h\<rparr>\<rparr>"

lemma sign_world:
  assumes "0 \<notin> set sig" "length sig < 246"
  shows "cstr (url_mem (w_client (sign_world st h sig))) = ascii ''/ota/push'' @ 63 # sig" "w_store (sign_world st h sig) = st"
    "ota_hash1 (w_ota (sign_world st h sig)) = h"
proof -
  have r: "replicate (246 - length sig) (0 :: u8) = 0 # replicate (245 - length sig) 0" using assms(2) by (cases "246 - length sig") auto
  show "cstr (url_mem (w_client (sign_world st h sig))) = ascii ''/ota/push'' @ 63 # sig"
    using cstr_append [of "ascii ''/ota/push?'' @ sig"] assms(1) unfolding sign_world_def r by (simp add: url_mem_def ascii_def)
qed (simp_all add: sign_world_def world_reset_def)

text \<open>A modulus of 264 bits, all of them set, with the exponent 1.\<close>

definition wide_store :: store where
  "wide_store = (bi_store 0 0 0)(Var 2 := \<lparr>bi_bytes = 33, bi_bits = 0, bi_data = replicate 33 0xff @ replicate 117 0\<rparr>, Var 3 := bi_byte 1)"

lemma le_val_ff: "le_val (replicate n 0xff) = 256 ^ n - 1"
  by (induction n) (simp_all add: diff_mult_distrib2)

lemma wide_store: "sized wide_store" "rsa_key (wide_store (Var 2)) (wide_store (Var 3))" "bval (wide_store (Var 2)) = 2 ^ 264 - 1"
  "bval (wide_store (Var 3)) = 1" "BITS (wide_store (Var 2)) = 264"
proof -
  have v: "le_val (replicate 33 0xff @ replicate 117 0) = 2 ^ 264 - 1" using le_val_ff [of 33] by (simp add: le_val_append)
  show b: "BITS (wide_store (Var 2)) = 264" "sized wide_store"
    using bi_store(5) [of 0 0 0] by (simp_all add: wide_store_def sized_def BITS_def)
  have d: "bi_data (wide_store (Var 2)) = replicate 33 0xff @ replicate 117 0" by (simp add: wide_store_def)
  show w: "bval (wide_store (Var 2)) = 2 ^ 264 - 1" unfolding bval_def b d v by (simp add: take_bit_nat_eq_self)
  show "bval (wide_store (Var 3)) = 1" by (simp add: wide_store_def)
  have "bi_clean (wide_store (Var 2))" unfolding bi_clean_def b d v by simp
  moreover have "bi_wf (wide_store (Var 2))" by (simp add: bi_wf_def BITS_def wide_store_def)
  moreover have "wide_store (Var 3) = bi_byte 1" by (simp add: wide_store_def)
  ultimately show "rsa_key (wide_store (Var 2)) (wide_store (Var 3))" unfolding rsa_key_def w b by simp
qed

theorem ota_signature_exact_witness:
  "\<not> (\<exists>w'. ota_signature (sign_world wide_store (replicate 32 7) (ascii ''d'')) = Some (False, w'))"
proof -
  note u = sign_world [of "ascii ''d''" wide_store "replicate 32 7"]
  have "digest_val (replicate 32 7) \<noteq> 13" 
    unfolding digest_val_def rev_replicate using replicate_Suc [of 31 "7 :: u8"] replicate_Suc [of 30 "7 :: u8"] by simp
  then show ?thesis
    using ota_signature_exact [of "sign_world wide_store (replicate 32 7) (ascii ''d'')" "ascii ''/ota/push''" "ascii ''d''"] u wide_store
    by (simp add: ascii_def hexchar_def)
qed

theorem ota_nul_bypass_witness:
  "\<exists>w'. ota_signature (sign_world wide_store (0 # replicate 31 7) [48]) = Some (False, w')"
  using ota_nul_bypass [of "sign_world wide_store (0 # replicate 31 7) [48]" "ascii ''/ota/push''" "replicate 31 7"] sign_world [of "[48]" wide_store] wide_store
  by (simp add: ascii_def)

end
