(* ===== verification/Rsa_Host.thy ===== *)
theory Rsa_Host
  imports Rsa Ota_Session
begin

text \<open>
  The build host: \<^verbatim>\<open>tobigint\<close> of \<^verbatim>\<open>src/crypto/rsapubkey.py\<close>, which writes the public key into the firmware as two C
  constants, and the main program of \<^verbatim>\<open>src/crypto/rsasign.py\<close>, which writes the signature of an image. The private key file is an
  argument: its modulus and exponents. \<^verbatim>\<open>hashlib\<close>'s digest is SHA-256.
\<close>

section \<open>The code\<close>

text \<open>Python's \<^verbatim>\<open>'%x' % n\<close>.\<close>

fun py_hex :: "nat \<Rightarrow> u8 list" where
  "py_hex n = (if n < 16 then [hexdigit n] else py_hex (n div 16) @ [hexdigit (n mod 16)])"

declare py_hex.simps [simp del]

text \<open>\<^verbatim>\<open>[s[i:i+2] for i in range(0, len(s), 2)]\<close>.\<close>

fun py_pairs :: "u8 list \<Rightarrow> u8 list list" where
  "py_pairs (a # b # s) = [a, b] # py_pairs s"
| "py_pairs [a] = [[a]]"
| "py_pairs [] = []"

text \<open>
  The constant that \<^verbatim>\<open>tobigint\<close> prints, as the C compiler reads it: each element \<^verbatim>\<open>0x..\<close> is a byte and the rest of the array is
  zero.
\<close>

definition py_tobigint :: "nat \<Rightarrow> bigint" where
  "py_tobigint val =
     (let s = py_hex val;
          s = (if length s mod 2 = 1 then 48 # s else s);
          bs = map (\<lambda>p. word_of_nat (hexval p)) (rev (py_pairs s)) :: u8 list
      in \<lparr>bi_bytes = length s div 2, bi_bits = 0, bi_data = bs @ replicate (150 - length bs) 0\<rparr>)"

text \<open>The text of the signature file; \<open>img\<close> is the file that is signed.\<close>

definition py_rsasign :: "nat \<Rightarrow> nat \<Rightarrow> u8 list \<Rightarrow> u8 list option" where
  "py_rsasign d n img =
     (let hexdigest = concat (map fmt_02x (sha256_spec img))
      in map_option (\<lambda>cipher. py_hex cipher @ [10]) (py_expmod (hexval hexdigest) d n))"

section \<open>Hexadecimal texts\<close>

lemma hexdigit_hex: "n < 16 \<Longrightarrow> hexchar (hexdigit n) \<noteq> -1" "n < 16 \<Longrightarrow> nat (hexchar (hexdigit n)) = n"
  by (simp_all add: hexchar_hexdigit)

lemma py_hex: "hex_text (py_hex n)" "hexval (py_hex n) = n" "py_hex n \<noteq> []" "n < 16 ^ k \<Longrightarrow> 0 < k \<Longrightarrow> length (py_hex n) \<le> k"
proof -
  have "hex_text (py_hex n) \<and> hexval (py_hex n) = n \<and> py_hex n \<noteq> []"
  proof (induction n rule: py_hex.induct)
    case (1 n)
    show ?case
    proof (cases "n < 16")
      case True
      then show ?thesis by (simp add: py_hex.simps [of n] hex_text_def hexdigit_hex)
    next
      case False
      then show ?thesis using "1.IH" by (simp add: py_hex.simps [of n] hex_text_def hexdigit_hex hexval_append)
    qed
  qed
  then show "hex_text (py_hex n)" "hexval (py_hex n) = n" "py_hex n \<noteq> []" by blast+
  show "n < 16 ^ k \<Longrightarrow> 0 < k \<Longrightarrow> length (py_hex n) \<le> k"
  proof (induction k arbitrary: n)
    case (Suc k)
    show ?case
    proof (cases "n < 16")
      case True
      then show ?thesis by (simp add: py_hex.simps [of n])
    next
      case False
      then have "0 < k" using Suc.prems by (cases k) simp_all
      moreover have "n div 16 < 16 ^ k" using Suc.prems by (simp add: less_mult_imp_div_less mult.commute)
      ultimately show ?thesis using Suc.IH [of "n div 16"] False by (simp add: py_hex.simps [of n])
    qed
  qed simp
qed

lemma hexval_less: "hex_text s \<Longrightarrow> hexval s < 16 ^ length s"
proof (induction s rule: rev_induct)
  case (snoc c s)
  have "hexchar c < 16" using snoc.prems hexchar_range [of c] by (simp add: hex_text_def)
  then show ?case using snoc by (simp add: hexval_append hex_text_def)
qed simp

text \<open>The pairs of a text of even length, last pair first, are the bytes of its number.\<close>

lemma py_pairs:
  assumes "even (length s)" "hex_text s"
  shows "length (py_pairs s) = length s div 2 \<and> le_val (map (\<lambda>p. word_of_nat (hexval p)) (rev (py_pairs s)) :: u8 list) = hexval s"
  using assms
proof (induction s rule: py_pairs.induct)
  case (1 a b s)
  then have ih: "length (py_pairs s) = length s div 2" "le_val (map (\<lambda>p. word_of_nat (hexval p)) (rev (py_pairs s)) :: u8 list) = hexval s"
    by (simp_all add: hex_text_def)
  have "hexval [a, b] < 256" using hexval_less [of "[a, b]"] 1 by (simp add: hex_text_def)
  then have "unat (word_of_nat (hexval [a, b]) :: u8) = hexval [a, b]" by (simp add: unat_of_nat take_bit_nat_eq_self)
  moreover have "16 ^ length s = (256 :: nat) ^ (length s div 2)" using 1(2) by (auto elim!: evenE simp: power_mult)
  ultimately show ?case using ih hexval_append [of "[a, b]" s] by (simp add: le_val_append mult.commute)
qed simp_all

section \<open>The key\<close>

lemma le_val_zeros: "le_val (xs @ replicate k 0) = le_val xs"
  by (simp add: le_val_append)

lemma py_tobigint:
  assumes "0 < n" "n < 2 ^ 584"
  defines "b \<equiv> py_tobigint n"
  shows "bi_wf b" "bi_clean b" "bval b = n" "BITS b \<le> 584" "0 < BITS b" "length (py_hex n) * 4 \<le> BITS b"
proof -
  define s where "s = (if length (py_hex n) mod 2 = 1 then 48 # py_hex n else py_hex n)"
  define bs where "bs = (map (\<lambda>p. word_of_nat (hexval p)) (rev (py_pairs s)) :: u8 list)"
  have h: "hexchar 48 = 0" by (simp add: hexchar_def)
  have s: "even (length s)" "hex_text s" "hexval s = n" "length (py_hex n) \<le> length s" "length s \<le> length (py_hex n) + 1"
    using py_hex(1,2) [of n] hexval_append [of "[48]" "py_hex n"] h by (auto simp: s_def hex_text_def odd_iff_mod_2_eq_one)
  have l: "length bs = length s div 2" "le_val bs = n" using py_pairs [OF s(1,2)] s(3) by (simp_all add: bs_def)
  have "n < 16 ^ 146" using assms(2) by simp
  then have "length (py_hex n) \<le> 146" using py_hex(4) [of n 146] by simp
  then have m: "length s div 2 \<le> 73" using s(1,5) by (auto elim!: evenE)
  have b: "b = \<lparr>bi_bytes = length s div 2, bi_bits = 0, bi_data = bs @ replicate (150 - length bs) 0\<rparr>"
    by (simp add: b_def py_tobigint_def Let_def bs_def s_def)
  have B: "BITS b = 8 * (length s div 2)" by (simp add: BITS_def b)
  have v: "le_val (bi_data b) = n" by (simp add: b le_val_zeros l(2))
  have "n < 256 ^ length bs" using le_val_less [of bs] by (simp add: l(2))
  then have lt: "n < 2 ^ BITS b" by (simp add: B l(1) power_mult)
  show "bi_wf b" using m l(1) by (simp add: bi_wf_def B) (simp add: b l(1))
  show "bi_clean b" using lt by (simp add: bi_clean_def v)
  show "bval b = n" using lt by (simp add: bval_def v take_bit_nat_eq_self)
  show "BITS b \<le> 584" using m by (simp add: B)
  show "0 < BITS b" using lt assms(1) by (cases "BITS b") simp_all
  show "length (py_hex n) * 4 \<le> BITS b" using s(1,4) by (auto simp: B elim!: evenE)
qed

lemma rsa_key_host:
  assumes "0 < n" "n < 2 ^ 584" "0 < e" "e < 2 ^ 584"
  shows "rsa_key (py_tobigint n) (py_tobigint e)"
  using py_tobigint [OF assms(1,2)] py_tobigint [OF assms(3,4)] assms(1) by (simp add: rsa_key_def)

section \<open>The signature\<close>

text \<open>The shell drops the line end of the file when it puts the text into the URL.\<close>

lemma py_rsasign:
  assumes "0 < n" "n < 2 ^ 584" "py_rsasign d n img = Some (sig @ [10])"
  shows "hex_text sig" "sig \<noteq> []" "4 * length sig \<le> BITS (py_tobigint n)" "hexval sig = digest_val (sha256_spec img) ^ d mod n"
proof -
  define D where "D = sha256_spec img"
  have l: "length D = 32" by (simp add: D_def length_sha256_spec)
  have "map (\<lambda>j. fmt_02x (rev D ! j)) (rev [0..<32]) = map fmt_02x D" using l by (intro nth_equalityI) (simp_all add: rev_nth)
  then have h: "hexval (concat (map fmt_02x D)) = digest_val D" using print_bytes [of "rev D" 32] l map_nth [of "rev D"] by (simp add: digest_val_def)
  define c where "c = digest_val D ^ d mod n"
  have "0 < d" using assms(3) by (cases "d = 0") (simp_all add: py_rsasign_def py_expmod_def)
  then have sig: "sig = py_hex c" using assms(1,3) by (simp add: py_rsasign_def Let_def h c_def py_expmod flip: D_def)
  show "hex_text sig" "sig \<noteq> []" "hexval sig = digest_val (sha256_spec img) ^ d mod n" using py_hex [of c] by (simp_all add: sig c_def D_def)
  have "c < n" using assms(1) by (simp add: c_def)
  moreover have "n < 16 ^ length (py_hex n)" using hexval_less [OF py_hex(1) [of n]] by (simp add: py_hex(2))
  ultimately have "length sig \<le> length (py_hex n)" using py_hex(4) [of c "length (py_hex n)"] py_hex(3) [of n] by (simp add: sig)
  then show "4 * length sig \<le> BITS (py_tobigint n)" using py_tobigint(6) [OF assms(1,2)] by simp
qed

text \<open>What the host signs, the device accepts.\<close>

lemma signed_verdict:
  assumes "0 < n" "n < 2 ^ 584" "0 < e" "e < 2 ^ 584" "\<forall>m < n. m ^ (d * e) mod n = m" "digest_val (sha256_spec img) < n" "py_rsasign d n img = Some (sig @ [10])"
  shows "ota_verdict (py_tobigint n) (py_tobigint e) sig img = Some True"
proof -
  define D where "D = digest_val (sha256_spec img)"
  have D: "D < 2 ^ 256" "be_bytes 32 D = sha256_spec img" using be_digest_val [OF length_sha256_spec] by (simp_all add: D_def)
  have sig: "hex_text sig" "4 * length sig \<le> BITS (py_tobigint n)" "hexval sig = D ^ d mod n"
    using py_rsasign [OF assms(1,2,7)] by (simp_all add: D_def)
  have "hexval sig ^ bval (py_tobigint e) mod bval (py_tobigint n) = D"
    using py_tobigint(3) [OF assms(1,2)] py_tobigint(3) [OF assms(3,4)] sig(3) assms(5,6) by (simp add: power_mod D_def flip: power_mult)
  then show ?thesis using sig D strncmp_eq_refl by (simp add: ota_verdict_def Let_def)
qed

lemma signed_token:
  assumes "0 < n" "n < 2 ^ 584" "py_rsasign d n img = Some (sig @ [10])"
  shows "sig \<noteq> []" "hex_text sig" "length sig \<le> 146"
  using py_rsasign [OF assms] py_tobigint(4) [OF assms(1,2)] by simp_all

section \<open>Property\<close>

text \<open>
  C12: the public key in the firmware. For every modulus and exponent below \<open>2 ^ 584\<close>, the constants that \<^verbatim>\<open>rsapubkey.py\<close> writes are
  well-formed numbers with the right values and sizes, as the verification of a signature needs them.
\<close>

theorem rsapubkey_valid:
  assumes "0 < n" "n < 2 ^ 584" "0 < e" "e < 2 ^ 584"
  shows "rsa_key (py_tobigint n) (py_tobigint e) \<and> bval (py_tobigint n) = n \<and> bval (py_tobigint e) = e"
  using rsa_key_host [OF assms] py_tobigint(3) [OF assms(1,2)] py_tobigint(3) [OF assms(3,4)] by blast

theorem rsapubkey_valid_witness: "rsa_key (py_tobigint 55) (py_tobigint 65537) \<and> bval (py_tobigint 55) = 55 \<and> bval (py_tobigint 65537) = 65537"
proof (rule rsapubkey_valid)
  show "(55 :: nat) < 2 ^ 584" "(65537 :: nat) < 2 ^ 584" using power_increasing [of 17 584 "2 :: nat"] by simp_all
qed simp_all

end
