(* ===== verification/Http_Session.thy ===== *)
theory Http_Session
  imports Http_Request Http_Slots Rsa_Host
begin

text \<open>
  Whole sessions: a connection that has been accepted sends the headers of a request and then its post data. The parser,
  the dispatch and the update are composed here.
\<close>

section \<open>The headers of an update\<close>

text \<open>A slot that a connection has just been given, and the state that the update relies on.\<close>

definition fresh_slot :: "nat \<Rightarrow> nat \<Rightarrow> http_server \<Rightarrow> bool" where
  "fresh_slot conn i s \<longleftrightarrow> sv_reverse s conn = Some i \<and> i < length (sv_clients s) \<and>
     sv_clients s ! i = http_client0\<lparr>hc_inuse := True, hc_conn := conn\<rparr>"

definition buffers_ready :: "http_server \<Rightarrow> bool" where
  "buffers_ready s \<longleftrightarrow> (let w = sv_world s in
     length (w_outbuf w) = 4096 \<and> length (ota_secbuf (w_ota w)) = 4096 \<and> length (sha_buf (ota_sha256 (w_ota w))) = 64 \<and> sized (w_store w))"

definition update_ready :: "http_server \<Rightarrow> bool" where
  "update_ready s \<longleftrightarrow> buffers_ready s \<and> rsa_key (w_store (sv_world s) pubkey_mod) (w_store (sv_world s) pubkey_exp)"

lemma fresh_connection:
  assumes "free_slot (sv_clients s) 0 = Some i"
  shows "fresh_slot conn i (http_server_conn_cb False False conn s)"
  using assms free_slot [OF assms] by (simp add: fresh_slot_def http_server_conn_cb_def Let_def)

text \<open>A packet with the headers of a request reaches the dispatch.\<close>

lemma fold_effect_frame: "hc_postused (fold header_effect hs c) = hc_postused c" "hc_conn (fold header_effect hs c) = hc_conn c"
    "hc_inuse (fold header_effect hs c) = hc_inuse c"
  by (induction hs arbitrary: c) (simp_all add: header_effect_def)

lemma fresh_request:
  assumes s: "fresh_slot conn i s" and r: "m = ascii ''GET'' \<or> m = ascii ''POST''" "token url" "length url < 256" "token ver" "list_all header_ok hs"
    and l: "length (request m url ver hs) \<le> 2048"
  obtains c where "http_client_recv_cb env conn (request m url ver hs) s =
      (case http_dispatch env ((sv_world s)\<lparr>w_client := c, w_id := i\<rparr>) of
         Return r w' \<Rightarrow> (let s1 = s\<lparr>sv_world := w', sv_clients := (sv_clients s)[i := w_client w']\<rparr> in Some (if r \<noteq> 0 then post_kill conn s1 else s1))
       | _ \<Rightarrow> None)"
    "hc_state c = (if m = ascii ''GET'' then HTTP_STATE_RESPONSE else HTTP_STATE_POSTDATA)" "cstr (hc_url c) = url" "0 \<in> set (hc_url c)"
    "hc_postused c = 0" "hc_postlen c = (case last_value is_length hs of None \<Rightarrow> 0 | Some v \<Rightarrow> word_of_int (c_atoi v))"
    "hc_conn c = conn" "hc_bufused c = 0" "client_ok c"
proof -
  define c0 where "c0 = sv_clients s ! i"
  have c0: "c0 = http_client0\<lparr>hc_inuse := True, hc_conn := conn\<rparr>" "sv_reverse s conn = Some i" using s by (simp_all add: fresh_slot_def c0_def)
  define req where "req = request m url ver hs"
  define c1 where "c1 = c0\<lparr>hc_buf := patch (hc_buf c0) 0 req, hc_bufused := of_nat (length req)\<rparr>"
  have b: "hc_buf c1 = request m url ver hs @ [] @ replicate (2048 - length req) 0"
    using l by (simp add: c1_def c0(1) http_client0_def patch_def req_def)
  have u: "unat (hc_bufused c1) = length (request m url ver hs @ [])" using l unat_small16 [of "length req"] by (simp add: c1_def req_def)
  have cl: "length (hc_buf c1) = 2048" "length (hc_host c1) = 64" "length (hc_url c1) = 256" "hc_state c1 = HTTP_STATE_HEADERS"
    using l by (simp_all add: c1_def c0(1) http_client0_def req_def)
  define c2 where "c2 = c1\<lparr>hc_method := (if m = ascii ''GET'' then HTTP_METHOD_GET else HTTP_METHOD_POST), hc_url := patch (hc_url c1) 0 (url @ [0])\<rparr>"
  define c where "c = (fold header_effect hs c2)\<lparr>hc_buf := hc_buf c1, hc_bufused := 0,
    hc_state := (if m = ascii ''GET'' then HTTP_STATE_RESPONSE else HTTP_STATE_POSTDATA)\<rparr>"
  have p: "parse_request c1 = Go c" using parse_request_at [OF b u r(1,2,4,3,5) cl(1-3)] by (simp add: c_def c2_def)
  have z: "hc_url c = url @ 0 # drop (length url + 1) (hc_url c1)" using r(3) cl(3) by (simp add: c_def c2_def patch_def)
  have "0 \<notin> set url" using r(2) by (auto simp: token_def list_all_iff)
  then have cu: "cstr (hc_url c) = url" "0 \<in> set (hc_url c)" unfolding z by (simp_all add: cstr_append)
  have h: "length (hc_host c2) = 64" using cl(2) by (simp add: c2_def)
  have v: "hc_postlen c = (case last_value is_length hs of None \<Rightarrow> 0 | Some v \<Rightarrow> word_of_int (c_atoi v))"
  proof -
    have "hc_postlen c2 = 0" by (simp add: c2_def c1_def c0(1) http_client0_def)
    from fold_effect_values(3) [OF r(5) h, unfolded this] show ?thesis by (simp add: c_def)
  qed
  have f: "hc_postused c = 0" "hc_conn c = conn" by (simp_all add: c_def fold_effect_frame c2_def c1_def c0(1) http_client0_def)
  have ok: "client_ok c" using fold_effect_values(1) [OF r(5) h] cl(1,3) r(3) by (simp add: client_ok_def c_def c2_def)
  have sw: "(sv_world s)\<lparr>w_id := i, w_client := c\<rparr> = (sv_world s)\<lparr>w_client := c, w_id := i\<rparr>" by (cases "sv_world s") simp
  have "http_process env ((sv_world s)\<lparr>w_client := c1, w_id := i\<rparr>) = http_dispatch env ((sv_world s)\<lparr>w_id := i, w_client := c\<rparr>)"
    using p cl(4) by (simp add: http_process_def)
  then have "http_process env ((sv_world s)\<lparr>w_client := c1, w_id := i\<rparr>) = http_dispatch env ((sv_world s)\<lparr>w_client := c, w_id := i\<rparr>)" by (simp only: sw)
  then have "http_client_recv_cb env conn req s = (case http_dispatch env ((sv_world s)\<lparr>w_client := c, w_id := i\<rparr>) of
      Return r w' \<Rightarrow> (let s1 = s\<lparr>sv_world := w', sv_clients := (sv_clients s)[i := w_client w']\<rparr> in Some (if r \<noteq> 0 then post_kill conn s1 else s1))
    | _ \<Rightarrow> None)"
    using l unfolding http_client_recv_cb_def c0(2) option.case Let_def c0_def [symmetric]
    by (simp add: c1_def c0(1) http_client0_def req_def)
  then show thesis using that [of c] cu f v ok by (simp add: c_def req_def)
qed

text \<open>A get request reaches the handler of its URL.\<close>

lemma get_request:
  assumes s: "fresh_slot conn i s" and r: "token (base @ q)" "length (base @ q) < 256" "token ver" "list_all header_ok hs"
    and l: "length (request (ascii ''GET'') (base @ q) ver hs) \<le> 2048"
    and h: "63 \<notin> set base" "q = [] \<or> hd q = 63" "length base < 128" "map_of (http_urls env) base = Some h"
  obtains w where "hc_state (w_client w) = HTTP_STATE_RESPONSE" "0 \<in> set (hc_url (w_client w))" "cstr (hc_url (w_client w)) = base @ q"
    "hc_conn (w_client w) = conn" "w_outbuflen w = 0" "length (w_outbuf w) = length (w_outbuf (sv_world s))"
    "w_smtp w = w_smtp (sv_world s)" "w_calls w = w_calls (sv_world s)"
    "http_client_recv_cb env conn (request (ascii ''GET'') (base @ q) ver hs) s =
      (case h w of Return r w' \<Rightarrow> (let s1 = s\<lparr>sv_world := w', sv_clients := (sv_clients s)[i := w_client w']\<rparr> in Some (if r \<noteq> 0 then post_kill conn s1 else s1))
       | _ \<Rightarrow> None)"
proof -
  obtain c where c: "http_client_recv_cb env conn (request (ascii ''GET'') (base @ q) ver hs) s =
      (case http_dispatch env ((sv_world s)\<lparr>w_client := c, w_id := i\<rparr>) of
         Return r w' \<Rightarrow> (let s1 = s\<lparr>sv_world := w', sv_clients := (sv_clients s)[i := w_client w']\<rparr> in Some (if r \<noteq> 0 then post_kill conn s1 else s1))
       | _ \<Rightarrow> None)"
    "hc_state c = HTTP_STATE_RESPONSE" "cstr (hc_url c) = base @ q" "0 \<in> set (hc_url c)" "hc_conn c = conn"
    using fresh_request [OF s _ r l, of env] by auto
  define w where "w = fresh_out ((sv_world s)\<lparr>w_client := c, w_id := i\<rparr>)"
  have "http_dispatch env ((sv_world s)\<lparr>w_client := c, w_id := i\<rparr>) = h w"
    using dispatch_base [of "(sv_world s)\<lparr>w_client := c, w_id := i\<rparr>" base q env, OF _ _ h(1-3)] c(3,4) h(4)
    by (simp add: w_def fresh_out_def)
  then show thesis using that [of w] c by (simp add: w_def fresh_out_def)
qed

text \<open>The packet with the headers makes the slot serve the update.\<close>

lemma ota_headers:
  assumes sdk: "flash_sdk env" and dev: "ota_device env kb" "ota_fits kb img" and s: "fresh_slot conn i s" "update_ready s"
    and r: "token sig" "length sig < 246" "token ver" "list_all header_ok hs" "last_value is_length hs = Some (fmt_u (length img))"
    and l: "length (request (ascii ''POST'') (ascii ''/ota/push?'' @ sig) ver hs) \<le> 2048"
  obtains s' where "http_client_recv_cb env conn (request (ascii ''POST'') (ascii ''/ota/push?'' @ sig) ver hs) s = Some s'"
    "ota_serving env kb sig img conn i 0 s'"
    "flash_kept img (ota_target env kb) (sv_world s) (sv_world s')" "w_calls (sv_world s') = w_calls (sv_world s) @ ota_holds conn"
    "w_store (sv_world s') = w_store (sv_world s)" "sv_posts s' = sv_posts s"
proof -
  define url where "url = ascii ''/ota/push?'' @ sig"
  have url: "token url" "length url < 256" using r(1,2) by (auto simp: url_def token_def ascii_def is_ws_def list_all_iff)
  have img: "length img < 2 ^ 29" "0 < length img" using ota_placed [OF dev] by (simp_all add: placed_def)
  have m: "ascii ''POST'' \<noteq> ascii ''GET''" by (simp add: ascii_def)
  obtain c where c: "http_client_recv_cb env conn (request (ascii ''POST'') url ver hs) s =
      (case http_dispatch env ((sv_world s)\<lparr>w_client := c, w_id := i\<rparr>) of
         Return r w' \<Rightarrow> (let s1 = s\<lparr>sv_world := w', sv_clients := (sv_clients s)[i := w_client w']\<rparr> in Some (if r \<noteq> 0 then post_kill conn s1 else s1))
       | _ \<Rightarrow> None)"
    "hc_state c = HTTP_STATE_POSTDATA" "cstr (hc_url c) = url" "0 \<in> set (hc_url c)" "hc_postused c = 0"
    "hc_postlen c = word_of_int (c_atoi (fmt_u (length img)))" "hc_conn c = conn" "hc_bufused c = 0" "client_ok c"
    using fresh_request [OF s(1) _ url r(3,4) l [folded url_def], of env] m r(5) by auto
  have post: "hc_postlen c = of_nat (length img)" using c(6) c_atoi_fmt_u [of "length img" 0] img by simp
  define w where "w = fresh_out ((sv_world s)\<lparr>w_client := c, w_id := i\<rparr>)"
  have disp: "http_dispatch env ((sv_world s)\<lparr>w_client := c, w_id := i\<rparr>) = http_url_ota_push env w"
    unfolding w_def fresh_out_def by (rule dispatch_ota) (use c(3,4) in \<open>simp_all add: url_def\<close>)
  have bt: "ota_between img (ota_target env kb) 0 w" "pending img 0 0 w"
    using s(2) post c(2,5,8,9) by (simp_all add: ota_between_def pending_def w_def fresh_out_def update_ready_def buffers_ready_def Let_def client_ok_def)
  obtain w4 where w4: "http_url_ota_push env w = Return 0 w4" "upload img (ota_target env kb) 0 w4" "pending img 0 0 w4" "ota_rest w4 = ota_rest w"
    "flash_kept img (ota_target env kb) w w4" "w_calls w4 = w_calls w @ [Recv_hold (hc_conn (w_client w)), Recv_unhold (hc_conn (w_client w))]"
    by (rule ota_push_call [OF sdk dev _ bt(1) refl bt(2)]) (use img in simp_all)
  define s' where "s' = s\<lparr>sv_world := w4, sv_clients := (sv_clients s)[i := w_client w4]\<rparr>"
  note q = w4(4) [unfolded ota_rest_def w_def fresh_out_def Let_def, simplified]
  have i: "i < length (sv_clients s)" "sv_reverse s conn = Some i" using s(1) by (simp_all add: fresh_slot_def)
  have "slot_world s' i = w4" using i q by (simp add: slot_world_def s'_def)
  moreover have "ota_between img (ota_target env kb) 0 w4" using ota_between_upload [OF w4(2)] q c(2) by simp
  ultimately have "ota_serving env kb sig img conn i 0 s'"
    using i q c w4(3) s(2) by (simp add: ota_serving_def s'_def Let_def pending_def update_ready_def buffers_ready_def url_def)
  moreover have "http_client_recv_cb env conn (request (ascii ''POST'') url ver hs) s = Some s'" using c(1) disp w4(1) by (simp add: s'_def Let_def)
  moreover have "flash_kept img (ota_target env kb) (sv_world s) (sv_world s')" "w_calls (sv_world s') = w_calls (sv_world s) @ ota_holds conn"
    "w_store (sv_world s') = w_store (sv_world s)" "sv_posts s' = sv_posts s"
    using w4(5,6) q c(7) by (simp_all add: s'_def flash_kept_def w_def fresh_out_def ota_holds_def)
  ultimately show thesis using that unfolding url_def by blast
qed

section \<open>The update\<close>

lemma update_session:
  assumes "flash_sdk env" "ota_device env kb" "ota_fits kb img" "fresh_slot conn i s" "update_ready s"
    and "token sig" "length sig < 246" "token ver" "list_all header_ok hs" "last_value is_length hs = Some (fmt_u (length img))"
    and "concat ds @ d = img" "d \<noteq> []" "\<forall>d \<in> set (ds @ [d]). length d \<le> 2048"
  defines "req \<equiv> request (ascii ''POST'') (ascii ''/ota/push?'' @ sig) ver hs"
  assumes "length req \<le> 2048"
  shows "case ota_verdict (w_store (sv_world s) pubkey_mod) (w_store (sv_world s) pubkey_exp) sig img of
      None \<Rightarrow> http_recvs env conn (req # ds @ [d]) s = None
    | Some ok \<Rightarrow> \<exists>s'. http_recvs env conn (req # ds @ [d]) s = Some s' \<and>
        (\<forall>a < length img. w_flash (sv_world s') (ota_target env kb + a) = img ! a) \<and>
        (\<forall>a. a < ota_target env kb \<or> ota_target env kb + length img + 4095 \<le> a \<longrightarrow> w_flash (sv_world s') a = w_flash (sv_world s) a) \<and>
        w_calls (sv_world s') = w_calls (sv_world s) @ concat (replicate (length ds + 2) (ota_holds conn)) @ ota_reply ok conn \<and>
        sv_posts s' = sv_posts s @ [conn]"
proof -
  obtain s1 where s1: "http_client_recv_cb env conn req s = Some s1" "ota_serving env kb sig img conn i 0 s1"
    "flash_kept img (ota_target env kb) (sv_world s) (sv_world s1)" "w_calls (sv_world s1) = w_calls (sv_world s) @ ota_holds conn"
    "w_store (sv_world s1) = w_store (sv_world s)" "sv_posts s1 = sv_posts s"
    using ota_headers [OF assms(1-10)] assms(15) unfolding req_def by blast
  have "length sig \<le> 297" using assms(7) by simp
  note up = ota_upload [OF assms(1-3) s1(2) this assms(11-13), unfolded s1(4-6)]
  have rep: "concat (replicate (length ds + 2) h) = h @ concat (replicate (length ds + 1) h)" for h :: "http_call list" by simp
  have fl: "(\<forall>a. a < ota_target env kb \<or> ota_target env kb + length img + 4095 \<le> a \<longrightarrow> f a = w_flash (sv_world s1) a) \<longleftrightarrow>
    (\<forall>a. a < ota_target env kb \<or> ota_target env kb + length img + 4095 \<le> a \<longrightarrow> f a = w_flash (sv_world s) a)" for f
    using s1(3) by (simp add: flash_kept_def)
  show ?thesis using up unfolding fl rep by (simp add: s1(1) split: option.splits)
qed

section \<open>Properties\<close>

text \<open>
  C1: a firmware update from the first byte to the last. A connection has been given a slot; it sends the headers of a
  post request for \<^verbatim>\<open>/ota/push?\<close> with a signature text, in which other header lines may stand, and then the image, in any
  packets. At the end the half of the flash that is not running holds the image, the flash outside its sectors
  is unchanged, and the device answers 202 and arms the reboot into the new image, or answers 400, as \<open>ota_verdict\<close> says of
  the signature under the public key; an overrun of the digest array is the only other outcome.
\<close>

theorem ota_session:
  assumes "flash_sdk env" "ota_device env kb" "ota_fits kb img" "fresh_slot conn i s" "update_ready s"
    and "token sig" "length sig < 246" "token ver" "list_all header_ok hs" "last_value is_length hs = Some (fmt_u (length img))"
    and "concat ds @ d = img" "d \<noteq> []" "\<forall>d \<in> set (ds @ [d]). length d \<le> 2048"
  defines "req \<equiv> request (ascii ''POST'') (ascii ''/ota/push?'' @ sig) ver hs"
  assumes "length req \<le> 2048"
  shows "case ota_verdict (w_store (sv_world s) pubkey_mod) (w_store (sv_world s) pubkey_exp) sig img of
      None \<Rightarrow> http_recvs env conn (req # ds @ [d]) s = None
    | Some ok \<Rightarrow> \<exists>s'. http_recvs env conn (req # ds @ [d]) s = Some s' \<and>
        (\<forall>a < length img. w_flash (sv_world s') (ota_target env kb + a) = img ! a) \<and>
        (\<forall>a. a < ota_target env kb \<or> ota_target env kb + length img + 4095 \<le> a \<longrightarrow> w_flash (sv_world s') a = w_flash (sv_world s) a) \<and>
        w_calls (sv_world s') = w_calls (sv_world s) @ concat (replicate (length ds + 2) (ota_holds conn)) @ ota_reply ok conn \<and>
        sv_posts s' = sv_posts s @ [conn]"
  unfolding req_def by (rule update_session [OF assms(1-13)]) (rule assms(15) [unfolded req_def])

text \<open>
  C3: the whole tool chain. The firmware holds the public key as \<^verbatim>\<open>rsapubkey.py\<close> wrote it, the image is signed by \<^verbatim>\<open>rsasign.py\<close> with the
  private exponent of the same key, and the client posts the image to \<^verbatim>\<open>/ota/push?\<close> with this signature, in any packets. If
  the exponents undo each other modulo the modulus and the digest is below the modulus, then the image is in the other half of
  the flash, the answer is 202 and the reboot into the image is armed.
\<close>

theorem signed_image_installed:
  assumes "flash_sdk env" "ota_device env kb" "ota_fits kb img" "fresh_slot conn i s" "buffers_ready s"
    and "w_store (sv_world s) pubkey_mod = py_tobigint n" "w_store (sv_world s) pubkey_exp = py_tobigint e"
    and "0 < n" "n < 2 ^ 584" "0 < e" "e < 2 ^ 584" "\<forall>m < n. m ^ (d * e) mod n = m" "digest_val (sha256_spec img) < n"
    and "py_rsasign d n img = Some (sig @ [10])" "token ver" "list_all header_ok hs" "last_value is_length hs = Some (fmt_u (length img))"
    and "concat ds @ x = img" "x \<noteq> []" "\<forall>d \<in> set (ds @ [x]). length d \<le> 2048"
    and "length (request (ascii ''POST'') (ascii ''/ota/push?'' @ sig) ver hs) \<le> 2048"
  shows "\<exists>s'. http_recvs env conn (request (ascii ''POST'') (ascii ''/ota/push?'' @ sig) ver hs # ds @ [x]) s = Some s' \<and>
    (\<forall>a < length img. w_flash (sv_world s') (ota_target env kb + a) = img ! a) \<and>
    w_calls (sv_world s') = w_calls (sv_world s) @ concat (replicate (length ds + 2) (ota_holds conn)) @
      [Espconn_send conn (concat text_202), Upgrade_flag_finish, Arm_ota_reboot 5000]"
proof -
  have r: "update_ready s" using assms(5-7) rsa_key_host [OF assms(8-11)] by (simp add: update_ready_def)
  note t = signed_token [OF assms(8,9,14)]
  have "token sig" using t(1,2) by (auto simp: token_def is_ws_def hex_text_def list_all_iff hexchar_def)
  moreover have "length sig < 246" using t(3) by simp
  ultimately have "\<exists>s'. http_recvs env conn (request (ascii ''POST'') (ascii ''/ota/push?'' @ sig) ver hs # ds @ [x]) s = Some s' \<and>
    (\<forall>a < length img. w_flash (sv_world s') (ota_target env kb + a) = img ! a) \<and>
    w_calls (sv_world s') = w_calls (sv_world s) @ concat (replicate (length ds + 2) (ota_holds conn)) @ ota_reply True conn"
    using update_session [OF assms(1-4) r _ _ assms(15-21)] unfolding assms(6,7) signed_verdict [OF assms(8-14)] option.case by blast
  then show ?thesis by (simp add: ota_reply_def)
qed

text \<open>
  C6: the answers. In every run, whatever a live connection sends, all that the server sends in return goes to that
  connection and consists of complete HTTP messages: a status line, header lines, and a body of the length that
  \<^verbatim>\<open>Content-length\<close> announces.
\<close>

theorem http_answers_framed:
  assumes "http_run w s L" "length (w_outbuf w) = 4096" "conn \<in> L" "env_ok env" "http_client_recv_cb env conn data s = Some s'"
  shows "\<exists>cs. w_calls (sv_world s') = w_calls (sv_world s) @ cs \<and> (\<forall>c bs. Espconn_send c bs \<in> set cs \<longrightarrow> c = conn \<and> framed bs)"
proof -
  obtain cs where "w_calls (sv_world s') = w_calls (sv_world s) @ cs" "list_all (framed_call conn) cs"
    using ok_receive [OF http_run_ok [OF assms(1,2)] assms(3-5)] by blast
  moreover from this(2) have "c = conn \<and> framed bs" if "Espconn_send c bs \<in> set cs" for c bs
    using that by (auto simp: list_all_iff framed_call_def)
  ultimately show ?thesis by blast
qed

section \<open>Witnesses\<close>

text \<open>A device with the key of \<open>ota_store\<close> that has accepted the connection 5.\<close>

definition fresh_server :: http_server where
  "fresh_server = http_server_conn_cb False False 5 (http_init (world_reset ota_store (\<lambda>_. 0)))"

definition length_3 :: "(u8 list \<times> u8 list) list" where
  "length_3 = [(ascii ''Host:'', ascii ''esp''), (ascii ''Content-Length:'', ascii ''3'')]"

lemma fresh_server: "fresh_slot 5 0 fresh_server" "update_ready fresh_server"
proof -
  have f: "free_slot (sv_clients (http_init w)) 0 = Some 0" for w by (simp add: http_init_def http_client0_def numeral_eq_Suc)
  show "fresh_slot 5 0 fresh_server" unfolding fresh_server_def by (rule fresh_connection [OF f])
  show "update_ready fresh_server" using f ota_store
    by (simp add: fresh_server_def update_ready_def buffers_ready_def http_server_conn_cb_def Let_def) (simp add: http_init_def world_reset_def)
qed

lemma length_3: "list_all header_ok length_3" "last_value is_length length_3 = Some (ascii ''3'')"
  by (simp_all add: length_3_def header_ok_def token_def is_ws_def last_value_def is_length_def names_def ascii_def)

definition push_request :: "u8 list" where
  "push_request = request (ascii ''POST'') (ascii ''/ota/push?'' @ ascii ''d'') (ascii ''HTTP/1.1'') length_3"

theorem ota_session_witness:
  "case ota_verdict (ota_store pubkey_mod) (ota_store pubkey_exp) (ascii ''d'') [1, 2, 3] of
     None \<Rightarrow> http_recvs env_sample 5 [push_request, [1], [], [2, 3]] fresh_server = None
   | Some ok \<Rightarrow> \<exists>s'. http_recvs env_sample 5 [push_request, [1], [], [2, 3]] fresh_server = Some s' \<and>
       w_flash (sv_world s') (ota_target env_sample 1024 + 2) = 3"
proof -
  have p: "length push_request \<le> 2048" by (simp add: push_request_def request_def header_def length_3_def ascii_def)
  have t: "token (ascii ''d'')" "length (ascii ''d'') < 246" "token (ascii ''HTTP/1.1'')" by (simp_all add: token_def is_ws_def ascii_def)
  have v: "last_value is_length length_3 = Some (fmt_u (length [1, 2, 3 :: u8]))" unfolding length_3(2) by (simp add: fmt_u.simps ascii_def)
  have f: "ota_fits 1024 [1, 2, 3]" by (simp add: ota_fits_def)
  have st: "w_store (sv_world fresh_server) = ota_store"
    by (simp add: fresh_server_def http_server_conn_cb_def Let_def post_kill_def http_init_def world_reset_def split: option.split)
  have d: "concat [[1], []] @ [2, 3] = [1, 2, 3 :: u8]" "[2, 3 :: u8] \<noteq> []" "\<forall>d \<in> set ([[1], []] @ [[2, 3 :: u8]]). length d \<le> 2048" by simp_all
  have l: "r # [[1], []] @ [[2, 3]] = [r, [1], [], [2, 3]]" for r :: "u8 list" by simp
  note up = ota_session [OF env_sample(1,2) f fresh_server t length_3(1) v d, folded push_request_def, OF p, unfolded st l]
  show ?thesis
  proof (cases "ota_verdict (ota_store pubkey_mod) (ota_store pubkey_exp) (ascii ''d'') [1, 2, 3]")
    case None
    with up show ?thesis by (simp only: option.case)
  next
    case (Some ok)
    then obtain s' where s': "http_recvs env_sample 5 [push_request, [1], [], [2, 3]] fresh_server = Some s'"
      "\<forall>a < length [1, 2, 3 :: u8]. w_flash (sv_world s') (ota_target env_sample 1024 + a) = [1, 2, 3] ! a"
      using up unfolding Some option.case by blast
    have "w_flash (sv_world s') (ota_target env_sample 1024 + 2) = 3" using s'(2) [rule_format, of 2] by simp
    with s'(1) show ?thesis unfolding Some option.case by blast
  qed
qed

text \<open>A key with the modulus \<open>2 ^ 264 - 1\<close> and the exponents 1.\<close>

definition host_store :: store where
  "host_store = ota_store(Var 2 := py_tobigint (2 ^ 264 - 1), Var 3 := py_tobigint 1)"

definition host_server :: http_server where
  "host_server = http_server_conn_cb False False 5 (http_init (world_reset host_store (\<lambda>_. 0)))"

lemma host_key: "(0 :: nat) < 2 ^ 264 - 1" "2 ^ 264 - 1 < (2 :: nat) ^ 584" "(1 :: nat) < 2 ^ 584"
proof -
  have "(2 :: nat) ^ 264 < 2 ^ 584" by (rule power_strict_increasing) simp_all
  then show "2 ^ 264 - 1 < (2 :: nat) ^ 584" by linarith
qed simp_all

lemma host_server: "fresh_slot 5 0 host_server" "buffers_ready host_server" "w_store (sv_world host_server) = host_store"
proof -
  have f: "free_slot (sv_clients (http_init w)) 0 = Some 0" for w by (simp add: http_init_def http_client0_def numeral_eq_Suc)
  show "fresh_slot 5 0 host_server" unfolding host_server_def by (rule fresh_connection [OF f])
  have w: "sv_world host_server = world_reset host_store (\<lambda>_. 0)" using f by (simp add: host_server_def http_server_conn_cb_def Let_def) (simp add: http_init_def)
  have "sized host_store" using ota_store(1) py_tobigint(1) [OF host_key(1,2)] py_tobigint(1) [OF _ host_key(3)] by (simp add: host_store_def sized_def bi_wf_def)
  then show "buffers_ready host_server" "w_store (sv_world host_server) = host_store" unfolding buffers_ready_def w by (simp_all add: world_reset_def)
qed

theorem signed_image_installed_witness:
  "\<exists>sig s'. py_rsasign 1 (2 ^ 264 - 1) [1, 2, 3] = Some (sig @ [10]) \<and>
     http_recvs env_sample 5 [request (ascii ''POST'') (ascii ''/ota/push?'' @ sig) (ascii ''HTTP/1.1'') length_3, [1], [], [2, 3]] host_server = Some s' \<and>
     Arm_ota_reboot 5000 \<in> set (w_calls (sv_world s'))"
proof -
  obtain sig where g: "py_rsasign 1 (2 ^ 264 - 1) [1, 2, 3] = Some (sig @ [10])" using host_key(1) by (simp add: py_rsasign_def py_expmod)
  have b: "w_store (sv_world host_server) pubkey_mod = py_tobigint (2 ^ 264 - 1)" "w_store (sv_world host_server) pubkey_exp = py_tobigint 1"
    by (simp_all add: host_server(3) host_store_def)
  have f: "ota_fits 1024 [1, 2, 3]" by (simp add: ota_fits_def)
  have D: "digest_val (sha256_spec [1, 2, 3]) < 2 ^ 264 - 1" using be_digest_val(2) [OF length_sha256_spec, of "[1, 2, 3]"] by simp
  have p: "length (request (ascii ''POST'') (ascii ''/ota/push?'' @ sig) (ascii ''HTTP/1.1'') length_3) \<le> 2048"
    using signed_token(3) [OF host_key(1,2) g] by (simp add: request_def header_def length_3_def ascii_def)
  have t: "token (ascii ''HTTP/1.1'')" by (simp add: token_def is_ws_def ascii_def)
  have v: "last_value is_length length_3 = Some (fmt_u (length [1, 2, 3 :: u8]))" unfolding length_3(2) by (simp add: fmt_u.simps ascii_def)
  have d: "concat [[1], []] @ [2, 3] = [1, 2, 3 :: u8]" "[2, 3 :: u8] \<noteq> []" "\<forall>d \<in> set ([[1], []] @ [[2, 3 :: u8]]). length d \<le> 2048" by simp_all
  have l: "r # [[1], []] @ [[2, 3]] = [r, [1], [], [2, 3]]" for r :: "u8 list" by simp
  have m: "\<forall>m < 2 ^ 264 - 1. m ^ (1 * 1) mod (2 ^ 264 - 1) = (m :: nat)" by simp
  have o: "(0 :: nat) < 1" by simp
  from signed_image_installed [OF env_sample(1,2) f host_server(1,2) b host_key(1,2) o host_key(3) m D g t length_3(1) v d p, unfolded l]
  obtain s' where s': "http_recvs env_sample 5 [request (ascii ''POST'') (ascii ''/ota/push?'' @ sig) (ascii ''HTTP/1.1'') length_3, [1], [], [2, 3]] host_server = Some s'"
    "w_calls (sv_world s') = w_calls (sv_world host_server) @ concat (replicate (length [[1 :: u8], []] + 2) (ota_holds 5)) @
      [Espconn_send 5 (concat text_202), Upgrade_flag_finish, Arm_ota_reboot 5000]" by blast
  have "Arm_ota_reboot 5000 \<in> set (w_calls (sv_world s'))" unfolding s'(2) by (simp only: set_append set_simps insertI1 insertI2 UnI2)
  with g s'(1) show ?thesis by blast
qed

text \<open>A browser asks for the first page.\<close>

definition blank_text :: "u8 list list" where
  "blank_text = [rn ''HTTP/1.1 200 OK'', rn ''Connection: close'', rn ''Content-type: text/html'', rn ''Content-length: 27'', rn '''',
     nl ''<html><body></body></html>'']"

lemma blank_answer:
  assumes "fresh_slot conn i s" "length (w_outbuf (sv_world s)) = 4096"
  obtains s' where "http_client_recv_cb env conn (request (ascii ''GET'') (ascii ''/'') (ascii ''HTTP/1.1'') []) s = Some s'"
    "w_calls (sv_world s') = w_calls (sv_world s) @ [Espconn_send conn (concat blank_text)]"
proof -
  have t: "token (ascii ''/'' @ [])" "length (ascii ''/'' @ []) < 256" "token (ascii ''HTTP/1.1'')" "list_all header_ok []"
    "length (request (ascii ''GET'') (ascii ''/'' @ []) (ascii ''HTTP/1.1'') []) \<le> 2048"
    by (simp_all add: token_def is_ws_def ascii_def request_def header_def)
  have h: "map_of (http_urls env) (ascii ''/'') = Some http_url_blank" "63 \<notin> set (ascii ''/'')" "length (ascii ''/'') < 128" by (simp_all add: http_urls_def ascii_def)
  obtain w where w: "hc_state (w_client w) = HTTP_STATE_RESPONSE" "hc_conn (w_client w) = conn" "w_outbuflen w = 0" "length (w_outbuf w) = 4096"
    "w_calls w = w_calls (sv_world s)" "http_client_recv_cb env conn (request (ascii ''GET'') (ascii ''/'') (ascii ''HTTP/1.1'') []) s =
      (case http_url_blank w of Return r w' \<Rightarrow> (let s1 = s\<lparr>sv_world := w', sv_clients := (sv_clients s)[i := w_client w']\<rparr> in Some (if r \<noteq> 0 then post_kill conn s1 else s1))
       | _ \<Rightarrow> None)"
    using get_request [OF assms(1) t h(2) _ h(3,1)] assms(2) by auto
  have "length (concat blank_text) = 110" by (simp add: blank_text_def rn_def nl_def ascii_def)
  then obtain b where b: "block (map HTTP_OUTBUF_APPEND blank_text @ [SEND, RETURN 1]) w = block [RETURN 1] (w\<lparr>w_outbuf := b, w_outbuflen := length (concat blank_text),
      w_calls := w_calls w @ [Espconn_send (hc_conn (w_client w)) (concat blank_text)]\<rparr>)"
    using block_page [of w blank_text "[RETURN 1]"] w(3,4) by (auto simp del: block.simps)
  have "HTTP_IGNORE_POSTDATA w = Go w" using w(1) by (simp add: HTTP_IGNORE_POSTDATA_def)
  then have "http_url_blank w = block (map HTTP_OUTBUF_APPEND blank_text @ [SEND, RETURN 1]) w"
    by (simp add: http_url_blank_def blank_text_def)
  then have "http_url_blank w = Return 1 (w\<lparr>w_outbuf := b, w_outbuflen := length (concat blank_text),
      w_calls := w_calls w @ [Espconn_send conn (concat blank_text)]\<rparr>)"
    unfolding b using w(2) by (simp add: RETURN_def)
  then show thesis using that w(5,6) by (simp add: Let_def post_kill_def)
qed

theorem http_answers_framed_witness: "framed (concat blank_text)"
proof -
  have f: "free_slot (sv_clients (http_init w)) 0 = Some 0" for w by (simp add: http_init_def http_client0_def numeral_eq_Suc)
  have s: "fresh_slot 7 0 run_sample" unfolding run_sample_def by (rule fresh_connection [OF f])
  have "length (w_outbuf (sv_world run_sample)) = 4096" using http_run_ok [OF run_sample] by (simp add: server_ok_def)
  then obtain s' where s': "http_client_recv_cb env_sample 7 (request (ascii ''GET'') (ascii ''/'') (ascii ''HTTP/1.1'') []) run_sample = Some s'"
    "w_calls (sv_world s') = w_calls (sv_world run_sample) @ [Espconn_send 7 (concat blank_text)]"
    using blank_answer [OF s] by blast
  have "env_ok env_sample" "7 \<in> {7 :: nat}" by (simp_all add: env_ok_def env_sample_def)
  then show ?thesis using http_answers_framed [OF run_sample _ _ s'(1)] s'(2) by auto
qed

end
