(* ===== verification/Http_Forms.thy ===== *)
theory Http_Forms
  imports Http_Session Smtp_Session
begin

text \<open>
  The setup forms from the query in the URL to the stored configuration: the loop over the pairs of the query
  is a fold over the decoded fields, for every handler of pairs that reads the key as a C string. The wireless and the
  mail form are the two instances.
\<close>

section \<open>Queries\<close>

text \<open>A field of a form: its name, and its value as a browser encodes it.\<close>

type_synonym field = "u8 list \<times> (u8 list \<times> u8) list"

definition field_text :: "field \<Rightarrow> u8 list" where
  "field_text f = fst f @ 61 # enc_flat (snd f)"

fun query_text :: "field list \<Rightarrow> u8 list" where
  "query_text [] = []"
| "query_text [f] = field_text f"
| "query_text (f # fs) = field_text f @ 38 # query_text fs"

definition field_ok :: "field \<Rightarrow> bool" where
  "field_ok f \<longleftrightarrow> 0 \<notin> set (fst f) \<and> 61 \<notin> set (fst f) \<and> list_all enc_piece (snd f) \<and> 38 \<notin> set (enc_flat (snd f))"

definition decoded :: "field \<Rightarrow> u8 list \<times> u8 list" where
  "decoded f = (fst f, map snd (snd f))"

lemma enc_nonzero: "list_all enc_piece ps \<Longrightarrow> 0 \<notin> set (enc_flat ps)"
  using url_map_wf by (fastforce simp: list_all_iff enc_piece_def)

lemma decoded_nonzero: "field_ok f \<Longrightarrow> 0 \<notin> set (snd (decoded f))"
  by (auto simp: decoded_def field_ok_def enc_piece_def list_all_iff)

lemma field_text_nonzero: "field_ok f \<Longrightarrow> 0 \<notin> set (field_text f)"
  using enc_nonzero [of "snd f"] by (simp add: field_text_def field_ok_def del: set_concat)

lemma query_text_nonzero: "list_all field_ok fs \<Longrightarrow> 0 \<notin> set (query_text fs)"
  by (induction fs rule: query_text.induct) (simp_all add: field_text_nonzero)

text \<open>The decoder on one value.\<close>

lemma decode_value:
  assumes "list_all enc_piece ps"
  obtains r' where "url_decode (enc_flat ps @ 0 # r) = Some (map snd ps @ 0 # r')"
    "length (map snd ps @ 0 # r') = length (enc_flat ps @ 0 # r)" "drop (length (enc_flat ps) + 1) (map snd ps @ 0 # r') = r"
  using url_decode_string [OF refl enc_nonzero [OF assms], of r] dec_loop_pieces [OF assms] by metis

text \<open>What the handler makes of a list of fields.\<close>

fun fields :: "(u8 list \<Rightarrow> u8 list \<Rightarrow> 's \<Rightarrow> 's option) \<Rightarrow> (u8 list \<times> u8 list) list \<Rightarrow> 's \<Rightarrow> 's option" where
  "fields pair [] s = Some s"
| "fields pair ((k, v) # fs) s = Option.bind (pair k v s) (fields pair fs)"

section \<open>The loop over the pairs\<close>

lemma form_loop_pair:
  assumes "\<not> (n \<le> key \<or> 0 \<notin> set (drop key m))" "c_strstr (cstr (drop key m)) [61] = Some k"
    and "m[key + k := 0] = m1" "c_strstr (cstr (drop (key + k + 1) m1)) [38] = amp"
    and "(case amp of None \<Rightarrow> m1 | Some q \<Rightarrow> m1[key + k + 1 + q := 0]) = m2"
    and "url_decode (drop (key + k + 1) m2) = Some d" "take (key + k + 1) m2 @ d = mc"
  shows "form_loop pair n m key s = (case pair (drop key mc) (cstr (drop (key + k + 1) mc)) s of
      None \<Rightarrow> Form_fail mc s
    | Some s' \<Rightarrow> (case amp of None \<Rightarrow> Form_done mc s' | Some q \<Rightarrow> form_loop pair n mc (key + k + 1 + q + 1) s'))"
proof -
  have "key + k + 1 - 1 = key + k" by simp
  then show ?thesis
    unfolding form_loop.simps [of pair n m key s] if_not_P [OF assms(1)] assms(2) option.case Let_def
    by (simp only: assms(3-) option.case)
qed

text \<open>A handler of pairs reads the key up to its NUL only.\<close>

locale form_pair =
  fixes pair :: "u8 list \<Rightarrow> u8 list \<Rightarrow> 's \<Rightarrow> 's option"
  assumes key_string: "0 \<notin> set k \<Longrightarrow> pair (k @ 0 # r) v s = pair k v s"
begin

lemma form_loop_last:
  assumes "field_ok f" "m = pre @ field_text f @ 0 # r"
  shows "\<exists>m'. form_loop pair (length m) m (length pre) s = (case fields pair [decoded f] s of Some s' \<Rightarrow> Form_done m' s' | None \<Rightarrow> Form_fail m' s)"
proof -
  obtain k ps where f: "f = (k, ps)" by fastforce
  have k: "0 \<notin> set k" "61 \<notin> set k" "list_all enc_piece ps" "38 \<notin> set (enc_flat ps)" "0 \<notin> set (enc_flat ps)"
    using assms(1) enc_nonzero [of ps] by (simp_all add: f field_ok_def del: set_concat)
  have m: "m = pre @ k @ 61 # enc_flat ps @ 0 # r" by (simp add: assms(2) f field_text_def)
  have c: "cstr (drop (length pre) m) = k @ 61 # enc_flat ps" using k cstr_append [of "k @ 61 # enc_flat ps" r] unfolding m by (simp del: set_concat)
  have m1: "m[length pre + length k := 0] = pre @ k @ 0 # enc_flat ps @ 0 # r" unfolding m by (simp add: list_update_append)
  have a: "c_strstr (cstr (enc_flat ps @ 0 # r)) [38] = None" using k(4,5) by (simp add: cstr_append c_strstr_none del: set_concat)
  obtain r' where d: "url_decode (enc_flat ps @ 0 # r) = Some (map snd ps @ 0 # r')" using decode_value [OF k(3)] by blast
  have v: "0 \<notin> set (map snd ps)" using k(3) by (auto simp: enc_piece_def list_all_iff)
  have nf: "\<not> (length m \<le> length pre \<or> 0 \<notin> set (drop (length pre) m))" unfolding m by simp
  have "form_loop pair (length m) m (length pre) s = (case pair k (map snd ps) s of None \<Rightarrow> Form_fail (pre @ k @ 0 # map snd ps @ 0 # r') s
      | Some s' \<Rightarrow> Form_done (pre @ k @ 0 # map snd ps @ 0 # r') s')"
    using form_loop_pair [OF nf _ m1, where amp = None and mc = "pre @ k @ 0 # map snd ps @ 0 # r'" and pair = pair and s = s] c c_strstr_char [OF k(2)] a d
    by (simp add: key_string [OF k(1)] cstr_append [OF v] del: c_strstr.simps split: option.splits)
  then show ?thesis by (auto simp: f decoded_def split: option.split)
qed

lemma form_loop_step:
  assumes "field_ok f" "m = pre @ field_text f @ 38 # q @ 0 # r" "0 \<notin> set q"
  shows "\<exists>m'. length m' = length m \<and> drop (length (pre @ field_text f) + 1) m' = q @ 0 # r \<and>
    form_loop pair (length m) m (length pre) s = (case fields pair [decoded f] s of
      Some s' \<Rightarrow> form_loop pair (length m) m' (length (pre @ field_text f) + 1) s' | None \<Rightarrow> Form_fail m' s)"
proof -
  obtain k ps where f: "f = (k, ps)" by fastforce
  have k: "0 \<notin> set k" "61 \<notin> set k" "list_all enc_piece ps" "38 \<notin> set (enc_flat ps)" "0 \<notin> set (enc_flat ps)"
    using assms(1) enc_nonzero [of ps] by (simp_all add: f field_ok_def del: set_concat)
  have m: "m = pre @ k @ 61 # enc_flat ps @ 38 # q @ 0 # r" by (simp add: assms(2) f field_text_def)
  have c: "cstr (drop (length pre) m) = k @ 61 # enc_flat ps @ 38 # q"
    using k assms(3) cstr_append [of "k @ 61 # enc_flat ps @ 38 # q" r] unfolding m by (simp del: set_concat)
  have m1: "m[length pre + length k := 0] = pre @ k @ 0 # enc_flat ps @ 38 # q @ 0 # r" unfolding m by (simp add: list_update_append)
  have "cstr (enc_flat ps @ 38 # q @ 0 # r) = enc_flat ps @ 38 # q"
    using k(5) assms(3) cstr_append [of "enc_flat ps @ 38 # q" r] by (simp del: set_concat)
  then have a: "c_strstr (cstr (enc_flat ps @ 38 # q @ 0 # r)) [38] = Some (length (enc_flat ps))" using c_strstr_char [OF k(4)] by simp
  have m2: "(pre @ k @ 0 # enc_flat ps @ 38 # q @ 0 # r)[length pre + length k + 1 + length (enc_flat ps) := 0] = pre @ k @ 0 # enc_flat ps @ 0 # q @ 0 # r"
    by (simp add: list_update_append del: length_concat)
  obtain r' where d: "url_decode (enc_flat ps @ 0 # q @ 0 # r) = Some (map snd ps @ 0 # r')"
    "length (map snd ps @ 0 # r') = length (enc_flat ps @ 0 # q @ 0 # r)" "drop (length (enc_flat ps) + 1) (map snd ps @ 0 # r') = q @ 0 # r"
    using decode_value [OF k(3)] by blast
  have v: "0 \<notin> set (map snd ps)" using k(3) by (auto simp: enc_piece_def list_all_iff)
  have nf: "\<not> (length m \<le> length pre \<or> 0 \<notin> set (drop (length pre) m))" unfolding m by simp
  define m' where "m' = pre @ k @ 0 # map snd ps @ 0 # r'"
  have n: "length (pre @ field_text f) + 1 = length (pre @ k @ [0]) + (length (enc_flat ps) + 1)" by (simp add: f field_text_def del: length_concat)
  have "drop (length (pre @ field_text f) + 1) m' = drop (length (enc_flat ps) + 1) (map snd ps @ 0 # r')"
    unfolding n by (simp add: m'_def del: length_concat)
  moreover have "length m' = length m" using d(2) by (simp add: m'_def m)
  moreover have "form_loop pair (length m) m (length pre) s = (case fields pair [decoded f] s of
      Some s' \<Rightarrow> form_loop pair (length m) m' (length (pre @ field_text f) + 1) s' | None \<Rightarrow> Form_fail m' s)"
  proof -
    have "form_loop pair (length m) m (length pre) s = (case pair k (map snd ps) s of None \<Rightarrow> Form_fail m' s
        | Some s' \<Rightarrow> form_loop pair (length m) m' (length pre + length k + 1 + length (enc_flat ps) + 1) s')"
      using form_loop_pair [OF nf _ m1, where amp = "Some (length (enc_flat ps))" and mc = m' and pair = pair and s = s] c c_strstr_char [OF k(2)] a d(1) m2
      by (simp add: key_string [OF k(1)] cstr_append [OF v] m'_def del: c_strstr.simps length_concat split: option.splits)
    then show ?thesis unfolding n by (auto simp: f decoded_def add.assoc simp del: length_concat split: option.split)
  qed
  ultimately show ?thesis using d(3) by auto
qed

text \<open>The loop as a fold over the decoded fields.\<close>

lemma form_loop_fields:
  assumes "list_all field_ok fs" "fs \<noteq> []" "m = pre @ query_text fs @ 0 # r"
  shows "\<exists>m' s'. form_loop pair (length m) m (length pre) s =
    (case fields pair (map decoded fs) s of Some s1 \<Rightarrow> Form_done m' s1 | None \<Rightarrow> Form_fail m' s')"
  using assms
proof (induction fs arbitrary: m pre s rule: query_text.induct)
  case (2 f)
  have "\<exists>m'. form_loop pair (length m) m (length pre) s = (case fields pair [decoded f] s of Some s' \<Rightarrow> Form_done m' s' | None \<Rightarrow> Form_fail m' s)"
    by (rule form_loop_last) (use 2 in simp_all)
  then show ?case by auto
next
  case (3 f g fs)
  define q where "q = query_text (g # fs)"
  have "0 \<notin> set q" using query_text_nonzero [of "g # fs"] 3(2) by (simp add: q_def)
  then obtain m1 where m1: "length m1 = length m" "drop (length (pre @ field_text f) + 1) m1 = q @ 0 # r"
    "form_loop pair (length m) m (length pre) s = (case fields pair [decoded f] s of
      Some s' \<Rightarrow> form_loop pair (length m) m1 (length (pre @ field_text f) + 1) s' | None \<Rightarrow> Form_fail m1 s)"
    using form_loop_step [of f m pre q r s] 3(2,4) by (auto simp: q_def)
  define pre1 where "pre1 = take (length (pre @ field_text f) + 1) m1"
  have split: "m1 = pre1 @ q @ 0 # r" unfolding pre1_def m1(2) [symmetric] by simp
  have "length (pre @ field_text f) + 1 \<le> length m" using 3(4) by simp
  then have l: "length pre1 = length (pre @ field_text f) + 1" using m1(1) by (simp add: pre1_def)
  have dec: "fields pair (map decoded (f # g # fs)) s = Option.bind (fields pair [decoded f] s) (fields pair (map decoded (g # fs)))" for s
    by (cases "decoded f"; cases "pair (fst (decoded f)) (snd (decoded f)) s") simp_all
  show ?case
  proof (cases "fields pair [decoded f] s")
    case None
    then show ?thesis using m1(3) unfolding dec by auto
  next
    case (Some s1)
    have "\<exists>m' s'. form_loop pair (length m1) m1 (length pre1) s1 =
      (case fields pair (map decoded (g # fs)) s1 of Some s2 \<Rightarrow> Form_done m' s2 | None \<Rightarrow> Form_fail m' s')"
      by (rule "3.IH") (use 3(2) split in \<open>simp_all add: q_def\<close>)
    then show ?thesis using m1(1,3) Some l unfolding dec by simp
  qed
qed simp

end

section \<open>The two forms\<close>

lemma strncmp_eq_nul: "0 \<notin> set k \<Longrightarrow> strncmp_eq (k @ 0 # r) lit n = strncmp_eq k lit n"
  by (induction k lit n rule: strncmp_eq.induct) auto

lemma strncmp_eq_numeral:
  "strncmp_eq (x # a) (y # b) (numeral n) = (if x \<noteq> y then False else if x = 0 then True else strncmp_eq a b (pred_numeral n))"
  "strncmp_eq [] (y # b) (numeral n) = (y = 0)" "strncmp_eq (x # a) [] (numeral n) = (x = 0)" "strncmp_eq [] [] (numeral n)"
  by (simp_all add: numeral_eq_Suc)

interpretation wifi_fields: form_pair wifi_pair
  by unfold_locales (simp add: wifi_pair_def strncmp_eq_nul)

interpretation mail_fields: form_pair smtp_pair
  by unfold_locales (simp add: smtp_pair_def strncmp_eq_nul)

lemma fields_append: "fields pair (fs @ gs) s = Option.bind (fields pair fs s) (fields pair gs)"
proof (induction fs arbitrary: s)
  case (Cons f fs)
  then show ?case by (cases f; cases "pair (fst f) (snd f) s") simp_all
qed simp

text \<open>The last value of a field counts.\<close>

abbreviation sent :: "string \<Rightarrow> field list \<Rightarrow> u8 list option" where
  "sent name fs \<equiv> last_value (\<lambda>k. k = ascii name) (map decoded fs)"

text \<open>A text that is copied into an array with its NUL.\<close>

lemma cstr_patch: "0 \<notin> set v \<Longrightarrow> cstr (patch xs 0 (v @ [0])) = v"
  by (simp add: patch_def cstr_append)

lemma c_text_patch: "c_text n xs \<Longrightarrow> length v < n \<Longrightarrow> c_text n (patch xs 0 (v @ [0]))"
  by (auto simp: c_text_def patch_def)

section \<open>The mail form\<close>

definition smtp_fits :: "field \<Rightarrow> bool" where
  "smtp_fits f \<longleftrightarrow> (let (k, v) = decoded f in
     k \<in> {ascii ''host'', ascii ''user'', ascii ''pass''} \<and> length v < 64 \<or> k \<in> {ascii ''from'', ascii ''to''} \<and> length v < 128 \<or> k = ascii ''port'')"

lemma smtp_pairs:
  assumes "server_wf sv"
  shows "length v < 64 \<Longrightarrow> smtp_pair (ascii ''host'') v sv = Some (sv\<lparr>sv_host := patch (sv_host sv) 0 (v @ [0])\<rparr>)"
    and "length v < 64 \<Longrightarrow> smtp_pair (ascii ''user'') v sv = Some (sv\<lparr>sv_user := patch (sv_user sv) 0 (v @ [0])\<rparr>)"
    and "length v < 64 \<Longrightarrow> smtp_pair (ascii ''pass'') v sv = Some (sv\<lparr>sv_pass := patch (sv_pass sv) 0 (v @ [0])\<rparr>)"
    and "length v < 128 \<Longrightarrow> smtp_pair (ascii ''from'') v sv = Some (sv\<lparr>sv_from := patch (sv_from sv) 0 (v @ [0])\<rparr>)"
    and "length v < 128 \<Longrightarrow> smtp_pair (ascii ''to'') v sv = Some (sv\<lparr>sv_to := patch (sv_to sv) 0 (v @ [0])\<rparr>)"
    and "smtp_pair (ascii ''port'') v sv = Some (sv\<lparr>sv_port := word_of_int (c_atoi v)\<rparr>)"
  using assms by (simp_all add: smtp_pair_def ascii_def server_wf_def c_text_def strncmp_eq_numeral)

definition account :: "field list \<Rightarrow> smtp_server \<Rightarrow> bool" where
  "account fs sv \<longleftrightarrow> (\<forall>v. sent ''host'' fs = Some v \<longrightarrow> cstr (sv_host sv) = v) \<and> (\<forall>v. sent ''user'' fs = Some v \<longrightarrow> cstr (sv_user sv) = v) \<and>
     (\<forall>v. sent ''pass'' fs = Some v \<longrightarrow> cstr (sv_pass sv) = v) \<and> (\<forall>v. sent ''from'' fs = Some v \<longrightarrow> cstr (sv_from sv) = v) \<and>
     (\<forall>v. sent ''to'' fs = Some v \<longrightarrow> cstr (sv_to sv) = v) \<and> (\<forall>v. sent ''port'' fs = Some v \<longrightarrow> sv_port sv = word_of_int (c_atoi v))"

lemma smtp_field:
  assumes "server_wf sv" "account fs sv" "field_ok f" "smtp_fits f"
  shows "\<exists>sv'. smtp_pair (fst (decoded f)) (snd (decoded f)) sv = Some sv' \<and> server_wf sv' \<and> account (fs @ [f]) sv'"
proof -
  obtain k v where d: "decoded f = (k, v)" by fastforce
  have z: "0 \<notin> set v" using decoded_nonzero [OF assms(3)] by (simp add: d)
  have n: "(ascii a = ascii b) = (a = b)" if "a \<in> {''host'', ''user'', ''pass'', ''from'', ''to'', ''port''}" "b \<in> {''host'', ''user'', ''pass'', ''from'', ''to'', ''port''}" for a b
    using that by (auto simp: ascii_def)
  consider (h) "k = ascii ''host''" "length v < 64" | (u) "k = ascii ''user''" "length v < 64" | (w) "k = ascii ''pass''" "length v < 64"
    | (f) "k = ascii ''from''" "length v < 128" | (t) "k = ascii ''to''" "length v < 128" | (p) "k = ascii ''port''"
    using assms(4) by (auto simp: smtp_fits_def d)
  then show ?thesis
    by cases (use assms(1,2) z smtp_pairs [OF assms(1), of v] in \<open>simp_all add: d account_def last_value_snoc n server_wf_def cstr_patch c_text_patch\<close>)
qed

lemma smtp_fields:
  assumes "server_wf sv" "list_all field_ok fs" "list_all smtp_fits fs"
  shows "\<exists>sv'. fields smtp_pair (map decoded fs) sv = Some sv' \<and> server_wf sv' \<and> account fs sv'"
  using assms(2,3)
proof (induction fs rule: rev_induct)
  case Nil
  show ?case using assms(1) by (simp add: account_def last_value_def)
next
  case (snoc f fs)
  then obtain sv1 where "fields smtp_pair (map decoded fs) sv = Some sv1" "server_wf sv1" "account fs sv1" by auto
  with smtp_field [OF this(2,3), of f] snoc(2,3) show ?case by (cases "decoded f") (auto simp: fields_append)
qed

section \<open>The handlers\<close>

lemma cstr_split: "0 \<in> set xs \<Longrightarrow> \<exists>r. xs = cstr xs @ 0 # r"
  by (drule split_list_first) (auto simp: cstr_append)

lemma form_query_at:
  assumes "0 \<in> set (hc_url (w_client w))" "cstr (hc_url (w_client w)) = base @ 63 # query_text fs" "63 \<notin> set base"
  obtains m pre r where "m = pre @ query_text fs @ 0 # r" "form_query pair s w = form_loop pair (length m) m (length pre) s" "length m = length (url_mem (w_client w))"
proof -
  obtain r where "hc_url (w_client w) = base @ 63 # query_text fs @ 0 # r" using cstr_split [OF assms(1)] assms(2) by auto
  then have u: "url_mem (w_client w) = (base @ [63]) @ query_text fs @ 0 # (r @ hc_host (w_client w) @ hc_buf (w_client w))" by (simp add: url_mem_def)
  have c: "cstr (url_mem (w_client w)) = base @ 63 # query_text fs" using cstr_cut [OF assms(1)] assms(2) by (simp add: url_mem_def)
  show thesis by (rule that [OF u _ refl]) (simp add: form_query_def Let_def c c_strstr_char [OF assms(3)] del: c_strstr.simps)
qed

lemma page_202_returns:
  assumes "w_outbuflen w = 0" "length (w_outbuf w) = 4096"
  obtains w' where "block (page_202 @ [RETURN 1]) w = Return 1 w'" "w_smtp w' = w_smtp w"
    "w_calls w' = w_calls w @ [Espconn_send (hc_conn (w_client w)) (concat text_202)]"
  using block_page [of w text_202 "[RETURN 1]"] assms text_lengths unfolding fixed_pages by (auto simp: RETURN_def)

lemma page_400_returns:
  assumes "w_outbuflen w = 0" "length (w_outbuf w) = 4096"
  obtains w' where "block (page_400 @ [RETURN 1]) w = Return 1 w'" "w_smtp w' = w_smtp w"
    "w_calls w' = w_calls w @ [Espconn_send (hc_conn (w_client w)) (concat text_400)]"
  using block_page [of w text_400 "[RETURN 1]"] assms text_lengths unfolding fixed_pages by (auto simp: RETURN_def)

definition complete :: "field list \<Rightarrow> bool" where
  "complete fs \<longleftrightarrow> (\<forall>name \<in> {''host'', ''user'', ''pass'', ''from'', ''to''}. \<exists>v. sent name fs = Some v \<and> v \<noteq> []) \<and>
     (\<exists>p. sent ''port'' fs = Some p \<and> (word_of_int (c_atoi p) :: u16) \<noteq> 0)"

lemma smtp_setup_handler:
  assumes "hc_state (w_client w) = HTTP_STATE_RESPONSE" "0 \<in> set (hc_url (w_client w))"
    and "cstr (hc_url (w_client w)) = ascii ''/smtp/setup?'' @ query_text fs" "w_outbuflen w = 0" "length (w_outbuf w) = 4096"
    and "server_wf (w_smtp w)" "list_all field_ok fs" "list_all smtp_fits fs" "complete fs"
  shows "\<exists>w'. http_url_smtp_setup w = Return 1 w' \<and> server_wf (w_smtp w') \<and> account fs (w_smtp w') \<and>
    w_calls w' = w_calls w @ [Arm_smtp_param 3000, Espconn_send (hc_conn (w_client w)) (concat text_202)]"
proof -
  have u: "cstr (hc_url (w_client w)) = ascii ''/smtp/setup'' @ 63 # query_text fs" "63 \<notin> set (ascii ''/smtp/setup'')" using assms(3) by (simp_all add: ascii_def)
  obtain sv where sv: "fields smtp_pair (map decoded fs) (w_smtp w) = Some sv" "server_wf sv" "account fs sv" using smtp_fields [OF assms(6-8)] by blast
  have ne: "fs \<noteq> []" using assms(9) by (auto simp: complete_def last_value_def)
  obtain m pre r where m: "m = pre @ query_text fs @ 0 # r" "form_query smtp_pair (w_smtp w) w = form_loop smtp_pair (length m) m (length pre) (w_smtp w)"
    using form_query_at [OF assms(2) u, of smtp_pair "w_smtp w"] by blast
  obtain m' where q: "form_query smtp_pair (w_smtp w) w = Form_done m' sv"
    using mail_fields.form_loop_fields [OF assms(7) ne m(1), of "w_smtp w"] sv(1) m(2) by auto
  define w1 where "w1 = (set_url_mem m' w)\<lparr>w_smtp := sv\<rparr>"
  have full: "\<not> (c_strlen (sv_host sv) = 0 \<or> sv_port sv = 0 \<or> c_strlen (sv_user sv) = 0 \<or> c_strlen (sv_pass sv) = 0 \<or> c_strlen (sv_from sv) = 0 \<or> c_strlen (sv_to sv) = 0)"
    using assms(9) sv(3) by (auto simp: complete_def account_def c_strlen_def)
  define w2 where "w2 = w1\<lparr>w_calls := w_calls w1 @ [Arm_smtp_param 3000]\<rparr>"
  have w2: "w_outbuflen w2 = 0" "length (w_outbuf w2) = 4096" "w_smtp w2 = sv" "w_calls w2 = w_calls w @ [Arm_smtp_param 3000]" "hc_conn (w_client w2) = hc_conn (w_client w)"
    using assms(4,5) by (simp_all add: w2_def w1_def set_url_mem_def)
  obtain w' where w': "block (page_202 @ [RETURN 1]) w2 = Return 1 w'" "w_smtp w' = sv"
    "w_calls w' = w_calls w2 @ [Espconn_send (hc_conn (w_client w2)) (concat text_202)]"
    using page_202_returns [OF w2(1,2)] w2(3) by metis
  have "HTTP_IGNORE_POSTDATA w = Go w" using assms(1) by (simp add: HTTP_IGNORE_POSTDATA_def)
  moreover have "block ([call (Arm_smtp_param 3000)] @ page_202 @ [RETURN 1]) w1 = Return 1 w'" using w'(1) by (simp add: call_def w2_def)
  ultimately have "http_url_smtp_setup w = Return 1 w'" using full q by (simp add: http_url_smtp_setup_def Let_def flip: w1_def)
  then show ?thesis using w'(2,3) w2(4,5) sv(2,3) by auto
qed

section \<open>The wireless form\<close>

definition wifi_fits :: "http_env \<Rightarrow> field \<Rightarrow> bool" where
  "wifi_fits env f \<longleftrightarrow> (let (k, v) = decoded f in
     k = ascii ''ssid'' \<and> length v < env_ssid_size env \<or> k = ascii ''pass'' \<and> length v < env_password_size env)"

definition network :: "http_env \<Rightarrow> field list \<Rightarrow> station_config \<Rightarrow> bool" where
  "network env fs conf \<longleftrightarrow> length (sc_ssid conf) = env_ssid_size env \<and> length (sc_password conf) = env_password_size env \<and>
     (\<forall>v. sent ''ssid'' fs = Some v \<longrightarrow> cstr (sc_ssid conf) = v) \<and> (\<forall>v. sent ''pass'' fs = Some v \<longrightarrow> cstr (sc_password conf) = v)"

lemma wifi_pairs:
  "wifi_pair (ascii ''ssid'') v conf = (if length v \<ge> length (sc_ssid conf) then None else Some (conf\<lparr>sc_ssid := patch (sc_ssid conf) 0 (v @ [0])\<rparr>))"
  "wifi_pair (ascii ''pass'') v conf = (if length v \<ge> length (sc_password conf) then None else Some (conf\<lparr>sc_password := patch (sc_password conf) 0 (v @ [0])\<rparr>))"
  by (simp_all add: wifi_pair_def ascii_def strncmp_eq_numeral)

lemma wifi_field:
  assumes "network env fs conf" "field_ok f" "wifi_fits env f"
  shows "\<exists>conf'. wifi_pair (fst (decoded f)) (snd (decoded f)) conf = Some conf' \<and> network env (fs @ [f]) conf'"
proof -
  obtain k v where d: "decoded f = (k, v)" by fastforce
  have z: "0 \<notin> set v" using decoded_nonzero [OF assms(2)] by (simp add: d)
  have n: "ascii ''ssid'' \<noteq> ascii ''pass''" "ascii ''pass'' \<noteq> ascii ''ssid''" by (simp_all add: ascii_def)
  consider "k = ascii ''ssid''" "length v < env_ssid_size env" | "k = ascii ''pass''" "length v < env_password_size env"
    using assms(3) by (auto simp: wifi_fits_def d)
  then show ?thesis
    by cases (use assms(1) z n in \<open>simp_all add: d network_def last_value_snoc wifi_pairs cstr_patch\<close>)
qed

lemma wifi_fields:
  assumes "network env [] conf" "list_all field_ok fs" "list_all (wifi_fits env) fs"
  shows "\<exists>conf'. fields wifi_pair (map decoded fs) conf = Some conf' \<and> network env fs conf'"
  using assms(2,3)
proof (induction fs rule: rev_induct)
  case Nil
  show ?case using assms(1) by simp
next
  case (snoc f fs)
  then obtain conf1 where "fields wifi_pair (map decoded fs) conf = Some conf1" "network env fs conf1" by auto
  with wifi_field [OF this(2), of f] snoc(2,3) show ?case by (cases "decoded f") (auto simp: fields_append)
qed

definition wifi_calls :: "http_env \<Rightarrow> nat \<Rightarrow> station_config \<Rightarrow> http_call list" where
  "wifi_calls env conn conf = Wifi_set_config (sc_ssid conf) (sc_password conf) #
     (if env_wifi_set_config env then [Wifi_disconnect, Wifi_connect, Espconn_send conn (concat text_202)] else [Espconn_send conn (concat text_400)])"

lemma wifi_setup_handler:
  assumes "hc_state (w_client w) = HTTP_STATE_RESPONSE" "0 \<in> set (hc_url (w_client w))"
    and "cstr (hc_url (w_client w)) = ascii ''/wifi/setup?'' @ query_text fs" "w_outbuflen w = 0" "length (w_outbuf w) = 4096"
    and "list_all field_ok fs" "list_all (wifi_fits env) fs" "sent ''ssid'' fs = Some ssid" "sent ''pass'' fs = Some pass" "ssid \<noteq> []" "pass \<noteq> []"
  shows "\<exists>w' conf. http_url_wifi_setup env w = Return 1 w' \<and> network env fs conf \<and> w_calls w' = w_calls w @ wifi_calls env (hc_conn (w_client w)) conf"
proof -
  have u: "cstr (hc_url (w_client w)) = ascii ''/wifi/setup'' @ 63 # query_text fs" "63 \<notin> set (ascii ''/wifi/setup'')" using assms(3) by (simp_all add: ascii_def)
  define conf0 where "conf0 = \<lparr>sc_ssid = replicate (env_ssid_size env) 0, sc_password = replicate (env_password_size env) 0\<rparr>"
  have "network env [] conf0" by (simp add: network_def conf0_def last_value_def)
  then obtain conf where conf: "fields wifi_pair (map decoded fs) conf0 = Some conf" "network env fs conf" using wifi_fields [OF _ assms(6,7)] by blast
  have ne: "fs \<noteq> []" using assms(8) by (auto simp: last_value_def)
  obtain m pre r where m: "m = pre @ query_text fs @ 0 # r" "form_query wifi_pair conf0 w = form_loop wifi_pair (length m) m (length pre) conf0"
    using form_query_at [OF assms(2) u, of wifi_pair conf0] by blast
  obtain m' where q: "form_query wifi_pair conf0 w = Form_done m' conf"
    using wifi_fields.form_loop_fields [OF assms(6) ne m(1), of conf0] conf(1) m(2) by auto
  have full: "\<not> (c_strlen (sc_ssid conf) = 0 \<or> c_strlen (sc_password conf) = 0)" using assms(8-11) conf(2) by (simp add: network_def c_strlen_def)
  define w1 where "w1 = (set_url_mem m' w)\<lparr>w_calls := w_calls w @ [Wifi_set_config (sc_ssid conf) (sc_password conf)]\<rparr>"
  define w2 where "w2 = w1\<lparr>w_calls := w_calls w1 @ [Wifi_disconnect] @ [Wifi_connect]\<rparr>"
  have o: "w_outbuflen w1 = 0" "length (w_outbuf w1) = 4096" "w_outbuflen w2 = 0" "length (w_outbuf w2) = 4096" "hc_conn (w_client w1) = hc_conn (w_client w)"
    "hc_conn (w_client w2) = hc_conn (w_client w)" using assms(4,5) by (simp_all add: w2_def w1_def set_url_mem_def)
  obtain wa where wa: "block (page_202 @ [RETURN 1]) w2 = Return 1 wa" "w_calls wa = w_calls w2 @ [Espconn_send (hc_conn (w_client w2)) (concat text_202)]"
    by (rule page_202_returns [OF o(3,4)])
  obtain wb where wb: "block (page_400 @ [RETURN 1]) w1 = Return 1 wb" "w_calls wb = w_calls w1 @ [Espconn_send (hc_conn (w_client w1)) (concat text_400)]"
    by (rule page_400_returns [OF o(1,2)])
  define w' where "w' = (if env_wifi_set_config env then wa else wb)"
  have "HTTP_IGNORE_POSTDATA w = Go w" using assms(1) by (simp add: HTTP_IGNORE_POSTDATA_def)
  moreover have "block ([call (Wifi_set_config (sc_ssid conf) (sc_password conf)), IF (\<lambda>_. \<not> env_wifi_set_config env) (page_400 @ [RETURN 1]) [],
      call Wifi_disconnect, call Wifi_connect] @ page_202 @ [RETURN 1]) (set_url_mem m' w) = Return 1 w'"
    using wa(1) wb(1) by (simp add: call_def IF_def w'_def w1_def w2_def set_url_mem_def)
  ultimately have "http_url_wifi_setup env w = Return 1 w'" using full q unfolding http_url_wifi_setup_def block.simps flow.case conf0_def [symmetric]
    by (simp del: block.simps)
  moreover have "w_calls w' = w_calls w @ wifi_calls env (hc_conn (w_client w)) conf" using wa(2) wb(2) o(5,6) by (simp add: w'_def wifi_calls_def w1_def w2_def)
  ultimately show ?thesis using conf(2) by blast
qed

section \<open>Properties\<close>

text \<open>
  C8: the mail form. A get request for \<^verbatim>\<open>/smtp/setup?\<close> with a query, in which every field of the form occurs with a value
  that fits, in any order and percent-encoded in any way, makes the last value of each field the account in use, is answered
  with 202 and arms the timer. When the timer function has stored the account successfully, the client finds
  the same account at the next boot.
\<close>

theorem smtp_setup_stored:
  assumes "fresh_slot conn i s" "length (w_outbuf (sv_world s)) = 4096" "server_wf (w_smtp (sv_world s))"
    and "list_all field_ok fs" "list_all smtp_fits fs" "complete fs" "token (query_text fs)" "length (query_text fs) < 244"
    and "token ver" "list_all header_ok hs" "length (request (ascii ''GET'') (ascii ''/smtp/setup?'' @ query_text fs) ver hs) \<le> 2048"
    and "param_sdk load save" "length buf0 = 1024" "length buf1 = 1024"
  shows "\<exists>s'. http_client_recv_cb env conn (request (ascii ''GET'') (ascii ''/smtp/setup?'' @ query_text fs) ver hs) s = Some s' \<and>
    account fs (w_smtp (sv_world s')) \<and>
    w_calls (sv_world s') = w_calls (sv_world s) @ [Arm_smtp_param 3000, Espconn_send conn (concat text_202)] \<and>
    (\<forall>f buf f'. smtp_param_write load save fmap (w_smtp (sv_world s')) buf0 f = Some (0, buf, f') \<longrightarrow>
       smtp_init load fmap buf1 f' = Some (smtp_state0, w_smtp (sv_world s')))"
proof -
  have u: "ascii ''/smtp/setup?'' @ query_text fs = ascii ''/smtp/setup'' @ 63 # query_text fs" by (simp add: ascii_def)
  have t: "token (ascii ''/smtp/setup'' @ 63 # query_text fs)" "length (ascii ''/smtp/setup'' @ 63 # query_text fs) < 256"
    using assms(7,8) by (auto simp: token_def is_ws_def ascii_def)
  have h: "63 \<notin> set (ascii ''/smtp/setup'')" "length (ascii ''/smtp/setup'') < 128" "map_of (http_urls env) (ascii ''/smtp/setup'') = Some http_url_smtp_setup"
    by (simp_all add: http_urls_def ascii_def)
  have q: "(63 # query_text fs) = [] \<or> hd (63 # query_text fs) = (63 :: u8)" by simp
  obtain w where w: "hc_state (w_client w) = HTTP_STATE_RESPONSE" "0 \<in> set (hc_url (w_client w))" "cstr (hc_url (w_client w)) = ascii ''/smtp/setup'' @ 63 # query_text fs"
    "hc_conn (w_client w) = conn" "w_outbuflen w = 0" "length (w_outbuf w) = length (w_outbuf (sv_world s))" "w_smtp w = w_smtp (sv_world s)" "w_calls w = w_calls (sv_world s)"
    "http_client_recv_cb env conn (request (ascii ''GET'') (ascii ''/smtp/setup'' @ 63 # query_text fs) ver hs) s =
      (case http_url_smtp_setup w of Return r w' \<Rightarrow> (let s1 = s\<lparr>sv_world := w', sv_clients := (sv_clients s)[i := w_client w']\<rparr> in Some (if r \<noteq> 0 then post_kill conn s1 else s1))
       | _ \<Rightarrow> None)"
    by (rule get_request [OF assms(1) t assms(9,10) assms(11) [unfolded u] h(1) q h(2,3)])
  obtain w' where w': "http_url_smtp_setup w = Return 1 w'" "server_wf (w_smtp w')" "account fs (w_smtp w')"
    "w_calls w' = w_calls w @ [Arm_smtp_param 3000, Espconn_send conn (concat text_202)]"
    using smtp_setup_handler [OF w(1,2) w(3) [folded u] w(5) _ _ assms(4-6)] w(4,6,7) assms(2,3) by auto
  have "smtp_init load fmap buf1 f' = Some (smtp_state0, w_smtp w')" if "smtp_param_write load save fmap (w_smtp w') buf0 f = Some (0, buf, f')" for f buf f'
    using smtp_account_roundtrip [OF assms(12-14) w'(2)] that unfolding smtp_param_write_def by blast
  then show ?thesis using w(8,9) w' unfolding u by (simp add: Let_def)
qed

text \<open>
  C9: the wireless form. A get request for \<^verbatim>\<open>/wifi/setup?\<close> with a network name and a password, both not empty and
  fitting the arrays of the SDK, makes the device configure the station with exactly these texts; it then
  reconnects and answers 202, or answers 400 when the SDK refuses the configuration.
\<close>

theorem wifi_setup_applied:
  assumes "fresh_slot conn i s" "length (w_outbuf (sv_world s)) = 4096" "list_all field_ok fs" "list_all (wifi_fits env) fs"
    and "sent ''ssid'' fs = Some ssid" "sent ''pass'' fs = Some pass" "ssid \<noteq> []" "pass \<noteq> []" "token (query_text fs)" "length (query_text fs) < 244"
    and "token ver" "list_all header_ok hs" "length (request (ascii ''GET'') (ascii ''/wifi/setup?'' @ query_text fs) ver hs) \<le> 2048"
  shows "\<exists>s' a b. http_client_recv_cb env conn (request (ascii ''GET'') (ascii ''/wifi/setup?'' @ query_text fs) ver hs) s = Some s' \<and>
    w_calls (sv_world s') = w_calls (sv_world s) @ Wifi_set_config a b #
      (if env_wifi_set_config env then [Wifi_disconnect, Wifi_connect, Espconn_send conn (concat text_202)] else [Espconn_send conn (concat text_400)]) \<and>
    length a = env_ssid_size env \<and> length b = env_password_size env \<and> cstr a = ssid \<and> cstr b = pass"
proof -
  have u: "ascii ''/wifi/setup?'' @ query_text fs = ascii ''/wifi/setup'' @ 63 # query_text fs" by (simp add: ascii_def)
  have t: "token (ascii ''/wifi/setup'' @ 63 # query_text fs)" "length (ascii ''/wifi/setup'' @ 63 # query_text fs) < 256"
    using assms(9,10) by (auto simp: token_def is_ws_def ascii_def)
  have h: "63 \<notin> set (ascii ''/wifi/setup'')" "length (ascii ''/wifi/setup'') < 128" "map_of (http_urls env) (ascii ''/wifi/setup'') = Some (http_url_wifi_setup env)"
    by (simp_all add: http_urls_def ascii_def)
  have q: "(63 # query_text fs) = [] \<or> hd (63 # query_text fs) = (63 :: u8)" by simp
  obtain w where w: "hc_state (w_client w) = HTTP_STATE_RESPONSE" "0 \<in> set (hc_url (w_client w))" "cstr (hc_url (w_client w)) = ascii ''/wifi/setup'' @ 63 # query_text fs"
    "hc_conn (w_client w) = conn" "w_outbuflen w = 0" "length (w_outbuf w) = length (w_outbuf (sv_world s))" "w_smtp w = w_smtp (sv_world s)" "w_calls w = w_calls (sv_world s)"
    "http_client_recv_cb env conn (request (ascii ''GET'') (ascii ''/wifi/setup'' @ 63 # query_text fs) ver hs) s =
      (case http_url_wifi_setup env w of Return r w' \<Rightarrow> (let s1 = s\<lparr>sv_world := w', sv_clients := (sv_clients s)[i := w_client w']\<rparr> in Some (if r \<noteq> 0 then post_kill conn s1 else s1))
       | _ \<Rightarrow> None)"
    by (rule get_request [OF assms(1) t assms(11,12) assms(13) [unfolded u] h(1) q h(2,3)])
  obtain w' conf where w': "http_url_wifi_setup env w = Return 1 w'" "network env fs conf" "w_calls w' = w_calls w @ wifi_calls env conn conf"
    using wifi_setup_handler [OF w(1,2) w(3) [folded u] w(5) _ assms(3-8)] w(4,6) assms(2) by auto
  have "cstr (sc_ssid conf) = ssid" "cstr (sc_password conf) = pass" "length (sc_ssid conf) = env_ssid_size env" "length (sc_password conf) = env_password_size env"
    using w'(2) assms(5,6) by (simp_all add: network_def)
  with w(8,9) w'(1,3) show ?thesis unfolding u
    by - (rule exI [of _ "post_kill conn (s\<lparr>sv_world := w', sv_clients := (sv_clients s)[i := w_client w']\<rparr>)"], rule exI [of _ "sc_ssid conf"], rule exI [of _ "sc_password conf"], simp add: Let_def wifi_calls_def)
qed

section \<open>Witnesses\<close>

text \<open>The forms as a browser sends them, with a percent-encoded \<^verbatim>\<open>@\<close> and blank.\<close>

definition plain :: "string \<Rightarrow> (u8 list \<times> u8) list" where
  "plain t = map (\<lambda>c. ([c], c)) (ascii t)"

definition mail_sample :: "field list" where
  "mail_sample = [(ascii ''from'', plain ''a'' @ (ascii ''%40'', 64) # plain ''b''), (ascii ''to'', plain ''c''), (ascii ''host'', plain ''mx''),
     (ascii ''port'', plain ''587''), (ascii ''user'', plain ''tim''), (ascii ''pass'', plain ''pw'')]"

definition wifi_sample :: "field list" where
  "wifi_sample = [(ascii ''ssid'', plain ''my'' @ (ascii ''%20'', 32) # plain ''net''), (ascii ''pass'', plain ''pw'')]"

lemmas sample_defs = mail_sample_def wifi_sample_def plain_def ascii_def decoded_def field_text_def

lemma samples_ok: "list_all field_ok mail_sample" "list_all field_ok wifi_sample" "token (query_text mail_sample)" "token (query_text wifi_sample)"
  "length (query_text mail_sample) < 244" "length (query_text wifi_sample) < 244"
  by (simp_all add: sample_defs field_ok_def enc_piece_def url_map_def token_def is_ws_def)

lemma samples_sent: "sent ''from'' mail_sample = Some (ascii ''a@b'')" "sent ''to'' mail_sample = Some (ascii ''c'')" "sent ''host'' mail_sample = Some (ascii ''mx'')"
  "sent ''port'' mail_sample = Some (ascii ''587'')" "sent ''user'' mail_sample = Some (ascii ''tim'')" "sent ''pass'' mail_sample = Some (ascii ''pw'')"
  "sent ''ssid'' wifi_sample = Some (ascii ''my net'')" "sent ''pass'' wifi_sample = Some (ascii ''pw'')"
  by (simp_all add: sample_defs last_value_def)

lemma run_fresh: "fresh_slot 7 0 run_sample" "length (w_outbuf (sv_world run_sample)) = 4096" "server_wf (w_smtp (sv_world run_sample))"
proof -
  have f: "free_slot (sv_clients (http_init w)) 0 = Some 0" for w by (simp add: http_init_def http_client0_def numeral_eq_Suc)
  show "fresh_slot 7 0 run_sample" unfolding run_sample_def by (rule fresh_connection [OF f])
  show "length (w_outbuf (sv_world run_sample)) = 4096" using http_run_ok [OF run_sample] by (simp add: server_ok_def)
  have "sv_world run_sample = run_world" using f by (simp add: run_sample_def http_server_conn_cb_def Let_def) (simp add: http_init_def)
  then show "server_wf (w_smtp (sv_world run_sample))" by (simp add: run_world_def world_reset_def server_wf_def c_text_def server_of_bytes_def)
qed

theorem smtp_setup_stored_witness:
  "\<exists>s'. http_client_recv_cb env_sample 7 (request (ascii ''GET'') (ascii ''/smtp/setup?'' @ query_text mail_sample) (ascii ''HTTP/1.1'') []) run_sample = Some s' \<and>
     cstr (sv_from (w_smtp (sv_world s'))) = ascii ''a@b''"
proof -
  have "list_all smtp_fits mail_sample" by (simp add: sample_defs smtp_fits_def)
  moreover have "complete mail_sample" by (simp add: complete_def samples_sent) (simp add: ascii_def c_atoi_def)
  moreover have "token (ascii ''HTTP/1.1'')" "list_all header_ok []" by (simp_all add: token_def is_ws_def ascii_def)
  moreover have "length (request (ascii ''GET'') (ascii ''/smtp/setup?'' @ query_text mail_sample) (ascii ''HTTP/1.1'') []) \<le> 2048"
    using samples_ok(5) by (simp add: request_def header_def ascii_def)
  moreover have "length (replicate 1024 (0 :: u8)) = 1024" by simp
  ultimately obtain s' where "http_client_recv_cb env_sample 7 (request (ascii ''GET'') (ascii ''/smtp/setup?'' @ query_text mail_sample) (ascii ''HTTP/1.1'') []) run_sample = Some s'"
    "account mail_sample (w_smtp (sv_world s'))"
    using smtp_setup_stored [OF run_fresh samples_ok(1) _ _ samples_ok(3,5) _ _ _ param_sdk_sector] by blast
  moreover from this(2) have "cstr (sv_from (w_smtp (sv_world s'))) = ascii ''a@b''" unfolding account_def using samples_sent(1) by blast
  ultimately show ?thesis by blast
qed

theorem wifi_setup_applied_witness:
  "\<exists>s' a b. http_client_recv_cb env_sample 7 (request (ascii ''GET'') (ascii ''/wifi/setup?'' @ query_text wifi_sample) (ascii ''HTTP/1.1'') []) run_sample = Some s' \<and>
     Wifi_set_config a b \<in> set (w_calls (sv_world s')) \<and> cstr a = ascii ''my net''"
proof -
  have f: "list_all (wifi_fits env_sample) wifi_sample" by (simp add: sample_defs wifi_fits_def env_sample_def)
  have n: "ascii ''my net'' \<noteq> []" "ascii ''pw'' \<noteq> []" "token (ascii ''HTTP/1.1'')" "list_all header_ok []" by (simp_all add: token_def is_ws_def ascii_def)
  have l: "length (request (ascii ''GET'') (ascii ''/wifi/setup?'' @ query_text wifi_sample) (ascii ''HTTP/1.1'') []) \<le> 2048"
    using samples_ok(6) by (simp add: request_def header_def ascii_def)
  obtain s' a b where w: "http_client_recv_cb env_sample 7 (request (ascii ''GET'') (ascii ''/wifi/setup?'' @ query_text wifi_sample) (ascii ''HTTP/1.1'') []) run_sample = Some s'"
    "w_calls (sv_world s') = w_calls (sv_world run_sample) @ Wifi_set_config a b #
      (if env_wifi_set_config env_sample then [Wifi_disconnect, Wifi_connect, Espconn_send 7 (concat text_202)] else [Espconn_send 7 (concat text_400)])"
    "cstr a = ascii ''my net''"
    using wifi_setup_applied [OF run_fresh(1,2) samples_ok(2) f samples_sent(7,8) n(1,2) samples_ok(4,6) n(3,4) l] by blast
  have "Wifi_set_config a b \<in> set (w_calls (sv_world s'))" unfolding w(2) by (simp only: set_append set_simps insertI1 UnI2)
  with w(1,3) show ?thesis by blast
qed

end
