(* ===== verification/Uart0.thy ===== *)
theory Uart0
  imports Prelude
begin

text \<open>
  The serial monitor that \<^verbatim>\<open>make log\<close> runs on the host (\<^verbatim>\<open>src/log/uart0/main.c\<close>): it configures the device and prints the log of the
  firmware line by line. What the operating system answers is an argument: the results of the calls and, for the
  loop, one result of \<^verbatim>\<open>read\<close> per turn; the list ends where the interrupt signal clears \<^verbatim>\<open>loop\<close>.
\<close>

section \<open>The code\<close>

record termios2 =
  c_cflag :: u32
  c_ispeed :: u32
  c_ospeed :: u32

datatype uart_read = Read_error | Read_none | Read_byte u8

datatype uart_call = Open "u8 list" | Tcgets2 int | Tcsets2 int termios2 | Signal_int | Close int | Message string

record uart_env =
  ue_open :: "u8 list \<Rightarrow> int"
  ue_tcgets2 :: "int \<Rightarrow> termios2 option"
  ue_tcsets2 :: "int \<Rightarrow> termios2 \<Rightarrow> bool"
  ue_signal :: bool
  ue_reads :: "uart_read list"
  ue_CBAUD :: u32
  ue_BOTHER :: u32

record uart_state =
  ua_buf :: "u8 list"
  ua_i :: nat
  ua_out :: "u8 list"

text \<open>One turn of the loop: \<open>Inl\<close> is the return with 1, with the message.\<close>

definition uart_step :: "uart_read \<Rightarrow> uart_state \<Rightarrow> string \<times> uart_state + uart_state" where
  "uart_step r s =
     (case r of
        Read_error \<Rightarrow> Inl (''read'', s)
      | Read_none \<Rightarrow> Inr s
      | Read_byte b \<Rightarrow>
          let s1 = s\<lparr>ua_buf := (ua_buf s)[ua_i s := b], ua_i := ua_i s + 1\<rparr> in
          if ua_i s1 > length (ua_buf s1) - 1 then Inl (''++i > sizeof(buf)-1, aborting'', s1)
          else if ua_buf s1 ! (ua_i s1 - 1) = 10 then
            let s2 = s1\<lparr>ua_buf := (ua_buf s1)[ua_i s1 := 0]\<rparr>
            in Inr (s2\<lparr>ua_out := ua_out s2 @ cstr (ua_buf s2), ua_i := 0\<rparr>)
          else Inr s1)"

fun uart_loop :: "uart_read list \<Rightarrow> uart_state \<Rightarrow> string \<times> uart_state + uart_state" where
  "uart_loop [] s = Inr s"
| "uart_loop (r # rs) s = (case uart_step r s of Inl e \<Rightarrow> Inl e | Inr s1 \<Rightarrow> uart_loop rs s1)"

definition uart_path :: "u8 list list \<Rightarrow> u8 list" where
  "uart_path argv =
     (let path = ascii ''/dev/ttyUSB0'' @ replicate 244 0
      in if length argv \<ge> 2 then (take 256 (argv ! 1 @ replicate 256 0))[255 := 0] else path)"

definition uart_baud :: "u8 list list \<Rightarrow> u32" where
  "uart_baud argv = (if length argv = 3 then word_of_int (c_atoi (argv ! 2)) else 74880)"

text \<open>The exit code, the calls and the printed text. \<open>buf\<close> is the array on the stack.\<close>

definition uart_main :: "uart_env \<Rightarrow> u8 list list \<Rightarrow> u8 list \<Rightarrow> int \<times> uart_call list \<times> u8 list" where
  "uart_main env argv buf =
     (if length argv > 3 then (1, [Message ''usage''], [])
      else
        let path = cstr (uart_path argv);
            fd = ue_open env path;
            calls = Open path # (if fd = -1 then [Message ''open''] else [])
        in case ue_tcgets2 env fd of
             None \<Rightarrow> (1, calls @ [Tcgets2 fd, Message ''ioctl(TCGETS2)'', Close fd], [])
           | Some tio \<Rightarrow>
               let tio1 = tio\<lparr>c_cflag := c_cflag tio AND NOT (ue_CBAUD env)\<rparr>;
                   tio2 = tio1\<lparr>c_cflag := c_cflag tio1 OR ue_BOTHER env\<rparr>;
                   tio3 = tio2\<lparr>c_ispeed := uart_baud argv, c_ospeed := uart_baud argv\<rparr>;
                   calls1 = calls @ [Tcgets2 fd, Tcsets2 fd tio3]
               in if \<not> ue_tcsets2 env fd tio3 then (1, calls1 @ [Message ''ioctl(TCSETS2)'', Close fd], [])
                  else if \<not> ue_signal env then (1, calls1 @ [Signal_int, Message ''signal'', Close fd], [])
                  else case uart_loop (ue_reads env) \<lparr>ua_buf = buf, ua_i = 0, ua_out = []\<rparr> of
                         Inl (e, s) \<Rightarrow> (1, calls1 @ [Signal_int, Message e, Close fd], ua_out s)
                       | Inr s \<Rightarrow> (0, calls1 @ [Signal_int, Close fd], ua_out s))"

section \<open>Lines\<close>

text \<open>A text is its complete lines and the rest behind the last line end.\<close>

definition lines_of :: "u8 list \<Rightarrow> u8 list" where
  "lines_of bs = rev (dropWhile (\<lambda>b. b \<noteq> 10) (rev bs))"

definition rest_of :: "u8 list \<Rightarrow> u8 list" where
  "rest_of bs = rev (takeWhile (\<lambda>b. b \<noteq> 10) (rev bs))"

lemma lines_rest: "lines_of bs @ rest_of bs = bs"
  unfolding lines_of_def rest_of_def rev_append [symmetric] takeWhile_dropWhile_id by simp

lemma lines_snoc: "lines_of (bs @ [b]) = (if b = 10 then bs @ [b] else lines_of bs)" "rest_of (bs @ [b]) = (if b = 10 then [] else rest_of bs @ [b])"
  by (simp_all add: lines_of_def rest_of_def)

lemma rest_subset: "set (rest_of bs) \<subseteq> set bs"
  unfolding rest_of_def using set_takeWhileD by fastforce

text \<open>The bytes among the results of \<^verbatim>\<open>read\<close>.\<close>

fun bytes_of :: "uart_read list \<Rightarrow> u8 list" where
  "bytes_of [] = []"
| "bytes_of (Read_byte b # rs) = b # bytes_of rs"
| "bytes_of (r # rs) = bytes_of rs"

text \<open>The state after the bytes \<open>bs\<close>.\<close>

definition monitors :: "u8 list \<Rightarrow> uart_state \<Rightarrow> bool" where
  "monitors bs s \<longleftrightarrow> length (ua_buf s) = 1024 \<and> ua_i s = length (rest_of bs) \<and> ua_i s \<le> 1023 \<and> take (ua_i s) (ua_buf s) = rest_of bs \<and> ua_out s = lines_of bs"

lemma monitors_byte:
  assumes "monitors bs s" "0 \<notin> set (bs @ [b])"
  shows "if length (rest_of bs) = 1023 then \<exists>s'. uart_step (Read_byte b) s = Inl (''++i > sizeof(buf)-1, aborting'', s') \<and> ua_out s' = lines_of bs
    else \<exists>s'. uart_step (Read_byte b) s = Inr s' \<and> monitors (bs @ [b]) s'"
proof (cases "length (rest_of bs) = 1023")
  case True
  then show ?thesis using assms(1) by (simp add: uart_step_def Let_def monitors_def)
next
  case False
  define i where "i = ua_i s"
  have i: "i < 1023" "i = length (rest_of bs)" "length (ua_buf s) = 1024" "take i (ua_buf s) = rest_of bs" "ua_out s = lines_of bs"
    using assms(1) False unfolding monitors_def i_def by auto
  have t: "take (i + 1) ((ua_buf s)[i := b]) = rest_of bs @ [b]" using i by (simp add: take_Suc_conv_app_nth)
  show ?thesis
  proof (cases "b = 10")
    case True
    have "(ua_buf s)[i := b, i + 1 := 0] = (rest_of bs @ [b]) @ 0 # drop (i + 2) (ua_buf s)"
      using i t by (simp add: upd_conv_take_nth_drop take_update_swap)
    moreover have "0 \<notin> set (rest_of bs @ [b])" using assms(2) rest_subset [of bs] by auto
    ultimately have "cstr ((ua_buf s)[i := b, i + 1 := 0]) = rest_of bs @ [b]" using cstr_append by metis
    then show ?thesis using i True lines_rest [of bs] False
      by (auto simp: uart_step_def Let_def monitors_def lines_snoc simp flip: i_def append_assoc)
  next
    case nb: False
    then show ?thesis using i t False by (auto simp: uart_step_def Let_def monitors_def lines_snoc simp flip: i_def)
  qed
qed

lemma monitors_loop:
  assumes "monitors bs s" "0 \<notin> set (bs @ bytes_of rs)" "Read_error \<notin> set rs" "\<forall>k < length (bytes_of rs). length (rest_of (bs @ take k (bytes_of rs))) < 1023"
  shows "\<exists>s'. uart_loop rs s = Inr s' \<and> monitors (bs @ bytes_of rs) s'"
  using assms
proof (induction rs arbitrary: bs s rule: bytes_of.induct)
  case (2 b rs)
  have "length (rest_of bs) < 1023" using 2(5) [rule_format, of 0] by simp
  then obtain s1 where s1: "uart_step (Read_byte b) s = Inr s1" "monitors (bs @ [b]) s1" using monitors_byte [OF 2(2), of b] 2(3) by auto
  have "\<forall>k < length (bytes_of rs). length (rest_of ((bs @ [b]) @ take k (bytes_of rs))) < 1023"
  proof (intro allI impI)
    fix k assume "k < length (bytes_of rs)"
    then show "length (rest_of ((bs @ [b]) @ take k (bytes_of rs))) < 1023" using 2(5) [rule_format, of "Suc k"] by simp
  qed
  then show ?case using 2(1) [OF s1(2)] 2(3,4) s1(1) by simp
qed (auto simp: uart_step_def)

text \<open>The first line that is too long ends the program.\<close>

lemma monitors_overflow:
  assumes "monitors bs s" "0 \<notin> set (bs @ bytes_of rs)" "Read_error \<notin> set rs"
    and "k < length (bytes_of rs)" "length (rest_of (bs @ take k (bytes_of rs))) = 1023" "\<forall>j < k. length (rest_of (bs @ take j (bytes_of rs))) < 1023"
  shows "\<exists>s'. uart_loop rs s = Inl (''++i > sizeof(buf)-1, aborting'', s') \<and> ua_out s' = lines_of (bs @ take k (bytes_of rs))"
  using assms
proof (induction rs arbitrary: bs s k rule: bytes_of.induct)
  case (2 b rs)
  show ?case
  proof (cases k)
    case 0
    then show ?thesis using monitors_byte [OF 2(2), of b] 2(3,6) by auto
  next
    case (Suc l)
    have "length (rest_of bs) < 1023" using 2(7) [rule_format, of 0] Suc by simp
    then obtain s1 where s1: "uart_step (Read_byte b) s = Inr s1" "monitors (bs @ [b]) s1" using monitors_byte [OF 2(2), of b] 2(3) by auto
    have "\<forall>j < l. length (rest_of ((bs @ [b]) @ take j (bytes_of rs))) < 1023"
    proof (intro allI impI)
      fix j assume "j < l"
      then show "length (rest_of ((bs @ [b]) @ take j (bytes_of rs))) < 1023" using 2(7) [rule_format, of "Suc j"] Suc by simp
    qed
    then show ?thesis using 2(1) [OF s1(2), of l] 2(3-6) s1(1) Suc by simp
  qed
qed (auto simp: uart_step_def)

section \<open>Property\<close>

text \<open>
  C30: the serial monitor. When the device can be opened and configured, the program sets the baud rate and prints, of the bytes that
  arrive until the interrupt, exactly the complete lines, in order and unchanged, and returns 0. A line of more than 1023
  bytes ends it with 1 and its message, with all lines before it printed. The lines contain no NUL, and reads that return
  nothing may come in between.
\<close>

theorem uart0_prints_lines:
  assumes "length argv \<le> 3" "length buf = 1024" "ue_open env (cstr (uart_path argv)) = fd" "fd \<noteq> -1" "ue_tcgets2 env fd = Some tio" "ue_signal env"
    and "\<And>t. ue_tcsets2 env fd t" "Read_error \<notin> set (ue_reads env)" "0 \<notin> set (bytes_of (ue_reads env))"
  defines "bs \<equiv> bytes_of (ue_reads env)"
    and "calls \<equiv> [Open (cstr (uart_path argv)), Tcgets2 fd,
      Tcsets2 fd (tio\<lparr>c_cflag := c_cflag tio AND NOT (ue_CBAUD env) OR ue_BOTHER env, c_ispeed := uart_baud argv, c_ospeed := uart_baud argv\<rparr>), Signal_int]"
  shows "((\<forall>k < length bs. length (rest_of (take k bs)) < 1023) \<longrightarrow> uart_main env argv buf = (0, calls @ [Close fd], lines_of bs)) \<and>
    (\<forall>k < length bs. length (rest_of (take k bs)) = 1023 \<and> (\<forall>j < k. length (rest_of (take j bs)) < 1023) \<longrightarrow>
      uart_main env argv buf = (1, calls @ [Message ''++i > sizeof(buf)-1, aborting'', Close fd], lines_of (take k bs)))"
proof -
  define s where "s = \<lparr>ua_buf = buf, ua_i = 0, ua_out = []\<rparr>"
  have m: "monitors [] s" using assms(2) by (simp add: monitors_def s_def rest_of_def lines_of_def)
  have main: "uart_main env argv buf = (case uart_loop (ue_reads env) s of
      Inl (e, s) \<Rightarrow> (1, calls @ [Message e, Close fd], ua_out s) | Inr s \<Rightarrow> (0, calls @ [Close fd], ua_out s))"
    unfolding uart_main_def s_def [symmetric] using assms(1,3-7) by (simp add: Let_def calls_def split: sum.split prod.split)
  have "uart_main env argv buf = (0, calls @ [Close fd], lines_of bs)" if "\<forall>k < length bs. length (rest_of (take k bs)) < 1023"
    using monitors_loop [OF m, of "ue_reads env"] assms(8,9) that unfolding main bs_def by (auto simp: monitors_def)
  moreover have "uart_main env argv buf = (1, calls @ [Message ''++i > sizeof(buf)-1, aborting'', Close fd], lines_of (take k bs))"
    if "k < length bs" "length (rest_of (take k bs)) = 1023" "\<forall>j < k. length (rest_of (take j bs)) < 1023" for k
    using monitors_overflow [OF m, of "ue_reads env" k] assms(8,9) that unfolding main bs_def by auto
  ultimately show ?thesis by blast
qed

text \<open>A log line arrives, with an empty read in between, and the beginning of another one.\<close>

definition uart_sample :: uart_env where
  "uart_sample = \<lparr>ue_open = (\<lambda>_. 3), ue_tcgets2 = (\<lambda>_. Some \<lparr>c_cflag = 0, c_ispeed = 0, c_ospeed = 0\<rparr>), ue_tcsets2 = (\<lambda>_ _. True), ue_signal = True,
     ue_reads = [Read_byte 104, Read_none, Read_byte 105, Read_byte 10, Read_byte 120], ue_CBAUD = 4111, ue_BOTHER = 4096\<rparr>"

theorem uart0_prints_lines_witness: "snd (snd (uart_main uart_sample [ascii ''uart0''] (replicate 1024 0))) = [104, 105, 10]"
proof -
  have "\<forall>k < length (bytes_of (ue_reads uart_sample)). length (rest_of (take k (bytes_of (ue_reads uart_sample)))) < 1023"
    using rest_of_def by (auto simp: uart_sample_def rest_of_def intro!: le_less_trans [OF length_takeWhile_le])
  then show ?thesis
    using uart0_prints_lines [of "[ascii ''uart0'']" "replicate 1024 0" uart_sample 3] by (simp add: uart_sample_def lines_of_def)
qed

end
