(* ===== verification/Spec2Isabelle.thy ===== *)
theory Spec2Isabelle
  imports Base64 Sha256 Md5 Rsa Uptime Param Log Smtp_Protocol Http_Server Tsl2561 Wifi User_Init Http_Forms Uart0
begin

text \<open>
  Verification of the ESP8266 toolbox, a firmware with an HTTP server, signed updates over the air, a mail client, logging and a
  light sensor, and of the host programs that belong to it.

  \<^bold>\<open>The program.\<close> \<^verbatim>\<open>user_init\<close> starts everything: the log, the wireless configuration, the mail client, the HTTP server, the I2C bus with the light
  sensor, and two timers. From then on the firmware only reacts to callbacks of the SDK: connections and packets for the HTTP server
  (\<^verbatim>\<open>src/http\<close>), replies for the mail client (\<^verbatim>\<open>src/smtp\<close>), wireless events (\<^verbatim>\<open>src/wifi.c\<close>) and the timers
  (\<^verbatim>\<open>src/uptime.c\<close>, the light monitor in \<^verbatim>\<open>src/user_init.c\<close>). The HTTP handlers reach the other parts: the log buffer and its levels, the uptime, the mail account, the
  wireless configuration, and the update, which uses SHA-256, the big integers and RSA (\<^verbatim>\<open>src/crypto\<close>). The mail client uses MD5 and
  Base64; the account is kept in flash by \<^verbatim>\<open>src/param.c\<close>.

  \<^bold>\<open>How it is modelled.\<close> A C struct is a record, an enumeration a datatype, an integer a word of its width where it can wrap around, an array a list of bytes
  of its size. Functions pass the state explicitly. An access outside an array is a value of its own (\<open>None\<close> or \<open>Fault\<close>), never
  undefined, and so is a loop that does not end. Results of SDK calls are arguments, and what the firmware asks of the SDK is
  recorded in the state, oldest first. Where a property relies on the SDK (reading back what was written to flash, the layout of
  the flash), the documented behaviour is a named hypothesis (\<open>param_sdk\<close>, \<open>flash_sdk\<close>, \<open>ota_device\<close>, \<open>env_ok\<close>) that a concrete
  instance satisfies.

  \<^bold>\<open>The theories\<close>, from the bottom up:
  \<^item> \<open>Prelude\<close>: words, C strings, buffers that are patched in place, number formats; the collection \<open>buf_simps\<close>.
  \<^item> \<open>Md_Hash\<close>: the locale \<open>md_buffer\<close> of a hash function that collects blocks of 64 bytes, and its extension \<open>md_digest\<close> with the padding. \<open>Sha256\<close>
    (\<^verbatim>\<open>crypto/sha256.c\<close>) and \<open>Md5\<close> (\<^verbatim>\<open>crypto/md5.c\<close>) interpret both; their compression functions are shown to be those of
    FIPS 180-4 and RFC 1321, and the digest is right however the message is split over the calls.
  \<^item> \<open>Base64\<close> (\<^verbatim>\<open>crypto/base64.c\<close>): the encoder writes the text of RFC 4648, the decoder inverts it and stays in its buffer.
  \<^item> \<open>Bigint\<close>, \<open>Bigint_Arith\<close> (\<^verbatim>\<open>crypto/bigint.c\<close>): numbers in a store of variables, so that aliased arguments and the static
    temporaries are part of the model. Every routine computes the value of its specification, or its exact error; the square-and-multiply
    loop is proved in the locale \<open>modular_multiplier\<close>.
  \<^item> \<open>Rsa\<close> (\<^verbatim>\<open>crypto/rsa.c\<close>) and \<open>Rsa_Host\<close> (\<^verbatim>\<open>crypto/rsasign.py\<close>, \<^verbatim>\<open>crypto/rsapubkey.py\<close>): the public-key operation,
    the generated key and the signature text.
  \<^item> \<open>Uptime\<close>, \<open>Param\<close>, \<open>Log\<close>: the extended clock, the parameter sector, the log buffer.
  \<^item> \<open>Smtp\<close> (\<^verbatim>\<open>smtp/smtp.c\<close>): the account and the state machine with all callbacks. \<open>Smtp_Session\<close>: the step relation of the client, with every callback in every state and an account that
    may change between steps, its invariant on whole lines, whole mail sessions, HMAC-MD5, failures, and what goes wrong on fragmented replies. \<open>Smtp_Protocol\<close>: the abstract
    protocol automaton, which the client refines.
  \<^item> \<open>Url_Decode\<close> (\<^verbatim>\<open>http/utils.c\<close>): decoding in place, its end and its result.
  \<^item> \<open>Http_Base\<close> (\<^verbatim>\<open>http/private.h\<close>), \<open>Http_Pages\<close> (the handlers of \<^verbatim>\<open>urls.c\<close>, \<^verbatim>\<open>url_info.c\<close>, \<^verbatim>\<open>url_reset.c\<close>,
    \<^verbatim>\<open>url_logs.c\<close>, \<^verbatim>\<open>url_wifi.c\<close>, \<^verbatim>\<open>url_smtp.c\<close>), \<open>Ota\<close> (\<^verbatim>\<open>url_ota.c\<close>), \<open>Http_Parse\<close> (\<^verbatim>\<open>process.c\<close>) and \<open>Http_Server\<close>
    (\<^verbatim>\<open>init.c\<close>): a function body is a list of statements that fall through, return or fault, like the macros of the source.
  \<^item> \<open>Http_Output\<close>: what is in the output buffer after a list of appends. \<open>Http_Handlers\<close>: the contract that every handler keeps, whatever it is sent; the
    locale \<open>url_table\<close> carries it to the dispatch. \<open>Http_Slots\<close>: runs of the server under any order of events (the queue of the SDK between a request to close and the
    task is not part of it), the slots and the admission of connections. \<open>Http_Request\<close>:
    the parser on well-formed requests.
  \<^item> \<open>Ota_Update\<close>, \<open>Ota_Session\<close>: the sector buffer, the flash and the verdict on a signature. \<open>Http_Session\<close>: parser, dispatch and update composed,
    from the first packet of a request to the reboot. \<open>Http_Forms\<close>: the two setup forms, instances of the locale \<open>form_pair\<close>.
  \<^item> \<open>I2c\<close> (\<^verbatim>\<open>i2c/i2c_master.c\<close>): programs of the state monad over the pins; the trace is decoded by the rules of the bus, and the locale \<open>i2c_driver\<close> is
    the contract of the functions. \<open>Tsl2561\<close> (\<^verbatim>\<open>drivers/tsl2561.c\<close>) is its client.
  \<^item> \<open>Wifi\<close> (\<^verbatim>\<open>wifi.c\<close>), \<open>User_Init\<close> (\<^verbatim>\<open>user_init.c\<close>): the start of all components, the light monitor over them, and
    both timers in any order.
  \<^item> \<open>Uart0\<close> (\<^verbatim>\<open>log/uart0/main.c\<close>): the host program that prints the log.

  \<^bold>\<open>What is shown.\<close> A correctly signed image, posted in any packets, is installed and booted; the signature check accepts exactly the right signatures, except that a
  digest is compared only up to its first zero byte; an interrupted update leaves the running image and the parameters alone. Two connections never share a slot, every answer is a
  complete HTTP message to the connection that asked, requests and forms are understood, and a connection is admitted exactly if one of the four slots is free. The hash functions, the number arithmetic and the codecs
  compute their specifications. The log holds the enabled entries, the newest first. The mail client follows an automaton in which its DNS and connect callbacks act in every state, as in the code; it
  authenticates correctly, stays in its arrays as long as replies arrive in whole lines, and recovers from a failure only by a lookup or a connection that is still
  outstanding. The sensor driver speaks the protocol of its data sheet and leaves the bus idle; the light value is exact at the settings the driver uses, and the overflow at
  others is stated. Mails about light are 301 seconds apart except across a wrap of the clock that is not counted yet, and never more than three in 301 seconds. The
  properties that the code lacks are stated as what it does instead: the lost half of a quotient, the uptime that runs backwards, one byte of a
  magic number, a reply in two pieces.

  \<^bold>\<open>Bounds.\<close> No definition has fuel. Loops that always end are functions with a measure; the loops of \<^verbatim>\<open>sha256_proc\<close>, \<^verbatim>\<open>md5_proc\<close>,
  \<^verbatim>\<open>bigint_mul\<close> and of the update are partial functions, and the properties show that they return. Hash messages are shorter than \<open>2 ^ 29\<close> bytes, because the bit count
  is kept in 32 bits; moduli have at most 584 bits, because products have to fit 1191 bits; packets have at most 2048 bytes, the size of a client's buffer.

  \<^bold>\<open>Not modelled.\<close> The directory \<^verbatim>\<open>bearssl-0.5\<close> is a third-party library that no file of the firmware uses. The SDK is not in the repository. The headers declare what
  the sources define; the constants are modelled where they are used. The key file that the build generates is modelled by its generator, the PEM and DER decoding of the private
  key by a library is an argument. The test scripts of the big integers, \<^verbatim>\<open>log/uart0.py\<close>, \<^verbatim>\<open>smtp/gmail.py\<close> and the board files are not part of the program. Log
  messages are left out where a function only formats them for the log (and with them the error callbacks, which do nothing else), so the contents of the log buffer are
  an argument of the log page; the log itself, its macros and the messages of \<^verbatim>\<open>wifi.c\<close> are modelled. Waiting times are recorded where the
  hardware depends on them and left out elsewhere; feeding the watchdog has no effect in the model.
\<close>

end
